(* ===== verification/Prelude.thy ===== *)
theory Prelude
  imports Main "HOL-Library.Word" "HOL-Library.Signed_Division" "HOL-Library.Multiset"
begin

text \<open>
  Shared vocabulary of the development: what C leaves undefined, as values of a
  \<open>fault\<close> type; the result type \<open>fault + 'a\<close> with its sequencing operator; C integer
  conversions (gcc, LP64: \<open>int\<close> 32 bits, \<open>unsigned long\<close> 64 bits); pointers to linked
  nodes, which may be NULL or uninitialised; bounds-checked arrays; and the generic
  lemmas on lists and multisets the components use.
\<close>

unbundle bit_operations_syntax

named_theorems result_simps \<open>sequencing of results that may fault\<close>
named_theorems chain_simps \<open>linked chains and the lists they stand for\<close>
named_theorems macro_simps \<open>values of the constants the headers define by macros\<close>

section \<open>Faults and results\<close>

text \<open>
  A C function that runs into undefined behaviour, blocks on its own mutex or calls
  \<open>exit(1)\<close> does not return a value; everything it returns normally, error codes
  included, is an \<open>Inr\<close>.
\<close>

datatype fault =
    Null_Deref        \<comment> \<open>a NULL pointer is dereferenced\<close>
  | Uninit_Read       \<comment> \<open>a value that was never written is used\<close>
  | Out_Of_Bounds     \<comment> \<open>an array is accessed outside its bounds\<close>
  | Signed_Overflow   \<comment> \<open>an int computation leaves the range of int\<close>
  | Div_By_Zero
  | Use_After_Free    \<comment> \<open>a pointer to a freed object is dereferenced\<close>
  | Self_Deadlock     \<comment> \<open>a non-recursive mutex is locked by its holder\<close>
  | Exit_Failure      \<comment> \<open>the program calls exit(1)\<close>

type_synonym 'a result = "fault + 'a"

fun and_then :: "'a result \<Rightarrow> ('a \<Rightarrow> 'b result) \<Rightarrow> 'b result" where
  "and_then (Inl e) f = Inl e"
| "and_then (Inr x) f = f x"

lemma and_then_Inr_iff [result_simps]:
  "and_then m f = Inr y \<longleftrightarrow> (\<exists>x. m = Inr x \<and> f x = Inr y)"
  by (cases m) auto

lemma and_then_Inl_iff [result_simps]:
  "and_then m f = Inl e \<longleftrightarrow> m = Inl e \<or> (\<exists>x. m = Inr x \<and> f x = Inl e)"
  by (cases m) auto

lemma and_then_assoc [result_simps]:
  "and_then (and_then m f) g = and_then m (\<lambda>x. and_then (f x) g)"
  by (cases m) auto

lemma and_then_cong [fundef_cong]:
  "m = m' \<Longrightarrow> (\<And>x. m' = Inr x \<Longrightarrow> f x = g x) \<Longrightarrow> and_then m f = and_then m' g"
  by (cases m') auto

lemma and_then_If [simp]:
  "and_then (if b then m else m') f = (if b then and_then m f else and_then m' f)"
  by simp

definition guard :: "bool \<Rightarrow> fault \<Rightarrow> unit result" where
  "guard b e = (if b then Inr () else Inl e)"

lemma guard_Inr_iff [result_simps]: "guard b e = Inr u \<longleftrightarrow> b"
  by (simp add: guard_def)

lemma guard_True [simp]: "guard True e = Inr ()"
  by (simp add: guard_def)

text \<open>Dereferencing a pointer that may be NULL.\<close>

fun deref :: "'a option \<Rightarrow> 'a result" where
  "deref None = Inl Null_Deref"
| "deref (Some x) = Inr x"

lemma deref_Inr_iff [result_simps]: "deref p = Inr x \<longleftrightarrow> p = Some x"
  by (cases p) auto

text \<open>Using a variable whose value may never have been written.\<close>

fun initialised :: "'a option \<Rightarrow> 'a result" where
  "initialised None = Inl Uninit_Read"
| "initialised (Some x) = Inr x"

lemma initialised_Inr_iff [result_simps]: "initialised v = Inr x \<longleftrightarrow> v = Some x"
  by (cases v) auto

section \<open>C integers\<close>

type_synonym u32 = "32 word"      \<comment> \<open>uint32_t, addr_t\<close>
type_synonym ulong = "64 word"    \<comment> \<open>unsigned long\<close>
type_synonym BYTE = "8 word"      \<comment> \<open>char\<close>

text \<open>
  An \<open>int\<close> is an \<open>int\<close> of HOL within the range of 32 bits; signed arithmetic that
  leaves the range is undefined. Conversions between integer types wrap, as gcc
  defines them.
\<close>

definition c_int :: "int \<Rightarrow> int result" where
  "c_int x = (if - 2147483648 \<le> x \<and> x \<le> 2147483647 then Inr x else Inl Signed_Overflow)"

lemma c_int_Inr_iff [result_simps]:
  "c_int x = Inr y \<longleftrightarrow> y = x \<and> - 2147483648 \<le> x \<and> x \<le> 2147483647"
  by (auto simp: c_int_def)

lemma c_int_in_range [simp]:
  "- 2147483648 \<le> x \<Longrightarrow> x \<le> 2147483647 \<Longrightarrow> c_int x = Inr x"
  by (simp add: c_int_def)

definition int_of_u32 :: "u32 \<Rightarrow> int" where "int_of_u32 w = sint w"
definition u32_of_int :: "int \<Rightarrow> u32" where "u32_of_int i = word_of_int i"
definition int_of_ulong :: "ulong \<Rightarrow> int" where "int_of_ulong w = sint (ucast w :: u32)"
definition ulong_of_int :: "int \<Rightarrow> ulong" where "ulong_of_int i = word_of_int i"
definition u32_of_byte :: "BYTE \<Rightarrow> u32" where "u32_of_byte b = scast b"
definition byte_of_u32 :: "u32 \<Rightarrow> BYTE" where "byte_of_u32 w = ucast w"

lemma sint_u32_small: "uint (w :: u32) < 2147483648 \<Longrightarrow> sint w = uint w"
proof -
  assume "uint w < 2147483648"
  moreover have "- (2 ^ 31) \<le> uint w" by (rule order_trans [OF _ uint_ge_0]) simp
  ultimately show ?thesis
    by (simp add: sint_uint signed_take_bit_int_eq_self)
qed

lemma int_of_u32_small: "uint w < 2147483648 \<Longrightarrow> int_of_u32 w = uint w"
  by (simp add: int_of_u32_def sint_u32_small)

lemma uint_ulong_of_int: "0 \<le> i \<Longrightarrow> i < 2 ^ 64 \<Longrightarrow> uint (ulong_of_int i) = i"
  by (simp add: ulong_of_int_def uint_word_of_int)

lemma uint_add_ulong:
  assumes "0 \<le> i" "uint w + i < 2 ^ 64"
  shows "uint (w + ulong_of_int i) = uint w + i"
proof -
  have "uint (w + ulong_of_int i) = (uint w + i) mod 2 ^ 64"
    by (simp add: ulong_of_int_def uint_word_ariths uint_word_of_int mod_simps)
  also have "\<dots> = uint w + i"
    using assms by (intro mod_pos_pos_trivial) (simp_all add: add_nonneg_nonneg)
  finally show ?thesis .
qed

lemma int_of_ulong_small: "uint w < 2147483648 \<Longrightarrow> int_of_ulong w = uint w"
proof -
  assume w: "uint w < 2147483648"
  have "uint (ucast w :: u32) = uint w"
    using w by (simp add: unsigned_ucast_eq take_bit_int_eq_self)
  with w show ?thesis
    by (simp add: int_of_ulong_def sint_u32_small)
qed

lemma uint_u32_of_int: "0 \<le> i \<Longrightarrow> i < 2 ^ 32 \<Longrightarrow> uint (u32_of_int i) = i"
  by (simp add: u32_of_int_def uint_word_of_int)

text \<open>Division and remainder truncate towards zero.\<close>

lemma sdiv_pos: "0 \<le> a \<Longrightarrow> 0 < b \<Longrightarrow> (a :: int) sdiv b = a div b"
  by (simp add: signed_divide_int_def sgn_if abs_if)

lemma smod_pos: "0 \<le> a \<Longrightarrow> 0 < b \<Longrightarrow> (a :: int) smod b = a mod b"
  by (auto simp: signed_modulo_int_def sgn_if abs_if)

section \<open>Pointers to linked nodes\<close>

text \<open>
  A field such as \<open>fp_next\<close> is NULL, points to a node, or holds whatever \<open>malloc\<close> or the
  stack left there (\<open>Wild\<close>) until it is written; using a wild pointer is undefined.
\<close>

datatype 'a chain = NULL | Wild | Node 'a "'a chain"

primrec chain_list :: "'a chain \<Rightarrow> 'a list" where
  "chain_list NULL = []"
| "chain_list Wild = []"
| "chain_list (Node x c) = x # chain_list c"

primrec grounded :: "'a chain \<Rightarrow> bool" where
  "grounded NULL = True"
| "grounded Wild = False"
| "grounded (Node x c) = grounded c"

primrec chain_of :: "'a list \<Rightarrow> 'a chain" where
  "chain_of [] = NULL"
| "chain_of (x # xs) = Node x (chain_of xs)"

lemma chain_list_of [chain_simps, simp]: "chain_list (chain_of xs) = xs"
  by (induction xs) auto

lemma grounded_chain_of [chain_simps, simp]: "grounded (chain_of xs)"
  by (induction xs) auto

lemma chain_of_list [chain_simps]: "grounded c \<Longrightarrow> chain_of (chain_list c) = c"
  by (induction c) auto

text \<open>A pointer into a chain is the position of the node it points to.\<close>

primrec chain_nth :: "'a chain \<Rightarrow> nat \<Rightarrow> 'a result" where
  "chain_nth NULL n = Inl Null_Deref"
| "chain_nth Wild n = Inl Uninit_Read"
| "chain_nth (Node x c) n = (case n of 0 \<Rightarrow> Inr x | Suc m \<Rightarrow> chain_nth c m)"

primrec chain_update :: "'a chain \<Rightarrow> nat \<Rightarrow> ('a \<Rightarrow> 'a) \<Rightarrow> 'a chain" where
  "chain_update NULL n f = NULL"
| "chain_update Wild n f = Wild"
| "chain_update (Node x c) n f =
     (case n of 0 \<Rightarrow> Node (f x) c | Suc m \<Rightarrow> Node x (chain_update c m f))"

lemma chain_list_update [chain_simps]:
  "chain_list (chain_update c n f) =
     (if n < length (chain_list c) then (chain_list c)[n := f (chain_list c ! n)] else chain_list c)"
  by (induction c arbitrary: n) (auto split: nat.splits)

lemma grounded_update [chain_simps]: "grounded (chain_update c n f) = grounded c"
  by (induction c arbitrary: n) (auto split: nat.splits)

section \<open>Arrays\<close>

definition arr_get :: "'a list \<Rightarrow> int \<Rightarrow> 'a result" where
  "arr_get xs i = (if 0 \<le> i \<and> i < int (length xs) then Inr (xs ! nat i) else Inl Out_Of_Bounds)"

definition arr_set :: "'a list \<Rightarrow> int \<Rightarrow> 'a \<Rightarrow> 'a list result" where
  "arr_set xs i v = (if 0 \<le> i \<and> i < int (length xs) then Inr (xs[nat i := v]) else Inl Out_Of_Bounds)"

lemma arr_get_Inr_iff [result_simps]:
  "arr_get xs i = Inr x \<longleftrightarrow> 0 \<le> i \<and> i < int (length xs) \<and> x = xs ! nat i"
  by (auto simp: arr_get_def)

lemma arr_set_Inr_iff [result_simps]:
  "arr_set xs i v = Inr ys \<longleftrightarrow> 0 \<le> i \<and> i < int (length xs) \<and> ys = xs[nat i := v]"
  by (auto simp: arr_set_def)

lemma in_set_update:
  assumes "x \<in> set (xs[i := z])"
  obtains "x = z" | j where "j < length xs" "j \<noteq> i" "x = xs ! j"
proof -
  from assms obtain j where "j < length xs" "xs[i := z] ! j = x"
    by (auto simp: in_set_conv_nth)
  then show ?thesis using that by (cases "j = i") auto
qed

end
