(* ===== verification/Bitops.thy ===== *)
theory Bitops
  imports Prelude
begin

text \<open>
  The bit macros of \<open>include/bitops.h\<close>, the paging constants and field macros of
  \<open>include/mm.h\<close>, and the page table entry operations of \<open>src/mm.c\<close> (\<open>init_pte\<close>,
  \<open>pte_set_swap\<close>, \<open>pte_set_fpn\<close>). A page table entry is a \<open>uint32_t\<close>; the lemmas
  describe every macro by the bits of its result, and from that the fields of an entry.
\<close>

section \<open>bitops.h\<close>

definition BITS_PER_LONG :: nat where "BITS_PER_LONG = 32"

definition BIT :: "nat \<Rightarrow> u32" where "BIT nr = push_bit nr 1"

definition DIV_ROUND_UP :: "int \<Rightarrow> int \<Rightarrow> int result" where
  "DIV_ROUND_UP n d =
     and_then (c_int (n + d)) (\<lambda>s.
     and_then (c_int (s - 1)) (\<lambda>t.
       if d = 0 then Inl Div_By_Zero else c_int (t sdiv d)))"

definition GENMASK :: "nat \<Rightarrow> nat \<Rightarrow> u32" where
  "GENMASK h l = push_bit l (NOT 0) AND drop_bit (BITS_PER_LONG - h - 1) (NOT 0)"

definition NBITS2 :: "u32 \<Rightarrow> nat" where
  "NBITS2 n = (if n AND 2 \<noteq> 0 then 1 else 0)"

definition NBITS4 :: "u32 \<Rightarrow> nat" where
  "NBITS4 n = (if n AND 0xC \<noteq> 0 then 2 + NBITS2 (drop_bit 2 n) else NBITS2 n)"

definition NBITS8 :: "u32 \<Rightarrow> nat" where
  "NBITS8 n = (if n AND 0xF0 \<noteq> 0 then 4 + NBITS4 (drop_bit 4 n) else NBITS4 n)"

definition NBITS16 :: "u32 \<Rightarrow> nat" where
  "NBITS16 n = (if n AND 0xFF00 \<noteq> 0 then 8 + NBITS8 (drop_bit 8 n) else NBITS8 n)"

definition NBITS32 :: "u32 \<Rightarrow> nat" where
  "NBITS32 n = (if n AND 0xFFFF0000 \<noteq> 0 then 16 + NBITS16 (drop_bit 16 n) else NBITS16 n)"

definition NBITS :: "u32 \<Rightarrow> nat" where
  "NBITS n = (if n = 0 then 0 else NBITS32 n)"

section \<open>mm.h\<close>

definition PAGING_CPU_BUS_WIDTH :: nat where "PAGING_CPU_BUS_WIDTH = 22"
definition PAGING_PAGESZ :: int where "PAGING_PAGESZ = 256"
definition PAGING_MEMRAMSZ :: u32 where "PAGING_MEMRAMSZ = BIT 21"
definition PAGING_SWPFPN_OFFSET :: nat where "PAGING_SWPFPN_OFFSET = 5"

definition PAGING_PAGE_ALIGNSZ :: "int \<Rightarrow> int result" where
  "PAGING_PAGE_ALIGNSZ sz =
     and_then (DIV_ROUND_UP sz PAGING_PAGESZ) (\<lambda>q. c_int (q * PAGING_PAGESZ))"

text \<open>\<open>DIV_ROUND_UP(BIT(22), 256)\<close>, computed in \<open>unsigned int\<close>.\<close>

definition PAGING_MAX_PGN :: u32 where
  "PAGING_MAX_PGN = (BIT PAGING_CPU_BUS_WIDTH + word_of_int PAGING_PAGESZ - 1) div word_of_int PAGING_PAGESZ"

definition PAGING_PTE_PRESENT_MASK :: u32 where "PAGING_PTE_PRESENT_MASK = BIT 31"
definition PAGING_PTE_SWAPPED_MASK :: u32 where "PAGING_PTE_SWAPPED_MASK = BIT 30"
definition PAGING_PTE_DIRTY_MASK :: u32 where "PAGING_PTE_DIRTY_MASK = BIT 28"

definition PAGING_PTE_FPN_LOBIT :: nat where "PAGING_PTE_FPN_LOBIT = 0"
definition PAGING_PTE_FPN_HIBIT :: nat where "PAGING_PTE_FPN_HIBIT = 12"
definition PAGING_PTE_SWPTYP_LOBIT :: nat where "PAGING_PTE_SWPTYP_LOBIT = 0"
definition PAGING_PTE_SWPTYP_HIBIT :: nat where "PAGING_PTE_SWPTYP_HIBIT = 4"
definition PAGING_PTE_SWPOFF_LOBIT :: nat where "PAGING_PTE_SWPOFF_LOBIT = 5"
definition PAGING_PTE_SWPOFF_HIBIT :: nat where "PAGING_PTE_SWPOFF_HIBIT = 25"

definition PAGING_PTE_FPN_MASK :: u32 where
  "PAGING_PTE_FPN_MASK = GENMASK PAGING_PTE_FPN_HIBIT PAGING_PTE_FPN_LOBIT"
definition PAGING_PTE_SWPTYP_MASK :: u32 where
  "PAGING_PTE_SWPTYP_MASK = GENMASK PAGING_PTE_SWPTYP_HIBIT PAGING_PTE_SWPTYP_LOBIT"
definition PAGING_PTE_SWPOFF_MASK :: u32 where
  "PAGING_PTE_SWPOFF_MASK = GENMASK PAGING_PTE_SWPOFF_HIBIT PAGING_PTE_SWPOFF_LOBIT"

definition PAGING_ADDR_OFFST_LOBIT :: nat where "PAGING_ADDR_OFFST_LOBIT = 0"
definition PAGING_ADDR_OFFST_HIBIT :: nat where
  "PAGING_ADDR_OFFST_HIBIT = NBITS (word_of_int PAGING_PAGESZ) - 1"
definition PAGING_ADDR_PGN_LOBIT :: nat where
  "PAGING_ADDR_PGN_LOBIT = NBITS (word_of_int PAGING_PAGESZ)"
definition PAGING_ADDR_PGN_HIBIT :: nat where
  "PAGING_ADDR_PGN_HIBIT = PAGING_CPU_BUS_WIDTH - 1"
definition PAGING_ADDR_FPN_LOBIT :: nat where
  "PAGING_ADDR_FPN_LOBIT = NBITS (word_of_int PAGING_PAGESZ)"

definition PAGING_OFFST_MASK :: u32 where
  "PAGING_OFFST_MASK = GENMASK PAGING_ADDR_OFFST_HIBIT PAGING_ADDR_OFFST_LOBIT"
definition PAGING_PGN_MASK :: u32 where
  "PAGING_PGN_MASK = GENMASK PAGING_ADDR_PGN_HIBIT PAGING_ADDR_PGN_LOBIT"

definition SETBIT :: "u32 \<Rightarrow> u32 \<Rightarrow> u32" where "SETBIT v msk = v OR msk"
definition CLRBIT :: "u32 \<Rightarrow> u32 \<Rightarrow> u32" where "CLRBIT v msk = v AND NOT msk"

definition SETVAL :: "u32 \<Rightarrow> u32 \<Rightarrow> u32 \<Rightarrow> nat \<Rightarrow> u32" where
  "SETVAL v value msk offst = (v AND NOT msk) OR (push_bit offst value AND msk)"
definition GETVAL :: "u32 \<Rightarrow> u32 \<Rightarrow> nat \<Rightarrow> u32" where
  "GETVAL v msk offst = drop_bit offst (v AND msk)"

definition PAGING_PAGE_PRESENT :: "u32 \<Rightarrow> bool" where
  "PAGING_PAGE_PRESENT pte \<longleftrightarrow> pte AND PAGING_PTE_PRESENT_MASK \<noteq> 0"
definition PAGING_PTE_FPN :: "u32 \<Rightarrow> u32" where
  "PAGING_PTE_FPN pte = GETVAL pte PAGING_PTE_FPN_MASK PAGING_PTE_FPN_LOBIT"
definition PAGING_PTE_SWP :: "u32 \<Rightarrow> u32" where
  "PAGING_PTE_SWP pte = GETVAL pte PAGING_PTE_SWPOFF_MASK PAGING_SWPFPN_OFFSET"
definition PAGING_OFFST :: "u32 \<Rightarrow> u32" where
  "PAGING_OFFST x = GETVAL x PAGING_OFFST_MASK PAGING_ADDR_OFFST_LOBIT"
definition PAGING_PGN :: "u32 \<Rightarrow> u32" where
  "PAGING_PGN x = GETVAL x PAGING_PGN_MASK PAGING_ADDR_PGN_LOBIT"
definition PAGING_FPN :: "u32 \<Rightarrow> u32" where
  "PAGING_FPN x = GETVAL x PAGING_PTE_FPN_MASK PAGING_PTE_FPN_LOBIT"

section \<open>Page table entry operations of mm.c\<close>

text \<open>The functions return their code and the new value of \<open>*pte\<close>.\<close>

definition init_pte :: "u32 \<Rightarrow> int \<Rightarrow> int \<Rightarrow> int \<Rightarrow> int \<Rightarrow> int \<Rightarrow> int \<Rightarrow> int \<times> u32" where
  "init_pte pte pre fpn drt swp swptyp swpoff =
     (if pre \<noteq> 0 then
        if swp = 0 then
          if fpn = 0 then (-1, pte)
          else
            let pte = SETBIT pte PAGING_PTE_PRESENT_MASK;
                pte = CLRBIT pte PAGING_PTE_SWAPPED_MASK;
                pte = CLRBIT pte PAGING_PTE_DIRTY_MASK;
                pte = SETVAL pte (u32_of_int fpn) PAGING_PTE_FPN_MASK PAGING_PTE_FPN_LOBIT
            in (0, pte)
        else
          let pte = SETBIT pte PAGING_PTE_PRESENT_MASK;
              pte = SETBIT pte PAGING_PTE_SWAPPED_MASK;
              pte = CLRBIT pte PAGING_PTE_DIRTY_MASK;
              pte = SETVAL pte (u32_of_int swptyp) PAGING_PTE_SWPTYP_MASK PAGING_PTE_SWPTYP_LOBIT;
              pte = SETVAL pte (u32_of_int swpoff) PAGING_PTE_SWPOFF_MASK PAGING_PTE_SWPOFF_LOBIT
          in (0, pte)
      else (0, pte))"

definition pte_set_swap :: "u32 \<Rightarrow> int \<Rightarrow> int \<Rightarrow> int \<times> u32" where
  "pte_set_swap pte swptyp swpoff =
     (let pte = SETBIT pte PAGING_PTE_PRESENT_MASK;
          pte = SETBIT pte PAGING_PTE_SWAPPED_MASK;
          pte = SETVAL pte (u32_of_int swptyp) PAGING_PTE_SWPTYP_MASK PAGING_PTE_SWPTYP_LOBIT;
          pte = SETVAL pte (u32_of_int swpoff) PAGING_PTE_SWPOFF_MASK PAGING_PTE_SWPOFF_LOBIT
      in (0, pte))"

definition pte_set_fpn :: "u32 \<Rightarrow> int \<Rightarrow> int \<times> u32" where
  "pte_set_fpn pte fpn =
     (let pte = SETBIT pte PAGING_PTE_PRESENT_MASK;
          pte = CLRBIT pte PAGING_PTE_SWAPPED_MASK;
          pte = SETVAL pte (u32_of_int fpn) PAGING_PTE_FPN_MASK PAGING_PTE_FPN_LOBIT
      in (0, pte))"

section \<open>Values of the constants\<close>

lemma NBITS_pagesz [macro_simps]: "NBITS 256 = 8"
  by (simp add: NBITS_def NBITS32_def NBITS16_def NBITS8_def NBITS4_def NBITS2_def)

lemma PAGING_MAX_PGN_eq [macro_simps]: "PAGING_MAX_PGN = 16384"
  by (simp add: PAGING_MAX_PGN_def BIT_def PAGING_CPU_BUS_WIDTH_def PAGING_PAGESZ_def)

lemma PAGING_PAGESZ_eq [macro_simps]: "PAGING_PAGESZ = 256"
  by (simp add: PAGING_PAGESZ_def)

lemma addr_bits [macro_simps]:
  "PAGING_ADDR_OFFST_LOBIT = 0" "PAGING_ADDR_OFFST_HIBIT = 7"
  "PAGING_ADDR_PGN_LOBIT = 8" "PAGING_ADDR_PGN_HIBIT = 21" "PAGING_ADDR_FPN_LOBIT = 8"
  by (simp_all add: PAGING_ADDR_OFFST_LOBIT_def PAGING_ADDR_OFFST_HIBIT_def
      PAGING_ADDR_PGN_LOBIT_def PAGING_ADDR_PGN_HIBIT_def PAGING_ADDR_FPN_LOBIT_def
      PAGING_PAGESZ_def PAGING_CPU_BUS_WIDTH_def NBITS_pagesz)

lemma bit_GENMASK: "h < 32 \<Longrightarrow> bit (GENMASK h l) n \<longleftrightarrow> l \<le> n \<and> n \<le> h"
  by (auto simp: GENMASK_def BITS_PER_LONG_def bit_simps)

lemma bit_BIT: "k < 32 \<Longrightarrow> bit (BIT k) n \<longleftrightarrow> n = k"
  by (auto simp: BIT_def bit_simps)

lemma bit_masks [macro_simps]:
  "bit PAGING_PTE_PRESENT_MASK n \<longleftrightarrow> n = 31"
  "bit PAGING_PTE_SWAPPED_MASK n \<longleftrightarrow> n = 30"
  "bit PAGING_PTE_DIRTY_MASK n \<longleftrightarrow> n = 28"
  "bit PAGING_PTE_FPN_MASK n \<longleftrightarrow> n \<le> 12"
  "bit PAGING_PTE_SWPTYP_MASK n \<longleftrightarrow> n \<le> 4"
  "bit PAGING_PTE_SWPOFF_MASK n \<longleftrightarrow> 5 \<le> n \<and> n \<le> 25"
  "bit PAGING_OFFST_MASK n \<longleftrightarrow> n \<le> 7"
  "bit PAGING_PGN_MASK n \<longleftrightarrow> 8 \<le> n \<and> n \<le> 21"
  by (simp_all add: PAGING_PTE_PRESENT_MASK_def PAGING_PTE_SWAPPED_MASK_def
      PAGING_PTE_DIRTY_MASK_def PAGING_PTE_FPN_MASK_def PAGING_PTE_SWPTYP_MASK_def
      PAGING_PTE_SWPOFF_MASK_def PAGING_OFFST_MASK_def PAGING_PGN_MASK_def
      PAGING_PTE_FPN_HIBIT_def PAGING_PTE_FPN_LOBIT_def PAGING_PTE_SWPTYP_HIBIT_def
      PAGING_PTE_SWPTYP_LOBIT_def PAGING_PTE_SWPOFF_HIBIT_def PAGING_PTE_SWPOFF_LOBIT_def
      addr_bits bit_GENMASK bit_BIT)

lemma bit_SETVAL: "bit (SETVAL v x m k) n \<longleftrightarrow>
    (if bit m n then k \<le> n \<and> bit x (n - k) else bit v n)"
  by (auto simp: SETVAL_def bit_simps dest: bit_imp_le_length)

lemma bit_GETVAL: "bit (GETVAL v m k) n \<longleftrightarrow> bit v (n + k) \<and> bit m (n + k)"
  by (auto simp: GETVAL_def bit_simps ac_simps)

lemma bit_SETBIT: "bit (SETBIT v m) n \<longleftrightarrow> bit v n \<or> bit m n"
  by (simp add: SETBIT_def bit_simps)

lemma bit_CLRBIT: "bit (CLRBIT v m) n \<longleftrightarrow> bit v n \<and> \<not> bit m n"
  by (auto simp: CLRBIT_def bit_simps dest: bit_imp_le_length)

lemmas field_bits = bit_SETVAL bit_GETVAL bit_SETBIT bit_CLRBIT bit_masks
  PAGING_PTE_FPN_LOBIT_def PAGING_PTE_SWPTYP_LOBIT_def PAGING_PTE_SWPOFF_LOBIT_def
  PAGING_SWPFPN_OFFSET_def addr_bits

lemma page_present_iff: "PAGING_PAGE_PRESENT pte \<longleftrightarrow> bit pte 31"
  by (auto simp: PAGING_PAGE_PRESENT_def bit_eq_iff [where 'a = u32] bit_simps bit_masks)

section \<open>Fields of addresses and entries\<close>

lemma PAGING_OFFST_eq: "PAGING_OFFST x = take_bit 8 x"
  by (rule bit_word_eqI) (auto simp: PAGING_OFFST_def field_bits bit_simps)

lemma PAGING_PGN_eq: "PAGING_PGN x = take_bit 14 (drop_bit 8 x)"
  by (rule bit_word_eqI) (auto simp: PAGING_PGN_def field_bits bit_simps ac_simps)

lemma PAGING_FPN_eq: "PAGING_FPN x = take_bit 13 x"
  by (rule bit_word_eqI) (auto simp: PAGING_FPN_def field_bits bit_simps)

lemma PAGING_PTE_FPN_eq: "PAGING_PTE_FPN x = take_bit 13 x"
  by (rule bit_word_eqI) (auto simp: PAGING_PTE_FPN_def field_bits bit_simps)

lemma PAGING_PTE_SWP_eq: "PAGING_PTE_SWP x = take_bit 21 (drop_bit 5 x)"
  by (rule bit_word_eqI) (auto simp: PAGING_PTE_SWP_def field_bits bit_simps ac_simps)

lemma uint_PAGING_OFFST: "uint (PAGING_OFFST x) = uint x mod 256"
  by (simp only: PAGING_OFFST_eq unsigned_take_bit_eq) (simp add: take_bit_eq_mod)

lemma uint_PAGING_PGN: "uint (PAGING_PGN x) = (uint x div 256) mod 16384"
  using uint_bounded [of x]
  by (simp only: PAGING_PGN_eq unsigned_take_bit_eq unsigned_drop_bit_eq)
    (simp add: take_bit_eq_mod drop_bit_eq_div)

lemma uint_PAGING_FPN: "uint (PAGING_FPN x) = uint x mod 8192"
  by (simp only: PAGING_FPN_eq unsigned_take_bit_eq) (simp add: take_bit_eq_mod)

lemma small_int_bit: "0 \<le> i \<Longrightarrow> i < 2 ^ k \<Longrightarrow> bit (i :: int) n \<Longrightarrow> n < k"
  by (metis bit_take_bit_iff take_bit_int_eq_self)

lemma pte_set_fpn_fields:
  "PAGING_PAGE_PRESENT (snd (pte_set_fpn pte fpn))"
  "\<not> bit (snd (pte_set_fpn pte fpn)) 30"
  "0 \<le> fpn \<Longrightarrow> fpn < 8192 \<Longrightarrow> PAGING_FPN (snd (pte_set_fpn pte fpn)) = u32_of_int fpn"
proof -
  show "PAGING_PAGE_PRESENT (snd (pte_set_fpn pte fpn))"
    by (simp add: pte_set_fpn_def Let_def page_present_iff field_bits)
  show "\<not> bit (snd (pte_set_fpn pte fpn)) 30"
    by (simp add: pte_set_fpn_def Let_def field_bits)
  assume "0 \<le> fpn" "fpn < 8192"
  then have small: "bit fpn n \<Longrightarrow> n < 13" for n
    using small_int_bit [of fpn 13] by simp
  then show "PAGING_FPN (snd (pte_set_fpn pte fpn)) = u32_of_int fpn"
    by (intro bit_word_eqI)
      (auto simp: PAGING_FPN_eq pte_set_fpn_def Let_def field_bits bit_simps u32_of_int_def dest: small)
qed

lemma pte_set_swap_fields:
  "PAGING_PAGE_PRESENT (snd (pte_set_swap pte swptyp swpoff))"
  "bit (snd (pte_set_swap pte swptyp swpoff)) 30"
  "0 \<le> swpoff \<Longrightarrow> swpoff < 2 ^ 21 \<Longrightarrow>
     PAGING_PTE_SWP (snd (pte_set_swap pte swptyp swpoff)) = u32_of_int swpoff"
proof -
  show "PAGING_PAGE_PRESENT (snd (pte_set_swap pte swptyp swpoff))"
    by (simp add: pte_set_swap_def Let_def page_present_iff field_bits)
  show "bit (snd (pte_set_swap pte swptyp swpoff)) 30"
    by (simp add: pte_set_swap_def Let_def field_bits)
  assume "0 \<le> swpoff" "swpoff < 2 ^ 21"
  then have small: "bit swpoff n \<Longrightarrow> n < 21" for n
    using small_int_bit [of swpoff 21] by simp
  then show "PAGING_PTE_SWP (snd (pte_set_swap pte swptyp swpoff)) = u32_of_int swpoff"
    by (intro bit_word_eqI)
      (auto simp: PAGING_PTE_SWP_eq pte_set_swap_def Let_def field_bits bit_simps u32_of_int_def dest: small)
qed

lemma pte_set_codes [simp]:
  "fst (pte_set_fpn pte fpn) = 0" "fst (pte_set_swap pte swptyp swpoff) = 0"
  by (simp_all add: pte_set_fpn_def pte_set_swap_def Let_def)

text \<open>The frame number read back from an entry that was swapped out: the low bits of the
  swap fields.\<close>

lemma pte_set_swap_FPN:
  assumes "0 \<le> swptyp" "swptyp < 32" "0 \<le> swpoff"
  shows "PAGING_FPN (snd (pte_set_swap pte swptyp swpoff)) =
           take_bit 13 (push_bit 5 (u32_of_int swpoff) OR u32_of_int swptyp)"
proof -
  from assms have small: "bit swptyp n \<Longrightarrow> n < 5" for n
    using small_int_bit [of swptyp 5] by simp
  then show ?thesis
    by (intro bit_word_eqI)
      (auto simp: PAGING_FPN_eq pte_set_swap_def Let_def field_bits bit_simps u32_of_int_def dest: small)
qed

section \<open>The bit length macro\<close>

lemma unat_drop_bit_u32: "unat (drop_bit k (n :: u32)) = unat n div 2 ^ k"
proof -
  have "take_bit 32 (unat n) = unat n"
    using unsigned_less [of n, where ?'a = nat] by (simp add: take_bit_nat_eq_self)
  then show ?thesis
    by (simp only: unsigned_drop_bit_eq) (simp add: drop_bit_eq_div)
qed

lemma and_high_nonzero:
  fixes n :: u32
  assumes "m = push_bit k (mask j)" and "unat n < 2 ^ (k + j)" and "k + j \<le> 32"
  shows "n AND m \<noteq> 0 \<longleftrightarrow> 2 ^ k \<le> unat n"
proof -
  have small: "bit n i \<Longrightarrow> i < k + j" for i
  proof -
    assume "bit n i"
    then have "bit (unat n) i" by (simp add: bit_unsigned_iff)
    moreover have "take_bit (k + j) (unat n) = unat n"
      using assms(2) by (simp add: take_bit_nat_eq_self)
    ultimately show "i < k + j" by (metis bit_take_bit_iff)
  qed
  have "drop_bit k n = drop_bit k (n AND m)"
    unfolding assms(1) using assms(3)
    by (intro bit_word_eqI) (auto simp: bit_simps dest: small)
  moreover have "drop_bit k (n AND m) = 0 \<longleftrightarrow> n AND m = 0"
    unfolding assms(1) by (auto simp: bit_eq_iff [where 'a = u32] bit_simps)
  ultimately have "n AND m = 0 \<longleftrightarrow> drop_bit k n = 0" by simp
  also have "\<dots> \<longleftrightarrow> unat (drop_bit k n) = 0"
    by (simp only: unat_eq_zero)
  also have "\<dots> \<longleftrightarrow> unat n < 2 ^ k"
    by (simp only: unat_drop_bit_u32) (simp add: div_eq_0_iff)
  finally show ?thesis by auto
qed

text \<open>
  One level of the macro: a function that gives the bit length below \<open>2 ^ k\<close>, applied to
  the upper or the lower half, gives it below \<open>2 ^ (2 * k)\<close>.
\<close>

definition bit_length_upto :: "nat \<Rightarrow> (u32 \<Rightarrow> nat) \<Rightarrow> bool" where
  "bit_length_upto k f \<longleftrightarrow>
     (\<forall>n. n \<noteq> 0 \<longrightarrow> unat n < 2 ^ k \<longrightarrow> 2 ^ f n \<le> unat n \<and> unat n < 2 ^ Suc (f n))"

lemma bit_length_step:
  assumes f: "bit_length_upto k f" and m: "m = push_bit k (mask k)" and k: "k + k \<le> 32"
    and g: "\<And>n. g n = (if n AND m \<noteq> 0 then k + f (drop_bit k n) else f n)"
  shows "bit_length_upto (k + k) g"
  unfolding bit_length_upto_def
proof (intro allI impI)
  fix n :: u32 assume n: "n \<noteq> 0" and small: "unat n < 2 ^ (k + k)"
  note high = and_high_nonzero [OF m small k]
  show "2 ^ g n \<le> unat n \<and> unat n < 2 ^ Suc (g n)"
  proof (cases "n AND m = 0")
    case True
    with high have "unat n < 2 ^ k" by simp
    with f n True show ?thesis by (simp add: g bit_length_upto_def)
  next
    case False
    with high have ge: "2 ^ k \<le> unat n" by simp
    note d = unat_drop_bit_u32 [of k n]
    have "unat n div 2 ^ k < 2 ^ k"
      using small by (simp add: power_add less_mult_imp_div_less)
    moreover have "unat n div 2 ^ k \<noteq> 0"
      using ge by (simp add: div_eq_0_iff)
    ultimately have "2 ^ f (drop_bit k n) \<le> unat n div 2 ^ k"
      and "unat n div 2 ^ k < 2 ^ Suc (f (drop_bit k n))"
      using f d unfolding bit_length_upto_def by (metis unat_0)+
    then have "2 ^ f (drop_bit k n) * 2 ^ k \<le> unat n"
      and "unat n < 2 ^ Suc (f (drop_bit k n)) * 2 ^ k"
      by (simp_all add: less_eq_div_iff_mult_less_eq div_less_iff_less_mult)
    then show ?thesis using False by (simp add: g power_add ac_simps)
  qed
qed

lemma bit_length_NBITS2: "bit_length_upto 2 NBITS2"
  unfolding bit_length_upto_def
proof (intro allI impI)
  fix n :: u32 assume "n \<noteq> 0" and small: "unat n < 2 ^ 2"
  then have "0 < unat n" by (simp add: unat_gt_0)
  moreover have "n AND 2 \<noteq> 0 \<longleftrightarrow> 2 \<le> unat n"
    using and_high_nonzero [of 2 1 1 n] small by (simp add: mask_eq_exp_minus_1)
  ultimately show "2 ^ NBITS2 n \<le> unat n \<and> unat n < 2 ^ Suc (NBITS2 n)"
    using small by (simp add: NBITS2_def)
qed

lemma bit_length_NBITS32: "bit_length_upto 32 NBITS32"
proof -
  have "bit_length_upto (2 + 2) NBITS4"
    by (rule bit_length_step [OF bit_length_NBITS2, where m = "0xC"])
      (simp_all add: NBITS4_def mask_eq_exp_minus_1)
  then have "bit_length_upto (4 + 4) NBITS8"
    by (intro bit_length_step [of 4 NBITS4 "0xF0"])
      (simp_all add: NBITS8_def mask_eq_exp_minus_1)
  then have "bit_length_upto (8 + 8) NBITS16"
    by (intro bit_length_step [of 8 NBITS8 "0xFF00"])
      (simp_all add: NBITS16_def mask_eq_exp_minus_1)
  then have "bit_length_upto (16 + 16) NBITS32"
    by (intro bit_length_step [of 16 NBITS16 "0xFFFF0000"])
      (simp_all add: NBITS32_def mask_eq_exp_minus_1)
  then show ?thesis by simp
qed

section \<open>Properties\<close>

text \<open>An entry set for frame \<open>fpn\<close> is present, not swapped, and gives the frame number
  back, whatever it held before, for every frame number of 13 bits.\<close>

theorem pte_set_fpn_roundtrip:
  assumes "0 \<le> fpn" "fpn < 8192"
  shows "PAGING_PAGE_PRESENT (snd (pte_set_fpn pte fpn)) \<and> \<not> bit (snd (pte_set_fpn pte fpn)) 30 \<and>
     uint (PAGING_FPN (snd (pte_set_fpn pte fpn))) = fpn"
  using assms pte_set_fpn_fields [where pte = pte and fpn = fpn] by (simp add: uint_u32_of_int)

theorem pte_set_fpn_roundtrip_witness:
  "uint (PAGING_FPN (snd (pte_set_fpn 0xFFFFFFFF 4711))) = 4711"
  using pte_set_fpn_roundtrip [of 4711 "0xFFFFFFFF"] by simp

text \<open>An entry set for swap gives the swap offset back for every offset of 21 bits, but it
  keeps the present bit, so the page still counts as resident, in the frame given by the
  low bits of the swap fields.\<close>

theorem pte_set_swap_stays_present:
  assumes "0 \<le> swpoff" "swpoff < 2097152"
  shows "uint (PAGING_PTE_SWP (snd (pte_set_swap pte 0 swpoff))) = swpoff \<and>
     PAGING_PAGE_PRESENT (snd (pte_set_swap pte 0 swpoff)) \<and>
     uint (PAGING_FPN (snd (pte_set_swap pte 0 swpoff))) = 32 * swpoff mod 8192"
proof -
  have "uint (push_bit 5 (u32_of_int swpoff)) = 32 * swpoff"
    using assms by (simp add: push_bit_eq_mult u32_of_int_def uint_word_ariths uint_word_of_int)
  moreover have "PAGING_FPN (snd (pte_set_swap pte 0 swpoff)) = take_bit 13 (push_bit 5 (u32_of_int swpoff))"
    using pte_set_swap_FPN [of 0 swpoff pte] assms by (simp add: u32_of_int_def)
  ultimately have "uint (PAGING_FPN (snd (pte_set_swap pte 0 swpoff))) = 32 * swpoff mod 8192"
    by (simp only: unsigned_take_bit_eq) (simp add: take_bit_eq_mod)
  then show ?thesis
    using assms pte_set_swap_fields [where pte = pte and swptyp = 0 and swpoff = swpoff] by (simp add: uint_u32_of_int)
qed

theorem pte_set_swap_stays_present_witness:
  "uint (PAGING_PTE_SWP (snd (pte_set_swap 0 0 7))) = 7 \<and> PAGING_PAGE_PRESENT (snd (pte_set_swap 0 0 7)) \<and>
   uint (PAGING_FPN (snd (pte_set_swap 0 0 7))) = 224"
  using pte_set_swap_stays_present [of 7 0] by simp

text \<open>\<open>PAGING_PGN\<close> and \<open>PAGING_OFFST\<close> split an address of the 22-bit bus into page
  number and offset without loss, and both stay in range for any address.\<close>

theorem address_split_roundtrip:
  "uint (PAGING_PGN x) < uint PAGING_MAX_PGN \<and> uint (PAGING_OFFST x) < PAGING_PAGESZ \<and>
   uint (PAGING_PGN x) * PAGING_PAGESZ + uint (PAGING_OFFST x) = uint x mod 2 ^ PAGING_CPU_BUS_WIDTH"
proof -
  have "uint x mod 4194304 = (uint x div 256 mod 16384) * 256 + uint x mod 256"
    using zmod_zmult2_eq [of 16384 "uint x" 256] by simp
  then show ?thesis
    by (simp add: uint_PAGING_PGN uint_PAGING_OFFST PAGING_MAX_PGN_eq PAGING_PAGESZ_eq PAGING_CPU_BUS_WIDTH_def)
qed

text \<open>\<open>NBITS\<close> is the integer part of the binary logarithm of every nonzero 32-bit value.\<close>

theorem NBITS_is_log2:
  assumes "n \<noteq> 0"
  shows "2 ^ NBITS n \<le> unat n \<and> unat n < 2 ^ Suc (NBITS n)"
  using assms bit_length_NBITS32 unsigned_less [of n, where ?'a = nat]
  by (simp add: NBITS_def bit_length_upto_def)

theorem NBITS_is_log2_witness: "2 ^ NBITS 1000 \<le> (1000 :: nat) \<and> (1000 :: nat) < 2 ^ Suc (NBITS 1000)"
  using NBITS_is_log2 [of 1000] by simp

end
