(* ===== verification/Layout.thy ===== *)
theory Layout
  imports Bitops
begin

text \<open>
  The macros of \<open>include/mm.h\<close> and \<open>include/bitops.h\<close> that the rest of the sources does not use.
  They document the layout of page table entries and addresses, and the lemmas check that
  documentation: the fields of an entry are disjoint and cover it, and they are as wide as the
  largest devices need. \<open>BIT_ULL_MASK\<close> and \<open>BIT_ULL_WORD\<close> name a macro that is nowhere defined.
\<close>

section \<open>bitops.h\<close>

definition BITS_PER_BYTE :: nat where "BITS_PER_BYTE = 8"
definition BIT_ULL :: "nat \<Rightarrow> ulong" where "BIT_ULL nr = push_bit nr 1"
definition BIT_MASK :: "nat \<Rightarrow> ulong" where "BIT_MASK nr = push_bit (nr mod BITS_PER_LONG) 1"
definition BIT_WORD :: "nat \<Rightarrow> nat" where "BIT_WORD nr = nr div BITS_PER_LONG"

text \<open>\<open>sizeof(long)\<close> is 8 and an \<open>unsigned long\<close>, so the division is unsigned.\<close>

definition BITS_TO_LONGS :: "ulong \<Rightarrow> ulong" where
  "BITS_TO_LONGS nr = (nr + of_nat (BITS_PER_BYTE * 8) - 1) div of_nat (BITS_PER_BYTE * 8)"

definition EXTRACT_NBITS :: "u32 \<Rightarrow> nat \<Rightarrow> nat \<Rightarrow> u32" where
  "EXTRACT_NBITS nr h l = drop_bit l (nr AND GENMASK h l)"

section \<open>mm.h\<close>

definition PAGING_MEMSWPSZ :: u32 where "PAGING_MEMSWPSZ = BIT 29"
definition PAGING_SBRK_INIT_SZ :: int where "PAGING_SBRK_INIT_SZ = PAGING_PAGESZ"
definition PAGING_PTE_RESERVE_MASK :: u32 where "PAGING_PTE_RESERVE_MASK = BIT 29"
definition PAGING_PTE_EMPTY01_MASK :: u32 where "PAGING_PTE_EMPTY01_MASK = BIT 14"
definition PAGING_PTE_EMPTY02_MASK :: u32 where "PAGING_PTE_EMPTY02_MASK = BIT 13"

text \<open>The assignment in the macro is the new value of its argument.\<close>

definition PAGING_PTE_SET_PRESENT :: "u32 \<Rightarrow> u32" where
  "PAGING_PTE_SET_PRESENT pte = pte OR PAGING_PTE_PRESENT_MASK"

definition PAGING_PTE_USRNUM_LOBIT :: nat where "PAGING_PTE_USRNUM_LOBIT = 15"
definition PAGING_PTE_USRNUM_HIBIT :: nat where "PAGING_PTE_USRNUM_HIBIT = 27"
definition PAGING_PTE_USRNUM_MASK :: u32 where
  "PAGING_PTE_USRNUM_MASK = GENMASK PAGING_PTE_USRNUM_HIBIT PAGING_PTE_USRNUM_LOBIT"

definition PAGING_PTE_OFFST :: "u32 \<Rightarrow> u32" where
  "PAGING_PTE_OFFST pte = GETVAL pte PAGING_OFFST_MASK PAGING_ADDR_OFFST_LOBIT"
definition PAGING_PTE_PGN :: "u32 \<Rightarrow> u32" where
  "PAGING_PTE_PGN pte = GETVAL pte PAGING_PGN_MASK PAGING_ADDR_PGN_LOBIT"

definition PAGING_ADDR_FPN_HIBIT :: nat where "PAGING_ADDR_FPN_HIBIT = NBITS PAGING_MEMRAMSZ - 1"
definition PAGING_SWP_LOBIT :: nat where "PAGING_SWP_LOBIT = NBITS (word_of_int PAGING_PAGESZ)"
definition PAGING_SWP_HIBIT :: nat where "PAGING_SWP_HIBIT = NBITS PAGING_MEMSWPSZ - 1"
definition PAGING_SWP :: "u32 \<Rightarrow> u32" where
  "PAGING_SWP pte = drop_bit PAGING_SWPFPN_OFFSET (pte AND PAGING_PTE_SWPOFF_MASK)"
definition PAGING_FPN_MASK :: u32 where
  "PAGING_FPN_MASK = GENMASK PAGING_ADDR_FPN_HIBIT PAGING_ADDR_FPN_LOBIT"
definition PAGING_SWP_MASK :: u32 where
  "PAGING_SWP_MASK = GENMASK PAGING_SWP_HIBIT PAGING_SWP_LOBIT"

text \<open>Left to be implemented in the source, as 0 for all arguments.\<close>

definition INCLUDE :: "int \<Rightarrow> int \<Rightarrow> int \<Rightarrow> int \<Rightarrow> int" where "INCLUDE x1 x2 y1 y2 = 0"
definition OVERLAP :: "int \<Rightarrow> int \<Rightarrow> int \<Rightarrow> int \<Rightarrow> int" where "OVERLAP x1 x2 y1 y2 = 0"

section \<open>The layout of an entry\<close>

definition resident_fields :: "u32 list" where
  "resident_fields =
     [PAGING_PTE_PRESENT_MASK, PAGING_PTE_SWAPPED_MASK, PAGING_PTE_RESERVE_MASK, PAGING_PTE_DIRTY_MASK,
      PAGING_PTE_USRNUM_MASK, PAGING_PTE_EMPTY01_MASK, PAGING_PTE_EMPTY02_MASK, PAGING_PTE_FPN_MASK]"

definition swapped_fields :: "u32 list" where
  "swapped_fields =
     [PAGING_PTE_PRESENT_MASK, PAGING_PTE_SWAPPED_MASK, PAGING_PTE_RESERVE_MASK, PAGING_PTE_DIRTY_MASK,
      PAGING_PTE_SWPOFF_MASK, PAGING_PTE_SWPTYP_MASK]"

lemma bit_layout_masks [macro_simps]:
  "bit PAGING_PTE_RESERVE_MASK n \<longleftrightarrow> n = 29"
  "bit PAGING_PTE_EMPTY01_MASK n \<longleftrightarrow> n = 14"
  "bit PAGING_PTE_EMPTY02_MASK n \<longleftrightarrow> n = 13"
  "bit PAGING_PTE_USRNUM_MASK n \<longleftrightarrow> 15 \<le> n \<and> n \<le> 27"
  by (simp_all add: PAGING_PTE_RESERVE_MASK_def PAGING_PTE_EMPTY01_MASK_def PAGING_PTE_EMPTY02_MASK_def
      PAGING_PTE_USRNUM_MASK_def PAGING_PTE_USRNUM_LOBIT_def PAGING_PTE_USRNUM_HIBIT_def bit_BIT bit_GENMASK)

text \<open>Every bit of a resident entry is in exactly one field.\<close>

lemma resident_fields_partition:
  "n < 32 \<Longrightarrow> length (filter (\<lambda>m. bit m n) resident_fields) = 1"
  unfolding resident_fields_def by (auto simp: bit_masks bit_layout_masks)

text \<open>No bit of a swapped entry is in two fields; the bits 26 and 27 are in none.\<close>

lemma swapped_fields_disjoint:
  "n < 32 \<Longrightarrow> length (filter (\<lambda>m. bit m n) swapped_fields) = (if n = 26 \<or> n = 27 then 0 else 1)"
  unfolding swapped_fields_def by (auto simp: bit_masks bit_layout_masks)

section \<open>The widths of the fields\<close>

lemma NBITS_devices [macro_simps]: "NBITS PAGING_MEMRAMSZ = 21" "NBITS PAGING_MEMSWPSZ = 29"
  by (simp_all add: PAGING_MEMRAMSZ_def PAGING_MEMSWPSZ_def BIT_def
      NBITS_def NBITS32_def NBITS16_def NBITS8_def NBITS4_def NBITS2_def)

text \<open>The frame field of a resident entry numbers the frames of a RAM of the largest size, and the
  offset field of a swapped one the frames of a swap device of the largest size.\<close>

lemma frame_field_fits:
  "uint PAGING_MEMRAMSZ div PAGING_PAGESZ = 2 ^ (PAGING_PTE_FPN_HIBIT + 1 - PAGING_PTE_FPN_LOBIT)"
  by (simp add: PAGING_MEMRAMSZ_def BIT_def PAGING_PAGESZ_def PAGING_PTE_FPN_HIBIT_def PAGING_PTE_FPN_LOBIT_def)

lemma swap_field_fits:
  "uint PAGING_MEMSWPSZ div PAGING_PAGESZ = 2 ^ (PAGING_PTE_SWPOFF_HIBIT + 1 - PAGING_PTE_SWPOFF_LOBIT)"
  by (simp add: PAGING_MEMSWPSZ_def BIT_def PAGING_PAGESZ_def PAGING_PTE_SWPOFF_HIBIT_def
      PAGING_PTE_SWPOFF_LOBIT_def)

text \<open>The masks of a physical address select what is left of it above the offset in a page.\<close>

lemma bit_address_masks [macro_simps]:
  "bit PAGING_FPN_MASK n \<longleftrightarrow> 8 \<le> n \<and> n \<le> 20"
  "bit PAGING_SWP_MASK n \<longleftrightarrow> 8 \<le> n \<and> n \<le> 28"
  by (simp_all add: PAGING_FPN_MASK_def PAGING_ADDR_FPN_HIBIT_def PAGING_SWP_MASK_def PAGING_SWP_HIBIT_def
      PAGING_SWP_LOBIT_def PAGING_PAGESZ_def NBITS_pagesz NBITS_devices addr_bits bit_GENMASK)

lemma address_mask_splits:
  "x < PAGING_MEMRAMSZ \<Longrightarrow> (x AND PAGING_FPN_MASK) OR PAGING_OFFST x = x"
proof (rule bit_word_eqI)
  fix n assume x: "x < PAGING_MEMRAMSZ"
  have "take_bit 21 x = x"
    using x by (intro word_uint_eqI)
      (simp add: unsigned_take_bit_eq take_bit_int_eq_self PAGING_MEMRAMSZ_def BIT_def word_less_def)
  then have "bit x n \<Longrightarrow> n < 21" by (metis bit_take_bit_iff)
  then show "bit ((x AND PAGING_FPN_MASK) OR PAGING_OFFST x) n \<longleftrightarrow> bit x n"
    by (auto simp: PAGING_OFFST_eq bit_simps bit_address_masks)
qed

section \<open>Macros that agree with each other\<close>

lemma PAGING_SWP_eq: "PAGING_SWP pte = PAGING_PTE_SWP pte"
  by (simp add: PAGING_SWP_def PAGING_PTE_SWP_def GETVAL_def)

lemma PAGING_PTE_SET_PRESENT_eq: "PAGING_PTE_SET_PRESENT pte = SETBIT pte PAGING_PTE_PRESENT_MASK"
  by (simp add: PAGING_PTE_SET_PRESENT_def SETBIT_def)

lemma EXTRACT_NBITS_eq: "h < 32 \<Longrightarrow> EXTRACT_NBITS x h l = drop_bit l (take_bit (Suc h) x)"
  by (rule bit_word_eqI) (auto simp: EXTRACT_NBITS_def bit_simps bit_GENMASK)

section \<open>Bitmaps\<close>

text \<open>
  With \<open>BITS_PER_LONG\<close> 32 and a \<open>long\<close> of 64 bits the macros for bitmaps do not fit together: an array
  of \<open>BITS_TO_LONGS(nr)\<close> longs is half as long as the last bit needs, and the upper half of every
  long is never addressed.
\<close>

lemma bit_BIT_MASK: "bit (BIT_MASK nr) n \<longleftrightarrow> n = nr mod 32"
  using mod_less_divisor [of 32 nr] by (auto simp: BIT_MASK_def BITS_PER_LONG_def bit_simps)

lemma bitmap_too_short: "BIT_WORD 63 = 1 \<and> BITS_TO_LONGS 64 = 1"
  by (simp add: BIT_WORD_def BITS_TO_LONGS_def BITS_PER_LONG_def BITS_PER_BYTE_def)

end
