(* ===== verification/Memphy.thy ===== *)
theory Memphy
  imports Bitops
begin

text \<open>
  The physical memory device of \<open>src/mm-memphy.c\<close>: byte storage, the cursor of a
  sequential device, and the list of free frames. A device pointer that the code tests
  against NULL is an \<open>option\<close>; the storage is a function on cell indices with the bound
  \<open>maxsz\<close> checked at every access. Two interfaces are stated as locales and interpreted
  here: \<open>byte_store\<close> (reads and writes of cells) and \<open>frame_pool\<close> (free frames).
\<close>

section \<open>State and operations\<close>

record memphy_struct =
  storage :: "nat \<Rightarrow> BYTE"
  maxsz :: int
  rdmflg :: int
  cursor :: int
  free_fp_list :: "int chain"
  used_fp_list :: "int chain"

text \<open>\<open>mp->storage[addr]\<close>, read and written.\<close>

definition load_cell :: "memphy_struct \<Rightarrow> int \<Rightarrow> BYTE result" where
  "load_cell mp addr =
     (if 0 \<le> addr \<and> addr < maxsz mp then Inr (storage mp (nat addr)) else Inl Out_Of_Bounds)"

definition store_cell :: "memphy_struct \<Rightarrow> int \<Rightarrow> BYTE \<Rightarrow> memphy_struct result" where
  "store_cell mp addr v =
     (if 0 \<le> addr \<and> addr < maxsz mp
      then Inr (mp\<lparr>storage := (storage mp)(nat addr := v)\<rparr>) else Inl Out_Of_Bounds)"

function mv_csr_loop :: "int \<Rightarrow> int \<Rightarrow> int \<Rightarrow> int \<Rightarrow> int" where
  "mv_csr_loop offset sz numstep csr =
     (if numstep < offset \<and> numstep < sz
      then mv_csr_loop offset sz (numstep + 1) ((csr + 1) smod sz)
      else csr)"
  by pat_completeness auto
termination
  by (relation "measure (\<lambda>(offset, sz, numstep, csr). nat (sz - numstep))") auto

declare mv_csr_loop.simps [simp del]

definition MEMPHY_mv_csr :: "memphy_struct \<Rightarrow> int \<Rightarrow> int \<times> memphy_struct" where
  "MEMPHY_mv_csr mp offset = (0, mp\<lparr>cursor := mv_csr_loop offset (maxsz mp) 0 0\<rparr>)"

text \<open>Reads return the code, the device and what was stored in \<open>*value\<close>, if anything.\<close>

definition MEMPHY_seq_read ::
    "memphy_struct option \<Rightarrow> int \<Rightarrow> (int \<times> memphy_struct option \<times> BYTE option) result" where
  "MEMPHY_seq_read mp addr =
     (case mp of
        None \<Rightarrow> Inr (-1, None, None)
      | Some d \<Rightarrow>
          if rdmflg d = 0 then Inr (-1, Some d, None)
          else
            let d' = snd (MEMPHY_mv_csr d addr) in
            and_then (load_cell d' addr) (\<lambda>v. Inr (0, Some d', Some v)))"

definition MEMPHY_read ::
    "memphy_struct option \<Rightarrow> int \<Rightarrow> (int \<times> memphy_struct option \<times> BYTE option) result" where
  "MEMPHY_read mp addr =
     (case mp of
        None \<Rightarrow> Inr (-1, None, None)
      | Some d \<Rightarrow>
          if rdmflg d \<noteq> 0 then and_then (load_cell d addr) (\<lambda>v. Inr (0, Some d, Some v))
          else MEMPHY_seq_read (Some d) addr)"

definition MEMPHY_seq_write ::
    "memphy_struct option \<Rightarrow> int \<Rightarrow> BYTE \<Rightarrow> (int \<times> memphy_struct option) result" where
  "MEMPHY_seq_write mp addr value =
     (case mp of
        None \<Rightarrow> Inr (-1, None)
      | Some d \<Rightarrow>
          if rdmflg d = 0 then Inr (-1, Some d)
          else
            let d' = snd (MEMPHY_mv_csr d addr) in
            and_then (store_cell d' addr value) (\<lambda>d''. Inr (0, Some d'')))"

definition MEMPHY_write ::
    "memphy_struct option \<Rightarrow> int \<Rightarrow> BYTE \<Rightarrow> (int \<times> memphy_struct option) result" where
  "MEMPHY_write mp addr data =
     (case mp of
        None \<Rightarrow> Inr (-1, None)
      | Some d \<Rightarrow>
          if rdmflg d \<noteq> 0 then and_then (store_cell d addr data) (\<lambda>d'. Inr (0, Some d'))
          else MEMPHY_seq_write (Some d) addr data)"

text \<open>
  The frame list. \<open>junk\<close> is what \<open>malloc\<close> leaves in the \<open>fp_next\<close> field of a new node:
  the first node's field is written only when a second node exists.
\<close>

function format_nodes :: "int \<Rightarrow> int \<Rightarrow> int chain" where
  "format_nodes iter numfp =
     (if iter < numfp then Node iter (format_nodes (iter + 1) numfp) else NULL)"
  by pat_completeness auto
termination
  by (relation "measure (\<lambda>(iter, numfp). nat (numfp - iter))") auto

declare format_nodes.simps [simp del]

definition MEMPHY_format ::
    "int chain \<Rightarrow> memphy_struct \<Rightarrow> int \<Rightarrow> (int \<times> memphy_struct) result" where
  "MEMPHY_format junk mp pagesz =
     (if pagesz = 0 then Inl Div_By_Zero
      else
        let numfp = maxsz mp sdiv pagesz in
        if numfp \<le> 0 then Inr (-1, mp)
        else Inr (0, mp\<lparr>free_fp_list :=
               Node 0 (if 1 < numfp then format_nodes 1 numfp else junk)\<rparr>))"

definition MEMPHY_get_freefp ::
    "memphy_struct \<Rightarrow> (int \<times> memphy_struct \<times> int option) result" where
  "MEMPHY_get_freefp mp =
     (case free_fp_list mp of
        NULL \<Rightarrow> Inr (-1, mp, None)
      | Wild \<Rightarrow> Inl Uninit_Read
      | Node fpn nxt \<Rightarrow> Inr (0, mp\<lparr>free_fp_list := nxt\<rparr>, Some fpn))"

definition MEMPHY_dump :: "memphy_struct option \<Rightarrow> int" where
  "MEMPHY_dump mp = 0"

definition MEMPHY_put_freefp :: "memphy_struct \<Rightarrow> int \<Rightarrow> int \<times> memphy_struct" where
  "MEMPHY_put_freefp mp fpn = (0, mp\<lparr>free_fp_list := Node fpn (free_fp_list mp)\<rparr>)"

text \<open>
  A negative size becomes a huge \<open>size_t\<close>; \<open>malloc\<close> returns NULL and \<open>memset\<close> writes
  through it. The caller's device is uninitialised: \<open>mp\<close> holds what was there before.
\<close>

definition init_memphy ::
    "int chain \<Rightarrow> memphy_struct \<Rightarrow> int \<Rightarrow> int \<Rightarrow> (int \<times> memphy_struct) result" where
  "init_memphy junk mp max_size randomflg =
     (if max_size < 0 then Inl Null_Deref
      else
        let mp = mp\<lparr>maxsz := max_size, storage := (\<lambda>_. 0)\<rparr> in
        and_then (MEMPHY_format junk mp PAGING_PAGESZ) (\<lambda>(_, mp).
          let mp = mp\<lparr>rdmflg := (if randomflg \<noteq> 0 then 1 else 0)\<rparr> in
          Inr (0, if rdmflg mp = 0 then mp\<lparr>cursor := 0\<rparr> else mp)))"

section \<open>Reading and writing cells\<close>

definition random_cell :: "memphy_struct option \<Rightarrow> int \<Rightarrow> bool" where
  "random_cell mp a \<longleftrightarrow> (case mp of None \<Rightarrow> False
     | Some d \<Rightarrow> rdmflg d \<noteq> 0 \<and> 0 \<le> a \<and> a < maxsz d)"

definition cell :: "memphy_struct option \<Rightarrow> int \<Rightarrow> BYTE" where
  "cell mp a = (case mp of None \<Rightarrow> 0 | Some d \<Rightarrow> storage d (nat a))"

text \<open>
  What a client of a device relies on: a valid cell reads as its content and leaves the
  device alone; a write changes that cell only and keeps the set of valid cells.
\<close>

locale byte_store =
  fixes rd :: "'d \<Rightarrow> int \<Rightarrow> (int \<times> 'd \<times> BYTE option) result"
    and wr :: "'d \<Rightarrow> int \<Rightarrow> BYTE \<Rightarrow> (int \<times> 'd) result"
    and peek :: "'d \<Rightarrow> int \<Rightarrow> BYTE"
    and valid :: "'d \<Rightarrow> int \<Rightarrow> bool"
  assumes rd_valid: "valid d a \<Longrightarrow> rd d a = Inr (0, d, Some (peek d a))"
    and wr_valid: "valid d a \<Longrightarrow> \<exists>d'. wr d a v = Inr (0, d')"
    and wr_peek: "valid d a \<Longrightarrow> wr d a v = Inr (0, d') \<Longrightarrow> valid d b \<Longrightarrow>
       peek d' b = (if b = a then v else peek d b)"
    and wr_keeps_valid: "valid d a \<Longrightarrow> wr d a v = Inr (0, d') \<Longrightarrow> valid d' = valid d"
begin

lemma read_back:
  "valid d a \<Longrightarrow> wr d a v = Inr (0, d') \<Longrightarrow> rd d' a = Inr (0, d', Some v)"
  by (simp add: rd_valid wr_peek wr_keeps_valid)

lemma read_other:
  "valid d a \<Longrightarrow> valid d b \<Longrightarrow> b \<noteq> a \<Longrightarrow> wr d a v = Inr (0, d') \<Longrightarrow>
     rd d' b = Inr (0, d', Some (peek d b))"
  by (simp add: rd_valid wr_peek wr_keeps_valid)

lemma overwrite:
  assumes "valid d a" "wr d a v = Inr (0, d1)" "wr d1 a w = Inr (0, d2)"
  shows "rd d2 a = Inr (0, d2, Some w)"
  using assms by (intro read_back [of d1]) (simp_all add: wr_keeps_valid)

end

interpretation ram: byte_store MEMPHY_read MEMPHY_write cell random_cell
  by unfold_locales
    (auto simp: MEMPHY_read_def MEMPHY_write_def random_cell_def cell_def load_cell_def
      store_cell_def nat_eq_iff fun_eq_iff split: option.splits)

lemma MEMPHY_write_random:
  "rdmflg d \<noteq> 0 \<Longrightarrow> 0 \<le> a \<Longrightarrow> a < maxsz d \<Longrightarrow>
     MEMPHY_write (Some d) a v = Inr (0, Some (d\<lparr>storage := (storage d)(nat a := v)\<rparr>))"
  by (simp add: MEMPHY_write_def store_cell_def)

lemma MEMPHY_read_random:
  "rdmflg d \<noteq> 0 \<Longrightarrow> 0 \<le> a \<Longrightarrow> a < maxsz d \<Longrightarrow>
     MEMPHY_read (Some d) a = Inr (0, Some d, Some (storage d (nat a)))"
  by (simp add: MEMPHY_read_def load_cell_def)

lemma mv_csr_loop_eq:
  "0 \<le> numstep \<Longrightarrow> numstep \<le> sz \<Longrightarrow> csr = numstep mod sz \<Longrightarrow>
     mv_csr_loop offset sz numstep csr = max numstep (min offset sz) mod sz"
proof (induction offset sz numstep csr rule: mv_csr_loop.induct)
  case (1 offset sz numstep csr)
  show ?case
  proof (cases "numstep < offset \<and> numstep < sz")
    case True
    with "1.prems" have "(csr + 1) smod sz = (numstep + 1) mod sz"
      by (simp add: signed_modulo_int_def sgn_if abs_if)
    with True "1.prems" "1.IH" show ?thesis
      by (subst mv_csr_loop.simps) simp
  next
    case False
    with "1.prems" show ?thesis
      by (subst mv_csr_loop.simps) (auto simp: max_def min_def)
  qed
qed

section \<open>Free frames\<close>

abbreviation free_frames :: "memphy_struct \<Rightarrow> int list" where
  "free_frames mp \<equiv> chain_list (free_fp_list mp)"

definition pool_ok :: "memphy_struct \<Rightarrow> bool" where
  "pool_ok mp \<longleftrightarrow> grounded (free_fp_list mp)"

text \<open>The free frames are a stack: the promise the paging code relies on.\<close>

locale frame_pool =
  fixes get :: "'d \<Rightarrow> (int \<times> 'd \<times> int option) result"
    and put :: "'d \<Rightarrow> int \<Rightarrow> int \<times> 'd"
    and frames :: "'d \<Rightarrow> int list"
    and ok :: "'d \<Rightarrow> bool"
  assumes get_empty: "ok d \<Longrightarrow> frames d = [] \<Longrightarrow> get d = Inr (-1, d, None)"
    and get_frame: "ok d \<Longrightarrow> frames d = f # fs \<Longrightarrow>
       \<exists>d'. get d = Inr (0, d', Some f) \<and> frames d' = fs \<and> ok d'"
    and put_frames: "frames (snd (put d f)) = f # frames d"
    and put_ok: "ok d \<Longrightarrow> ok (snd (put d f))"
    and put_code: "fst (put d f) = 0"
begin

lemma get_total: "ok d \<Longrightarrow> \<exists>r. get d = Inr r"
  by (cases "frames d") (use get_empty get_frame in blast)+

lemma get_takes_head:
  assumes "ok d" "get d = Inr (c, d', Some f)"
  shows "c = 0" "frames d = f # frames d'" "ok d'"
  using assms get_empty [of d] get_frame [of d] by (cases "frames d"; fastforce)+

lemma put_get:
  assumes "ok d"
  shows "\<exists>d'. get (snd (put d f)) = Inr (0, d', Some f) \<and> frames d' = frames d \<and> ok d'"
  using get_frame [OF put_ok [OF assms] put_frames] by blast

end

interpretation fp: frame_pool MEMPHY_get_freefp MEMPHY_put_freefp free_frames pool_ok
proof
  fix d f fs
  assume "pool_ok d" "free_frames d = f # fs"
  then show "\<exists>d'. MEMPHY_get_freefp d = Inr (0, d', Some f) \<and> free_frames d' = fs \<and> pool_ok d'"
    by (cases "free_fp_list d") (auto simp: MEMPHY_get_freefp_def pool_ok_def)
next
  fix d assume "pool_ok d" "free_frames d = []"
  then show "MEMPHY_get_freefp d = Inr (-1, d, None)"
    by (cases "free_fp_list d") (auto simp: MEMPHY_get_freefp_def pool_ok_def)
qed (auto simp: MEMPHY_put_freefp_def pool_ok_def)

lemma format_nodes_list:
  "grounded (format_nodes iter numfp) \<and> chain_list (format_nodes iter numfp) = [iter..numfp - 1]"
proof (induction iter numfp rule: format_nodes.induct)
  case (1 iter numfp)
  show ?case
  proof (cases "iter < numfp")
    case True
    with 1 have "grounded (format_nodes (iter + 1) numfp)"
      and "chain_list (format_nodes (iter + 1) numfp) = [iter + 1..numfp - 1]" by auto
    with True show ?thesis
      by (simp add: format_nodes.simps [of iter numfp] upto_rec1 [of iter])
  next
    case False
    then show ?thesis by (simp add: format_nodes.simps [of iter numfp])
  qed
qed

text \<open>Frames of a well-formed device: distinct and inside its storage.\<close>

definition frames_in_range :: "memphy_struct \<Rightarrow> bool" where
  "frames_in_range mp \<longleftrightarrow> distinct (free_frames mp) \<and>
     (\<forall>f \<in> set (free_frames mp). 0 \<le> f \<and> (f + 1) * 256 \<le> maxsz mp)"

lemma init_memphy_frames:
  assumes "256 \<le> sz" and "junk = NULL \<or> 512 \<le> sz"
  shows "\<exists>mp'. init_memphy junk mp sz flg = Inr (0, mp') \<and> pool_ok mp' \<and>
     free_frames mp' = [0..sz div 256 - 1] \<and> maxsz mp' = sz \<and>
     storage mp' = (\<lambda>_. 0) \<and> rdmflg mp' = (if flg = 0 then 0 else 1)"
proof -
  have "0 < sz div 256" using assms(1) by (simp add: pos_imp_zdiv_pos_iff)
  then have up: "[0..sz div 256 - 1] = 0 # [1..sz div 256 - 1]"
    by (simp add: upto_rec1)
  have "junk = NULL \<or> 1 < sz div 256" using assms(2) by auto
  with assms(1) \<open>0 < sz div 256\<close> up format_nodes_list [of 1 "sz div 256"] show ?thesis
    by (auto simp: init_memphy_def MEMPHY_format_def PAGING_PAGESZ_eq sdiv_pos Let_def pool_ok_def)
qed

section \<open>Properties\<close>

text \<open>On a random access device a written byte reads back, and every other cell keeps
  its value.\<close>

theorem memphy_read_back:
  assumes "rdmflg d \<noteq> 0" "0 \<le> a" "a < maxsz d" "0 \<le> b" "b < maxsz d"
  shows "\<exists>d'. MEMPHY_write (Some d) a v = Inr (0, d') \<and>
     MEMPHY_read d' b = Inr (0, d', Some (if b = a then v else storage d (nat b)))"
proof -
  have va: "random_cell (Some d) a" and vb: "random_cell (Some d) b"
    using assms by (simp_all add: random_cell_def)
  obtain d' where w: "MEMPHY_write (Some d) a v = Inr (0, d')"
    using ram.wr_valid [OF va] by blast
  show ?thesis
    using w ram.read_back [OF va w] ram.read_other [OF va vb _ w] by (auto simp: cell_def)
qed

definition small_device :: memphy_struct where
  "small_device = \<lparr>storage = (\<lambda>i. word_of_nat i), maxsz = 512, rdmflg = 1, cursor = 0,
     free_fp_list = chain_of [0, 1], used_fp_list = NULL\<rparr>"

theorem memphy_read_back_witness:
  "\<exists>d'. MEMPHY_write (Some small_device) 3 42 = Inr (0, d') \<and> MEMPHY_read d' 5 = Inr (0, d', Some 5)"
  using memphy_read_back [of small_device 3 5 42] by (simp add: small_device_def)

text \<open>A device set up for sequential access can neither be read nor written: both calls
  return -1 and leave it unchanged, because the sequential routines refuse exactly the
  devices that are handed to them.\<close>

theorem sequential_device_refuses:
  assumes "rdmflg d = 0"
  shows "MEMPHY_read (Some d) a = Inr (-1, Some d, None) \<and> MEMPHY_write (Some d) a v = Inr (-1, Some d)"
  using assms
  by (simp add: MEMPHY_read_def MEMPHY_write_def MEMPHY_seq_read_def MEMPHY_seq_write_def)

theorem sequential_device_refuses_witness:
  "MEMPHY_read (Some (small_device\<lparr>rdmflg := 0\<rparr>)) 3 = Inr (-1, Some (small_device\<lparr>rdmflg := 0\<rparr>), None)"
  using sequential_device_refuses [of "small_device\<lparr>rdmflg := 0\<rparr>" 3] by simp

text \<open>A device of at least two pages starts with all its frames free, in order, distinct
  and inside the storage, and with zeroed cells, whatever \<open>malloc\<close> left in the nodes.\<close>

theorem init_memphy_all_frames_free:
  assumes "512 \<le> sz"
  shows "\<exists>mp'. init_memphy junk mp sz flg = Inr (0, mp') \<and> free_frames mp' = [0..sz div 256 - 1] \<and>
     pool_ok mp' \<and> frames_in_range mp' \<and> storage mp' = (\<lambda>_. 0)"
proof -
  obtain mp' where mp': "init_memphy junk mp sz flg = Inr (0, mp')" "pool_ok mp'" "free_frames mp' = [0..sz div 256 - 1]"
    "maxsz mp' = sz" "storage mp' = (\<lambda>_. 0)"
    using init_memphy_frames [of sz junk mp flg] assms by auto
  have "(f + 1) * 256 \<le> sz" if "f \<le> sz div 256 - 1" for f
  proof -
    have "(f + 1) * 256 \<le> sz div 256 * 256" using that by simp
    also have "\<dots> \<le> sz" by simp
    finally show ?thesis .
  qed
  with mp' show ?thesis by (auto simp: frames_in_range_def)
qed

theorem init_memphy_all_frames_free_witness:
  "\<exists>mp'. init_memphy Wild small_device 1024 1 = Inr (0, mp') \<and> free_frames mp' = [0..3]"
  using init_memphy_all_frames_free [of 1024 Wild small_device 1] by auto

end
