(* ===== verification/Mm.thy ===== *)
theory Mm
  imports Memphy
begin

text \<open>
  Memory descriptors (\<open>include/os-mm.h\<close>) and the memory management unit of \<open>src/mm.c\<close>:
  mapping page ranges, taking frames from RAM, copying a page between devices and
  setting up a descriptor. A page table is a function on page numbers with the bound
  \<open>PAGING_MAX_PGN\<close> checked at every access.

  \<open>caller_t\<close> is what these functions reach through their \<open>struct pcb_t *caller\<close>: the
  process's own descriptor and the two devices it shares with every other process,
  together with the mutex \<open>mmvm_lock\<close> of \<open>src/libmem.c\<close>.
\<close>

section \<open>State\<close>

record vm_rg_struct =
  rg_start :: ulong
  rg_end :: ulong

record vm_area_struct =
  vm_id :: ulong
  vm_start :: ulong
  vm_end :: ulong
  sbrk :: ulong
  vm_freerg_list :: "vm_rg_struct chain"

definition PAGING_MAX_SYMTBL_SZ :: int where "PAGING_MAX_SYMTBL_SZ = 30"

record mm_struct =
  pgd :: "(nat \<Rightarrow> u32) option"
  mmap :: "vm_area_struct chain"
  symrgtbl :: "vm_rg_struct list"
  fifo_pgn :: "int chain"

record caller_t =
  mm :: "mm_struct option"
  mram :: "memphy_struct option"
  active_mswp :: "memphy_struct option"
  mmvm_lock :: bool

text \<open>\<open>mm->pgd[i]\<close>, read and written.\<close>

definition pgd_get :: "mm_struct \<Rightarrow> int \<Rightarrow> u32 result" where
  "pgd_get m i =
     and_then (deref (pgd m)) (\<lambda>tbl.
       if 0 \<le> i \<and> i < uint PAGING_MAX_PGN then Inr (tbl (nat i)) else Inl Out_Of_Bounds)"

definition pgd_set :: "mm_struct \<Rightarrow> int \<Rightarrow> u32 \<Rightarrow> mm_struct result" where
  "pgd_set m i pte =
     and_then (deref (pgd m)) (\<lambda>tbl.
       if 0 \<le> i \<and> i < uint PAGING_MAX_PGN
       then Inr (m\<lparr>pgd := Some (tbl(nat i := pte))\<rparr>) else Inl Out_Of_Bounds)"

section \<open>Operations\<close>

definition enlist_pgn_node :: "int chain \<Rightarrow> int \<Rightarrow> int \<times> int chain" where
  "enlist_pgn_node plist pgn = (0, Node pgn plist)"

definition init_vm_rg :: "int \<Rightarrow> int \<Rightarrow> vm_rg_struct" where
  "init_vm_rg start fin = \<lparr>rg_start = ulong_of_int start, rg_end = ulong_of_int fin\<rparr>"

definition enlist_vm_rg_node ::
    "vm_rg_struct chain \<Rightarrow> vm_rg_struct \<Rightarrow> int \<times> vm_rg_struct chain" where
  "enlist_vm_rg_node rglist rgnode = (0, Node rgnode rglist)"

text \<open>The loop of \<open>vmap_page_range\<close> over the frame list.\<close>

fun vmap_loop :: "caller_t \<Rightarrow> int \<Rightarrow> int \<Rightarrow> int \<Rightarrow> int \<Rightarrow> int chain \<Rightarrow> vm_rg_struct \<Rightarrow>
    (caller_t \<times> vm_rg_struct) result" where
  "vmap_loop c addr pgn pgnum pgit NULL ret_rg = Inr (c, ret_rg)"
| "vmap_loop c addr pgn pgnum pgit Wild ret_rg = Inl Uninit_Read"
| "vmap_loop c addr pgn pgnum pgit (Node fpn nxt) ret_rg =
     and_then (deref (mm c)) (\<lambda>m.
     and_then (pgd_set m (pgn + pgit) 0) (\<lambda>m.
     and_then (pgd_get m (pgn + pgit)) (\<lambda>pte.
     and_then (pgd_set m (pgn + pgit) (snd (pte_set_fpn pte fpn))) (\<lambda>m.
       let m = m\<lparr>fifo_pgn := snd (enlist_pgn_node (fifo_pgn m) (pgn + pgit))\<rparr>;
           c = c\<lparr>mm := Some m\<rparr> in
       if pgit = pgnum - 1 then
         and_then (c_int (pgnum * PAGING_PAGESZ)) (\<lambda>len.
         and_then (c_int (addr + len)) (\<lambda>fin.
           Inr (c, ret_rg\<lparr>rg_end := ulong_of_int fin\<rparr>)))
       else vmap_loop c addr pgn pgnum (pgit + 1) nxt ret_rg))))"

definition vmap_page_range :: "caller_t \<Rightarrow> int \<Rightarrow> int \<Rightarrow> int chain \<Rightarrow> vm_rg_struct \<Rightarrow>
    (int \<times> caller_t \<times> vm_rg_struct) result" where
  "vmap_page_range c addr pgnum frames ret_rg =
     (let pgn = uint (PAGING_PGN (u32_of_int addr)) in
      if pgnum \<le> 0 then Inr (-1, c, ret_rg)
      else
        let ret_rg = \<lparr>rg_start = ulong_of_int addr, rg_end = ulong_of_int addr\<rparr> in
        and_then (vmap_loop c addr pgn pgnum 0 frames ret_rg) (\<lambda>(c, rg). Inr (0, c, rg)))"

text \<open>
  \<open>alloc_pages_range\<close> chains the frames it takes on a list of its own and never stores
  that list in \<open>*frm_lst\<close>. When RAM runs out it tests \<open>fp->fp_next\<close> of its newest node,
  a field \<open>malloc\<close> left as \<open>junk\<close>: where that is NULL nothing is given back.
\<close>

primrec alloc_pages_loop :: "int chain \<Rightarrow> caller_t \<Rightarrow> nat \<Rightarrow> (int \<times> caller_t) result" where
  "alloc_pages_loop junk c 0 = Inr (0, c)"
| "alloc_pages_loop junk c (Suc n) =
     and_then (deref (mram c)) (\<lambda>ram.
     and_then (MEMPHY_get_freefp ram) (\<lambda>(code, ram, fpn).
       if code = 0 then alloc_pages_loop junk (c\<lparr>mram := Some ram\<rparr>) n
       else (case junk of
               NULL \<Rightarrow> Inr (-1, c\<lparr>mram := Some ram\<rparr>)
             | _ \<Rightarrow> Inl Uninit_Read)))"

definition alloc_pages_range :: "int chain \<Rightarrow> caller_t \<Rightarrow> int \<Rightarrow> int chain \<Rightarrow>
    (int \<times> caller_t \<times> int chain) result" where
  "alloc_pages_range junk c req_pgnum frm_lst =
     and_then (alloc_pages_loop junk c (nat req_pgnum)) (\<lambda>(code, c). Inr (code, c, frm_lst))"

definition vm_map_ram :: "int chain \<Rightarrow> caller_t \<Rightarrow> int \<Rightarrow> int \<Rightarrow> int \<Rightarrow> int \<Rightarrow> vm_rg_struct \<Rightarrow>
    (int \<times> caller_t \<times> vm_rg_struct) result" where
  "vm_map_ram junk c astart aend mapstart incpgnum ret_rg =
     and_then (alloc_pages_range junk c incpgnum NULL) (\<lambda>(ret_alloc, c, frm_lst).
       if ret_alloc < 0 \<and> ret_alloc \<noteq> -3000 then Inr (-1, c, ret_rg)
       else if ret_alloc = -3000 then Inr (-1, c, ret_rg)
       else and_then (vmap_page_range c mapstart incpgnum frm_lst ret_rg)
              (\<lambda>(_, c, ret_rg). Inr (0, c, ret_rg)))"

text \<open>
  \<open>__swap_cp_page\<close> between two different devices; \<open>n\<close> counts the cells left, so that
  \<open>cellidx\<close> is \<open>PAGING_PAGESZ - n\<close>. The byte is read into a fresh local variable in
  every round.
\<close>

primrec swap_cp_loop :: "memphy_struct option \<Rightarrow> int \<Rightarrow> memphy_struct option \<Rightarrow> int \<Rightarrow> nat \<Rightarrow>
    (memphy_struct option \<times> memphy_struct option) result" where
  "swap_cp_loop mpsrc srcfpn mpdst dstfpn 0 = Inr (mpsrc, mpdst)"
| "swap_cp_loop mpsrc srcfpn mpdst dstfpn (Suc n) =
     (let cellidx = PAGING_PAGESZ - int (Suc n) in
      and_then (c_int (srcfpn * PAGING_PAGESZ)) (\<lambda>sbase.
      and_then (c_int (sbase + cellidx)) (\<lambda>addrsrc.
      and_then (c_int (dstfpn * PAGING_PAGESZ)) (\<lambda>dbase.
      and_then (c_int (dbase + cellidx)) (\<lambda>addrdst.
      and_then (MEMPHY_read mpsrc addrsrc) (\<lambda>(_, mpsrc, data).
      and_then (initialised data) (\<lambda>b.
      and_then (MEMPHY_write mpdst addrdst b) (\<lambda>(_, mpdst).
        swap_cp_loop mpsrc srcfpn mpdst dstfpn n))))))))"

definition swap_cp_page :: "memphy_struct option \<Rightarrow> int \<Rightarrow> memphy_struct option \<Rightarrow> int \<Rightarrow>
    (int \<times> memphy_struct option \<times> memphy_struct option) result" where
  "swap_cp_page mpsrc srcfpn mpdst dstfpn =
     and_then (swap_cp_loop mpsrc srcfpn mpdst dstfpn (nat PAGING_PAGESZ))
       (\<lambda>(mpsrc, mpdst). Inr (0, mpsrc, mpdst))"

text \<open>
  What the two \<open>malloc\<close> calls of \<open>init_mm\<close> deliver: whether they succeed, and what the
  new page table and the new area's free list pointer hold before they are written.
\<close>

record mm_blocks =
  got_vma0 :: bool
  got_pgd :: bool
  pgd_junk :: "nat \<Rightarrow> u32"
  freerg_junk :: "vm_rg_struct chain"

definition init_mm :: "mm_blocks \<Rightarrow> mm_struct \<Rightarrow> int \<times> mm_struct" where
  "init_mm h m =
     (if \<not> got_vma0 h then (-1, m)
      else if \<not> got_pgd h then (-1, m\<lparr>pgd := None\<rparr>)
      else
        let m = m\<lparr>pgd := Some (pgd_junk h)\<rparr>;
            first_rg = init_vm_rg (int_of_ulong 0) (int_of_ulong 0);
            vma0 = \<lparr>vm_id = 0, vm_start = 0, vm_end = 0, sbrk = 0,
                    vm_freerg_list = snd (enlist_vm_rg_node (freerg_junk h) first_rg)\<rparr>
        in (0, m\<lparr>mmap := Node vma0 NULL\<rparr>))"

text \<open>The printing functions: their code and the numbers they print, in order.\<close>

fun print_chain :: "'a chain \<Rightarrow> 'a list result" where
  "print_chain NULL = Inr []"
| "print_chain Wild = Inl Uninit_Read"
| "print_chain (Node x nxt) = and_then (print_chain nxt) (\<lambda>out. Inr (x # out))"

definition print_list_fp :: "int chain \<Rightarrow> (int \<times> int list) result" where
  "print_list_fp ifp =
     (case ifp of NULL \<Rightarrow> Inr (-1, [])
      | _ \<Rightarrow> and_then (print_chain ifp) (\<lambda>out. Inr (0, out)))"

definition print_list_rg :: "vm_rg_struct chain \<Rightarrow> (int \<times> (ulong \<times> ulong) list) result" where
  "print_list_rg irg =
     (case irg of NULL \<Rightarrow> Inr (-1, [])
      | _ \<Rightarrow> and_then (print_chain irg) (\<lambda>rgs. Inr (0, map (\<lambda>r. (rg_start r, rg_end r)) rgs)))"

definition print_list_vma :: "vm_area_struct chain \<Rightarrow> (int \<times> (ulong \<times> ulong) list) result" where
  "print_list_vma ivma =
     (case ivma of NULL \<Rightarrow> Inr (-1, [])
      | _ \<Rightarrow> and_then (print_chain ivma) (\<lambda>vs. Inr (0, map (\<lambda>v. (vm_start v, vm_end v)) vs)))"

definition print_list_pgn :: "int chain \<Rightarrow> (int \<times> int list) result" where
  "print_list_pgn ip =
     (case ip of NULL \<Rightarrow> Inr (-1, [])
      | _ \<Rightarrow> and_then (print_chain ip) (\<lambda>out. Inr (0, out)))"

section \<open>Taking frames from RAM\<close>

text \<open>Dropping frames from the head of the free list, all of them when too few are left.\<close>

primrec chain_drop :: "nat \<Rightarrow> 'a chain \<Rightarrow> 'a chain" where
  "chain_drop 0 c = c"
| "chain_drop (Suc n) c = (case c of Node x d \<Rightarrow> chain_drop n d | _ \<Rightarrow> c)"

lemma chain_list_drop [chain_simps]: "chain_list (chain_drop n c) = drop n (chain_list c)"
  by (induction n arbitrary: c) (auto split: chain.splits)

lemma grounded_drop [chain_simps]: "grounded c \<Longrightarrow> grounded (chain_drop n c)"
  by (induction n arbitrary: c) (auto split: chain.splits)

definition drop_frames :: "nat \<Rightarrow> memphy_struct \<Rightarrow> memphy_struct" where
  "drop_frames n ram = ram\<lparr>free_fp_list := chain_drop n (free_fp_list ram)\<rparr>"

lemma free_frames_drop: "free_frames (drop_frames n ram) = drop n (free_frames ram)"
  by (simp add: drop_frames_def chain_simps)

lemma drop_frames_fields [simp]:
  "storage (drop_frames n ram) = storage ram" "maxsz (drop_frames n ram) = maxsz ram"
  "rdmflg (drop_frames n ram) = rdmflg ram"
  by (simp_all add: drop_frames_def)

lemma pool_ok_drop: "pool_ok ram \<Longrightarrow> pool_ok (drop_frames n ram)"
  by (simp add: drop_frames_def pool_ok_def chain_simps)

lemma alloc_pages_loop_spec:
  assumes "mram c = Some ram" "pool_ok ram"
  shows "alloc_pages_loop junk c n =
     (if n \<le> length (free_frames ram) then Inr (0, c\<lparr>mram := Some (drop_frames n ram)\<rparr>)
      else if junk = NULL then Inr (-1, c\<lparr>mram := Some (drop_frames n ram)\<rparr>)
      else Inl Uninit_Read)"
  using assms
proof (induction n arbitrary: c ram)
  case 0
  then show ?case by (simp add: drop_frames_def)
next
  case (Suc n)
  show ?case
  proof (cases "free_fp_list ram")
    case (Node f fs)
    have "pool_ok (ram\<lparr>free_fp_list := fs\<rparr>)"
      using Suc.prems(2) Node by (simp add: pool_ok_def)
    then show ?thesis
      using Suc.prems Suc.IH [of "c\<lparr>mram := Some (ram\<lparr>free_fp_list := fs\<rparr>)\<rparr>" "ram\<lparr>free_fp_list := fs\<rparr>"] Node
      by (simp add: MEMPHY_get_freefp_def drop_frames_def)
  qed (use Suc.prems in \<open>auto simp: MEMPHY_get_freefp_def drop_frames_def pool_ok_def
      split: chain.splits\<close>)
qed

lemma alloc_pages_range_frame_list:
  "alloc_pages_range junk c n lst = Inr (code, c', lst') \<Longrightarrow> lst' = lst"
  by (auto simp: alloc_pages_range_def result_simps)

lemma alloc_pages_loop_frame:
  "alloc_pages_loop junk c n = Inr (code, c') \<Longrightarrow>
     mm c' = mm c \<and> active_mswp c' = active_mswp c \<and> mmvm_lock c' = mmvm_lock c \<and> (code = 0 \<or> code = -1)"
proof (induction n arbitrary: c)
  case (Suc n)
  from Suc.prems obtain ram code1 ram1 f where
    get: "mram c = Some ram" "MEMPHY_get_freefp ram = Inr (code1, ram1, f)"
    by (auto simp: result_simps)
  show ?case
  proof (cases "code1 = 0")
    case True
    with get Suc.prems have "alloc_pages_loop junk (c\<lparr>mram := Some ram1\<rparr>) n = Inr (code, c')"
      by simp
    from Suc.IH [OF this] show ?thesis by simp
  next
    case False
    with get Suc.prems show ?thesis by (auto split: chain.splits)
  qed
qed simp

lemma vm_map_ram_spec:
  assumes "mram c = Some ram" "pool_ok ram"
  shows "vm_map_ram junk c astart aend mapstart n rg =
     (if nat n \<le> length (free_frames ram) then
        Inr (0, c\<lparr>mram := Some (drop_frames (nat n) ram)\<rparr>,
             if n \<le> 0 then rg else \<lparr>rg_start = ulong_of_int mapstart, rg_end = ulong_of_int mapstart\<rparr>)
      else if junk = NULL then Inr (-1, c\<lparr>mram := Some (drop_frames (nat n) ram)\<rparr>, rg)
      else Inl Uninit_Read)"
  using assms
  by (simp add: vm_map_ram_def alloc_pages_range_def alloc_pages_loop_spec vmap_page_range_def Let_def)

section \<open>Copying a page\<close>

text \<open>A frame that lies inside a random access device whose cells are \<open>int\<close> addresses.\<close>

definition has_frame :: "memphy_struct \<Rightarrow> int \<Rightarrow> bool" where
  "has_frame d f \<longleftrightarrow> rdmflg d \<noteq> 0 \<and> maxsz d \<le> 2147483647 \<and> 0 \<le> f \<and> (f + 1) * 256 \<le> maxsz d"

definition page_of :: "memphy_struct \<Rightarrow> int \<Rightarrow> nat \<Rightarrow> BYTE" where
  "page_of d f i = storage d (nat (f * 256) + i)"

text \<open>Overwriting the last \<open>n\<close> cells of frame \<open>f\<close> with those of page \<open>p\<close>.\<close>

definition put_cells :: "memphy_struct \<Rightarrow> int \<Rightarrow> (nat \<Rightarrow> BYTE) \<Rightarrow> nat \<Rightarrow> memphy_struct" where
  "put_cells d f p n = d\<lparr>storage := (\<lambda>i. let b = nat (f * 256) in
     if b + (256 - n) \<le> i \<and> i < b + 256 then p (i - b) else storage d i)\<rparr>"

abbreviation put_page :: "memphy_struct \<Rightarrow> int \<Rightarrow> (nat \<Rightarrow> BYTE) \<Rightarrow> memphy_struct" where
  "put_page d f p \<equiv> put_cells d f p 256"

lemma put_cells_fields [simp]:
  "maxsz (put_cells d f p n) = maxsz d" "rdmflg (put_cells d f p n) = rdmflg d"
  "free_fp_list (put_cells d f p n) = free_fp_list d"
  by (simp_all add: put_cells_def)

lemma has_frame_put [simp]: "has_frame (put_cells d f p n) g = has_frame d g"
  by (simp add: has_frame_def)

lemma page_of_put_page: "0 \<le> f \<Longrightarrow> i < 256 \<Longrightarrow> page_of (put_page d f p) f i = p i"
  by (simp add: page_of_def put_cells_def Let_def)

lemma page_of_put_other:
  assumes "0 \<le> f" "0 \<le> g" "f \<noteq> g" "i < 256"
  shows "page_of (put_page d f p) g i = page_of d g i"
proof -
  have "nat (g * 256) + i < nat (f * 256) \<or> nat (f * 256) + 256 \<le> nat (g * 256) + i"
    using assms by (cases "g < f") auto
  then show ?thesis by (auto simp: page_of_def put_cells_def Let_def)
qed

lemma swap_cp_loop_spec:
  assumes "has_frame src sf" "has_frame dst df" "n \<le> 256"
  shows "swap_cp_loop (Some src) sf (Some dst) df n =
     Inr (Some src, Some (put_cells dst df (page_of src sf) n))"
  using assms
proof (induction n arbitrary: dst)
  case 0
  have "put_cells dst df (page_of src sf) 0 = dst"
    by (auto simp: put_cells_def Let_def intro!: memphy_struct.equality ext)
  then show ?case by simp
next
  case (Suc n)
  let ?k = "255 - int n"
  let ?d = "dst\<lparr>storage := (storage dst)(nat (df * 256 + ?k) := storage src (nat (sf * 256 + ?k)))\<rparr>"
  have rng: "0 \<le> sf * 256" "sf * 256 + 256 \<le> maxsz src" "maxsz src \<le> 2147483647"
    "0 \<le> df * 256" "df * 256 + 256 \<le> maxsz dst" "maxsz dst \<le> 2147483647" "rdmflg src \<noteq> 0" "rdmflg dst \<noteq> 0"
    using Suc.prems by (auto simp: has_frame_def algebra_simps)
  have "swap_cp_loop (Some src) sf (Some dst) df (Suc n) = swap_cp_loop (Some src) sf (Some ?d) df n"
    using rng Suc.prems(3)
    by (simp add: PAGING_PAGESZ_eq MEMPHY_read_random MEMPHY_write_random Let_def)
  also have "\<dots> = Inr (Some src, Some (put_cells ?d df (page_of src sf) n))"
    using Suc.prems by (intro Suc.IH) (auto simp: has_frame_def)
  also have "put_cells ?d df (page_of src sf) n = put_cells dst df (page_of src sf) (Suc n)"
  proof -
    have "nat (df * 256 + ?k) = nat (df * 256) + (255 - n)"
      and "nat (sf * 256 + ?k) = nat (sf * 256) + (255 - n)"
      using rng Suc.prems(3) by (auto simp: nat_add_distrib)
    then have "storage (put_cells ?d df (page_of src sf) n) i =
        storage (put_cells dst df (page_of src sf) (Suc n)) i" for i
      using Suc.prems(3) unfolding put_cells_def page_of_def Let_def
      by (cases "i = nat (df * 256) + (255 - n)") (auto, linarith)
    then show ?thesis by (simp add: put_cells_def fun_eq_iff)
  qed
  finally show ?case .
qed

lemma swap_cp_page_spec:
  "has_frame src sf \<Longrightarrow> has_frame dst df \<Longrightarrow>
     swap_cp_page (Some src) sf (Some dst) df = Inr (0, Some src, Some (put_page dst df (page_of src sf)))"
  by (simp add: swap_cp_page_def PAGING_PAGESZ_eq swap_cp_loop_spec)

section \<open>Mapping a range of pages\<close>

text \<open>The specification: page \<open>p + k\<close> gets a fresh entry for the \<open>k\<close>-th frame.\<close>

primrec map_pages :: "(nat \<Rightarrow> u32) \<Rightarrow> nat \<Rightarrow> int list \<Rightarrow> nat \<Rightarrow> u32" where
  "map_pages tbl p [] = tbl"
| "map_pages tbl p (f # fs) = map_pages (tbl(p := snd (pte_set_fpn 0 f))) (Suc p) fs"

lemma map_pages_lookup:
  "map_pages tbl p fs q =
     (if p \<le> q \<and> q < p + length fs then snd (pte_set_fpn 0 (fs ! (q - p))) else tbl q)"
proof (induction fs arbitrary: tbl p q)
  case (Cons f fs)
  show ?case by (cases "q = p") (auto simp: Cons.IH nth_Cons')
qed auto

definition mapped :: "mm_struct \<Rightarrow> nat \<Rightarrow> int list \<Rightarrow> mm_struct" where
  "mapped m p fs = m\<lparr>pgd := map_option (\<lambda>tbl. map_pages tbl p fs) (pgd m),
     fifo_pgn := fold Node (map int [p..<p + length fs]) (fifo_pgn m)\<rparr>"

lemma mapped_Nil [simp]: "mapped m p [] = m"
  by (cases "pgd m") (auto simp: mapped_def option.map_ident intro!: mm_struct.equality)

lemma mapped_Cons:
  assumes "pgd m = Some tbl" "int p = pgn"
  shows "mapped (m\<lparr>pgd := Some (tbl(p := snd (pte_set_fpn 0 f))), fifo_pgn := Node pgn (fifo_pgn m)\<rparr>) (Suc p) fs
     = mapped m p (f # fs)"
  using assms by (simp add: mapped_def upt_conv_Cons del: upt_Suc)

lemma vmap_loop_spec:
  assumes "mm c = Some m" "pgd m = Some tbl" "0 \<le> pgn" "0 \<le> pgit" "pgit < pgnum"
    "pgn + pgnum \<le> 16384" "0 \<le> addr" "addr + pgnum * 256 \<le> 2147483647"
  shows "vmap_loop c addr pgn pgnum pgit (chain_of fs) rg =
     Inr (c\<lparr>mm := Some (mapped m (nat (pgn + pgit)) (take (nat (pgnum - pgit)) fs))\<rparr>,
       if pgnum - pgit \<le> int (length fs) then rg\<lparr>rg_end := ulong_of_int (addr + pgnum * 256)\<rparr> else rg)"
  using assms
proof (induction fs arbitrary: c m tbl pgit)
  case (Cons f fs)
  let ?p = "nat (pgn + pgit)"
  let ?m = "m\<lparr>pgd := Some (tbl(?p := snd (pte_set_fpn 0 f))), fifo_pgn := Node (pgn + pgit) (fifo_pgn m)\<rparr>"
  have p: "int ?p = pgn + pgit" using Cons.prems by simp
  have step: "vmap_loop c addr pgn pgnum pgit (chain_of (f # fs)) rg =
      (if pgit = pgnum - 1 then Inr (c\<lparr>mm := Some ?m\<rparr>, rg\<lparr>rg_end := ulong_of_int (addr + pgnum * 256)\<rparr>)
       else vmap_loop (c\<lparr>mm := Some ?m\<rparr>) addr pgn pgnum (pgit + 1) (chain_of fs) rg)"
    using Cons.prems
    by (simp add: pgd_set_def pgd_get_def PAGING_MAX_PGN_eq PAGING_PAGESZ_eq enlist_pgn_node_def Let_def)
  show ?case
  proof (cases "pgit = pgnum - 1")
    case True
    with step mapped_Cons [OF Cons.prems(2) p, of f "[]"] show ?thesis by simp
  next
    case False
    let ?n = "nat (pgnum - (pgit + 1))"
    have nats: "nat (pgn + (pgit + 1)) = Suc ?p" "nat (pgnum - pgit) = Suc ?n"
      and long: "(pgnum - pgit \<le> int (length (f # fs))) = (pgnum - (pgit + 1) \<le> int (length fs))"
      using Cons.prems False by auto
    have "vmap_loop (c\<lparr>mm := Some ?m\<rparr>) addr pgn pgnum (pgit + 1) (chain_of fs) rg =
        Inr (c\<lparr>mm := Some (mapped ?m (nat (pgn + (pgit + 1))) (take ?n fs))\<rparr>,
          if pgnum - (pgit + 1) \<le> int (length fs)
          then rg\<lparr>rg_end := ulong_of_int (addr + pgnum * 256)\<rparr> else rg)"
      using Cons.prems False
      by (subst Cons.IH [where m = ?m and tbl = "tbl(?p := snd (pte_set_fpn 0 f))"]) auto
    also have "mapped ?m (nat (pgn + (pgit + 1))) (take ?n fs) = mapped m ?p (take (nat (pgnum - pgit)) (f # fs))"
      unfolding nats take_Suc_Cons by (rule mapped_Cons [OF Cons.prems(2) p])
    finally show ?thesis by (simp only: step False long if_False)
  qed
next
  case Nil
  then show ?case by simp
qed

lemma vmap_page_range_spec:
  assumes "mm c = Some m" "pgd m = Some tbl" "0 \<le> addr" "0 < pgnum"
    and fits: "addr + pgnum * 256 \<le> 4194304" and enough: "pgnum \<le> int (length fs)"
  shows "vmap_page_range c addr pgnum (chain_of fs) rg =
     Inr (0, c\<lparr>mm := Some (mapped m (nat (addr div 256)) (take (nat pgnum) fs))\<rparr>,
          \<lparr>rg_start = ulong_of_int addr, rg_end = ulong_of_int (addr + pgnum * 256)\<rparr>)"
proof -
  have "uint (PAGING_PGN (u32_of_int addr)) = addr div 256"
    using assms(3,4) fits by (simp add: uint_PAGING_PGN uint_u32_of_int)
  moreover have "addr div 256 + pgnum \<le> 16384"
    using fits by linarith
  ultimately show ?thesis
    using assms vmap_loop_spec [of c m tbl "addr div 256" 0 pgnum addr fs]
    by (simp add: vmap_page_range_def Let_def)
qed

section \<open>Setting up a descriptor\<close>

lemma init_mm_ok:
  assumes "got_vma0 h" "got_pgd h"
  shows "init_mm h m = (0, m\<lparr>pgd := Some (pgd_junk h),
     mmap := Node \<lparr>vm_id = 0, vm_start = 0, vm_end = 0, sbrk = 0,
       vm_freerg_list = Node \<lparr>rg_start = 0, rg_end = 0\<rparr> (freerg_junk h)\<rparr> NULL\<rparr>)"
  using assms
  by (simp add: init_mm_def Let_def init_vm_rg_def enlist_vm_rg_node_def int_of_ulong_def ulong_of_int_def)

section \<open>Properties\<close>

text \<open>A caller with two pages of RAM and a swap device, for the witnesses.\<close>

definition demo_mm :: mm_struct where
  "demo_mm = \<lparr>pgd = Some (\<lambda>_. 0), mmap = Node \<lparr>vm_id = 0, vm_start = 0, vm_end = 0, sbrk = 0,
       vm_freerg_list = Node \<lparr>rg_start = 0, rg_end = 0\<rparr> NULL\<rparr> NULL,
     symrgtbl = replicate 30 \<lparr>rg_start = 0, rg_end = 0\<rparr>, fifo_pgn = NULL\<rparr>"

definition demo_caller :: caller_t where
  "demo_caller = \<lparr>mm = Some demo_mm, mram = Some small_device, active_mswp = Some small_device,
     mmvm_lock = False\<rparr>"

text \<open>C38. Mapping a page-aligned or unaligned start address to a list of at least \<open>pgnum\<close>
  frames gives page \<open>addr / 256 + k\<close> a present entry for the \<open>k\<close>-th frame, leaves all other
  entries alone, and reports the whole range as mapped.\<close>

theorem vmap_page_range_maps:
  assumes "mm c = Some m" "pgd m = Some tbl" "0 \<le> addr" "0 < pgnum" "addr + pgnum * 256 \<le> 4194304"
    and "pgnum \<le> int (length fs)" "\<forall>f \<in> set fs. 0 \<le> f \<and> f < 8192"
  shows "\<exists>c' m' tbl'. vmap_page_range c addr pgnum (chain_of fs) rg =
      Inr (0, c', \<lparr>rg_start = ulong_of_int addr, rg_end = ulong_of_int (addr + pgnum * 256)\<rparr>) \<and>
     mm c' = Some m' \<and> pgd m' = Some tbl' \<and>
     (\<forall>k < nat pgnum. PAGING_PAGE_PRESENT (tbl' (nat (addr div 256) + k)) \<and>
        uint (PAGING_FPN (tbl' (nat (addr div 256) + k))) = fs ! k) \<and>
     (\<forall>q. q < nat (addr div 256) \<or> nat (addr div 256) + nat pgnum \<le> q \<longrightarrow> tbl' q = tbl q)"
proof -
  let ?p = "nat (addr div 256)" and ?fs = "take (nat pgnum) fs"
  let ?m = "mapped m ?p ?fs"
  have tbl: "pgd ?m = Some (map_pages tbl ?p ?fs)" using assms(2) by (simp add: mapped_def)
  have len: "length ?fs = nat pgnum" using assms(4,6) by simp
  have entry: "PAGING_PAGE_PRESENT (map_pages tbl ?p ?fs (?p + k)) \<and>
      uint (PAGING_FPN (map_pages tbl ?p ?fs (?p + k))) = fs ! k" if "k < nat pgnum" for k
  proof -
    have "fs ! k \<in> set fs" using that assms(6) by (intro nth_mem) linarith
    with assms(7) have "0 \<le> fs ! k" "fs ! k < 8192" by auto
    then show ?thesis
      using that len pte_set_fpn_fields [where pte = 0 and fpn = "fs ! k"]
      by (simp add: map_pages_lookup uint_u32_of_int)
  qed
  have other: "map_pages tbl ?p ?fs q = tbl q" if "q < ?p \<or> ?p + nat pgnum \<le> q" for q
    using that len by (auto simp: map_pages_lookup)
  show ?thesis
    unfolding vmap_page_range_spec [OF assms(1-6)]
  proof (intro exI conjI)
    show "mm (c\<lparr>mm := Some ?m\<rparr>) = Some ?m" by simp
    show "pgd ?m = Some (map_pages tbl ?p ?fs)" by (rule tbl)
  qed (use entry other in auto)
qed

theorem vmap_page_range_maps_witness:
  "\<exists>c' m' tbl'. vmap_page_range demo_caller 256 2 (chain_of [1, 0]) \<lparr>rg_start = 0, rg_end = 0\<rparr> =
      Inr (0, c', \<lparr>rg_start = 256, rg_end = 768\<rparr>) \<and> mm c' = Some m' \<and> pgd m' = Some tbl' \<and>
     uint (PAGING_FPN (tbl' 1)) = 1"
proof -
  obtain c' m' tbl' where *: "vmap_page_range demo_caller 256 2 (chain_of [1, 0]) \<lparr>rg_start = 0, rg_end = 0\<rparr> =
      Inr (0, c', \<lparr>rg_start = ulong_of_int 256, rg_end = ulong_of_int (256 + 2 * 256)\<rparr>)"
    "mm c' = Some m'" "pgd m' = Some tbl'"
    "\<forall>k < nat 2. PAGING_PAGE_PRESENT (tbl' (nat (256 div 256) + k)) \<and>
        uint (PAGING_FPN (tbl' (nat (256 div 256) + k))) = [1, 0] ! k"
    using vmap_page_range_maps [of demo_caller demo_mm "\<lambda>_. 0" 256 2 "[1, 0]" "\<lparr>rg_start = 0, rg_end = 0\<rparr>"]
    unfolding demo_caller_def demo_mm_def by auto
  from *(4) [rule_format, of 0] have "uint (PAGING_FPN (tbl' 1)) = 1" by simp
  with * show ?thesis by (simp add: ulong_of_int_def)
qed

text \<open>\<open>vm_map_ram\<close> never changes a descriptor: whatever RAM it takes frames from, no page
  of the process is mapped, since the frame list it passes on is always empty.\<close>

theorem vm_map_ram_maps_nothing:
  assumes "vm_map_ram junk c astart aend mapstart n rg = Inr (code, c', rg')"
  shows "mm c' = mm c"
proof (cases "alloc_pages_loop junk c (nat n)")
  case (Inl e)
  with assms show ?thesis by (simp add: vm_map_ram_def alloc_pages_range_def)
next
  case (Inr r)
  then obtain code1 c1 where a: "alloc_pages_loop junk c (nat n) = Inr (code1, c1)" by (cases r) simp
  from alloc_pages_loop_frame [OF a] have "mm c1 = mm c" "code1 = 0 \<or> code1 = -1" by simp_all
  with assms a show ?thesis
    by (elim disjE) (simp_all add: vm_map_ram_def alloc_pages_range_def vmap_page_range_def Let_def split: if_splits)
qed

theorem vm_map_ram_maps_nothing_witness:
  "\<exists>c' rg'. vm_map_ram NULL demo_caller 0 512 0 2 \<lparr>rg_start = 0, rg_end = 0\<rparr> = Inr (0, c', rg') \<and>
     mm c' = mm demo_caller"
proof -
  have "\<exists>c' rg'. vm_map_ram NULL demo_caller 0 512 0 2 \<lparr>rg_start = 0, rg_end = 0\<rparr> = Inr (0, c', rg')"
    using vm_map_ram_spec [of demo_caller small_device NULL 0 512 0 2]
    by (simp add: demo_caller_def small_device_def pool_ok_def)
  then show ?thesis using vm_map_ram_maps_nothing by blast
qed

text \<open>Taking \<open>n\<close> frames when RAM has fewer returns -1 and gives none of them back: the
  free list ends up empty.\<close>

theorem alloc_pages_range_loses_frames:
  assumes "mram c = Some ram" "pool_ok ram" "int (length (free_frames ram)) < n"
  shows "\<exists>ram'. alloc_pages_range NULL c n lst = Inr (-1, c\<lparr>mram := Some ram'\<rparr>, lst) \<and> free_frames ram' = []"
proof -
  have few: "\<not> nat n \<le> length (free_frames ram)" using assms(3) by linarith
  then have "alloc_pages_range NULL c n lst = Inr (-1, c\<lparr>mram := Some (drop_frames (nat n) ram)\<rparr>, lst)"
    using assms by (simp add: alloc_pages_range_def alloc_pages_loop_spec)
  moreover have "free_frames (drop_frames (nat n) ram) = []" using few assms(2) by (simp add: free_frames_drop)
  ultimately show ?thesis by blast
qed

theorem alloc_pages_range_loses_frames_witness:
  "\<exists>ram'. alloc_pages_range NULL demo_caller 3 NULL = Inr (-1, demo_caller\<lparr>mram := Some ram'\<rparr>, NULL) \<and>
     free_frames ram' = []"
  using alloc_pages_range_loses_frames [of demo_caller small_device 3 NULL]
  by (simp add: demo_caller_def small_device_def pool_ok_def)

text \<open>Copying a page makes the target frame equal to the source frame and changes no
  other frame, in either device, and no free list.\<close>

theorem swap_cp_page_copies:
  assumes "has_frame src sf" "has_frame dst df"
  shows "\<exists>dst'. swap_cp_page (Some src) sf (Some dst) df = Inr (0, Some src, Some dst') \<and>
     (\<forall>i < 256. page_of dst' df i = page_of src sf i) \<and>
     (\<forall>g i. 0 \<le> g \<and> g \<noteq> df \<and> i < 256 \<longrightarrow> page_of dst' g i = page_of dst g i) \<and>
     free_frames dst' = free_frames dst \<and> maxsz dst' = maxsz dst"
proof -
  have "0 \<le> df" using assms(2) by (simp add: has_frame_def)
  with swap_cp_page_spec [OF assms] show ?thesis
    by (auto simp: page_of_put_page page_of_put_other)
qed

theorem swap_cp_page_copies_witness:
  "\<exists>dst'. swap_cp_page (Some small_device) 1 (Some small_device) 0 = Inr (0, Some small_device, Some dst') \<and>
     page_of dst' 0 7 = 7"
proof -
  have "has_frame small_device 1" "has_frame small_device 0" by (simp_all add: has_frame_def small_device_def)
  from swap_cp_page_copies [OF this] obtain dst' where
    *: "swap_cp_page (Some small_device) 1 (Some small_device) 0 = Inr (0, Some small_device, Some dst')"
    "\<forall>i < 256. page_of dst' 0 i = page_of small_device 1 i" by blast
  from *(2) [rule_format, of 7] have "page_of dst' 0 7 = 7" by (simp add: page_of_def small_device_def)
  with *(1) show ?thesis by blast
qed

end
