(* ===== verification/Vm.thy ===== *)
theory Vm
  imports Mm
begin

text \<open>
  The virtual memory areas of \<open>src/mm-vm.c\<close>, and \<open>print_pgtbl\<close> of \<open>src/mm.c\<close>, which
  looks an area up. A pointer to an area is its position in the chain \<open>mm->mmap\<close>.
\<close>

section \<open>Operations\<close>

fun vma_walk :: "vm_area_struct chain \<Rightarrow> nat \<Rightarrow> int \<Rightarrow> nat option result" where
  "vma_walk NULL k vmaid = Inl Null_Deref"
| "vma_walk Wild k vmaid = Inl Uninit_Read"
| "vma_walk (Node v nxt) k vmaid =
     (if int_of_ulong (vm_id v) < vmaid then vma_walk nxt (Suc k) vmaid else Inr (Some k))"

definition get_vma_by_num :: "mm_struct \<Rightarrow> int \<Rightarrow> nat option result" where
  "get_vma_by_num m vmaid = (if mmap m = NULL then Inr None else vma_walk (mmap m) 0 vmaid)"

text \<open>The area a pointer points to, and writing its fields.\<close>

definition vma_at :: "mm_struct \<Rightarrow> nat option \<Rightarrow> vm_area_struct result" where
  "vma_at m p = and_then (deref p) (\<lambda>k. chain_nth (mmap m) k)"

definition set_vma :: "mm_struct \<Rightarrow> nat \<Rightarrow> (vm_area_struct \<Rightarrow> vm_area_struct) \<Rightarrow> mm_struct" where
  "set_vma m k f = m\<lparr>mmap := chain_update (mmap m) k f\<rparr>"

definition mm_swap_page :: "caller_t \<Rightarrow> int \<Rightarrow> int \<Rightarrow> (int \<times> caller_t) result" where
  "mm_swap_page c vicfpn swpfpn =
     and_then (swap_cp_page (mram c) vicfpn (active_mswp c) swpfpn) (\<lambda>(_, ram, swp).
       Inr (0, c\<lparr>mram := ram, active_mswp := swp\<rparr>))"

definition get_vm_area_node_at_brk ::
    "caller_t \<Rightarrow> int \<Rightarrow> int \<Rightarrow> int \<Rightarrow> vm_rg_struct option result" where
  "get_vm_area_node_at_brk c vmaid sz alignedsz =
     and_then (deref (mm c)) (\<lambda>m.
     and_then (get_vma_by_num m vmaid) (\<lambda>cur_vma.
       if cur_vma = None then Inr None
       else and_then (vma_at m cur_vma) (\<lambda>v.
         Inr (Some \<lparr>rg_start = sbrk v, rg_end = sbrk v + ulong_of_int sz\<rparr>))))"

text \<open>The \<open>int\<close> bounds are converted to \<open>unsigned long\<close> in the comparisons.\<close>

fun overlap_scan :: "vm_rg_struct chain \<Rightarrow> int \<Rightarrow> int \<Rightarrow> int result" where
  "overlap_scan NULL vmastart vmaend = Inr 0"
| "overlap_scan Wild vmastart vmaend = Inl Uninit_Read"
| "overlap_scan (Node cur nxt) vmastart vmaend =
     (if \<not> (ulong_of_int vmaend \<le> rg_start cur \<or> rg_end cur \<le> ulong_of_int vmastart)
      then Inr (-1) else overlap_scan nxt vmastart vmaend)"

definition validate_overlap_vm_area :: "caller_t \<Rightarrow> int \<Rightarrow> int \<Rightarrow> int \<Rightarrow> int result" where
  "validate_overlap_vm_area c vmaid vmastart vmaend =
     and_then (deref (mm c)) (\<lambda>m.
     and_then (get_vma_by_num m vmaid) (\<lambda>vma.
       if vma = None then Inr (-1)
       else and_then (vma_at m vma) (\<lambda>v. overlap_scan (vm_freerg_list v) vmastart vmaend)))"

definition inc_vma_limit :: "int chain \<Rightarrow> caller_t \<Rightarrow> int \<Rightarrow> int \<Rightarrow> (int \<times> caller_t) result" where
  "inc_vma_limit junk c vmaid inc_sz =
     and_then (PAGING_PAGE_ALIGNSZ inc_sz) (\<lambda>inc_amt.
     let incnumpage = inc_amt sdiv PAGING_PAGESZ in
     and_then (get_vm_area_node_at_brk c vmaid inc_sz inc_amt) (\<lambda>area.
     and_then (deref (mm c)) (\<lambda>m.
     and_then (get_vma_by_num m vmaid) (\<lambda>cur_vma.
     and_then (deref cur_vma) (\<lambda>k.
     and_then (vma_at m (Some k)) (\<lambda>v.
     let old_end = int_of_ulong (vm_end v) in
     and_then (deref area) (\<lambda>ar.
     and_then (validate_overlap_vm_area c vmaid (int_of_ulong (rg_start ar)) (int_of_ulong (rg_end ar))) (\<lambda>ov.
       if ov < 0 then Inr (-1, c)
       else
         let c = c\<lparr>mm := Some (set_vma m k
                    (\<lambda>v. v\<lparr>vm_end := vm_end v + ulong_of_int inc_sz\<rparr>))\<rparr> in
         and_then (vm_map_ram junk c (int_of_ulong (rg_start ar)) (int_of_ulong (rg_end ar))
                     old_end incnumpage \<lparr>rg_start = 0, rg_end = 0\<rparr>) (\<lambda>(ret, c, _).
           if ret < 0 then Inr (-1, c) else Inr (0, c))))))))))"

text \<open>\<open>print_pgtbl\<close>: its code and the rows it prints, byte offset and entry.\<close>

primrec pgtbl_rows :: "mm_struct \<Rightarrow> int \<Rightarrow> nat \<Rightarrow> (int \<times> u32) list result" where
  "pgtbl_rows m pgit 0 = Inr []"
| "pgtbl_rows m pgit (Suc n) =
     and_then (pgd_get m pgit) (\<lambda>pte.
     and_then (pgtbl_rows m (pgit + 1) n) (\<lambda>rows. Inr ((pgit * 4, pte) # rows)))"

definition print_pgtbl :: "caller_t \<Rightarrow> u32 \<Rightarrow> u32 \<Rightarrow> (int \<times> (int \<times> u32) list) result" where
  "print_pgtbl c start fin =
     and_then (if fin = -1 then
                 and_then (deref (mm c)) (\<lambda>m.
                 and_then (get_vma_by_num m 0) (\<lambda>cur_vma.
                 and_then (vma_at m cur_vma) (\<lambda>v. Inr (ucast (vm_end v)))))
               else Inr fin) (\<lambda>fin.
     let pgn_start = uint (PAGING_PGN start); pgn_end = uint (PAGING_PGN fin) in
     if pgn_start < pgn_end then
       and_then (deref (mm c)) (\<lambda>m.
       and_then (pgtbl_rows m pgn_start (nat (pgn_end - pgn_start))) (\<lambda>rows. Inr (0, rows)))
     else Inr (0, []))"

section \<open>Looking areas up\<close>

text \<open>
  \<open>init_mm\<close> gives every process one area with id 0, and no other area is ever created:
  \<open>one_area m v\<close> says so. A lookup of any id up to 0 finds it; a larger id runs off the
  end of the chain.
\<close>

definition one_area :: "mm_struct \<Rightarrow> vm_area_struct \<Rightarrow> bool" where
  "one_area m v \<longleftrightarrow> mmap m = Node v NULL \<and> vm_id v = 0"

lemma get_vma_one_area:
  assumes "one_area m v"
  shows "get_vma_by_num m vmaid = (if vmaid \<le> 0 then Inr (Some 0) else Inl Null_Deref)"
  using assms by (auto simp: one_area_def get_vma_by_num_def int_of_ulong_def)

lemma vma_at_one_area: "one_area m v \<Longrightarrow> vma_at m (Some 0) = Inr v"
  by (simp add: one_area_def vma_at_def)

lemma set_vma_one_area: "one_area m v \<Longrightarrow> set_vma m 0 f = m\<lparr>mmap := Node (f v) NULL\<rparr>"
  by (simp add: one_area_def set_vma_def)

lemmas area_simps = get_vma_one_area vma_at_one_area set_vma_one_area

section \<open>Overlap with the free list\<close>

text \<open>The planned area keeps clear of a region when it ends before it or starts after it.\<close>

definition clear_of :: "int \<Rightarrow> int \<Rightarrow> vm_rg_struct \<Rightarrow> bool" where
  "clear_of s e r \<longleftrightarrow> ulong_of_int e \<le> rg_start r \<or> rg_end r \<le> ulong_of_int s"

lemma overlap_scan_spec:
  "grounded rs \<Longrightarrow> overlap_scan rs s e = Inr (if list_all (clear_of s e) (chain_list rs) then 0 else -1)"
  by (induction rs) (auto simp: clear_of_def)

section \<open>Growing an area\<close>

lemma ALIGNSZ_eq:
  assumes "0 \<le> sz" "sz \<le> 2147483391"
  shows "PAGING_PAGE_ALIGNSZ sz = Inr ((sz + 255) div 256 * 256)"
proof -
  have "(sz + 255) div 256 * 256 \<le> sz + 255" by simp
  moreover have "0 \<le> (sz + 255) div 256" using assms by simp
  moreover have "(sz + 255) div 256 \<le> sz + 255"
    using assms by linarith
  ultimately show ?thesis
    using assms
    by (simp add: PAGING_PAGE_ALIGNSZ_def DIV_ROUND_UP_def PAGING_PAGESZ_eq sdiv_pos)
qed

lemma ulong_int_round_trip: "uint w < 2147483648 \<Longrightarrow> ulong_of_int (int_of_ulong w) = w"
  by (simp add: int_of_ulong_small ulong_of_int_def)

text \<open>
  Regions of the free list that end below the break never overlap the area planned at
  the break, so growing the area depends on free frames only. The area's end moves and
  the frames leave the free list even when there are too few of them.
\<close>

definition below_brk :: "vm_area_struct \<Rightarrow> bool" where
  "below_brk v \<longleftrightarrow> grounded (vm_freerg_list v) \<and>
     (\<forall>r \<in> set (chain_list (vm_freerg_list v)). rg_end r \<le> sbrk v) \<and> uint (sbrk v) < 2147483648"

lemma validate_below_brk:
  assumes "mm c = Some m" "one_area m v" "below_brk v" "vmaid \<le> 0"
  shows "validate_overlap_vm_area c vmaid (int_of_ulong (sbrk v)) e = Inr 0"
proof -
  have "list_all (clear_of (int_of_ulong (sbrk v)) e) (chain_list (vm_freerg_list v))"
    using assms(3) by (simp add: below_brk_def clear_of_def list_all_iff ulong_int_round_trip)
  then show ?thesis
    using assms by (simp add: validate_overlap_vm_area_def area_simps overlap_scan_spec below_brk_def)
qed

definition grow_end :: "caller_t \<Rightarrow> mm_struct \<Rightarrow> vm_area_struct \<Rightarrow> int \<Rightarrow> memphy_struct \<Rightarrow> nat \<Rightarrow> caller_t" where
  "grow_end c m v sz ram n = c\<lparr>mm := Some (m\<lparr>mmap := Node (v\<lparr>vm_end := vm_end v + ulong_of_int sz\<rparr>) NULL\<rparr>),
     mram := Some (drop_frames n ram)\<rparr>"

lemma inc_vma_limit_spec:
  assumes "mm c = Some m" "one_area m v" "below_brk v" "vmaid \<le> 0"
    and "mram c = Some ram" "pool_ok ram" "0 \<le> sz" "sz \<le> 2147483391"
  defines "n \<equiv> nat ((sz + 255) div 256)"
  shows "inc_vma_limit junk c vmaid sz =
     (if n \<le> length (free_frames ram) then Inr (0, grow_end c m v sz ram n)
      else if junk = NULL then Inr (-1, grow_end c m v sz ram n) else Inl Uninit_Read)"
  using assms(1-8)
  by (simp add: inc_vma_limit_def ALIGNSZ_eq get_vm_area_node_at_brk_def area_simps PAGING_PAGESZ_eq
      sdiv_pos Let_def validate_below_brk vm_map_ram_spec grow_end_def n_def)

section \<open>Properties\<close>

text \<open>Looking an area up: every process has the one area 0, which is found for any id up
  to 0; a larger id is not reported as missing but dereferences NULL at the end of the list,
  and so does every operation that looks the area up.\<close>

theorem area_lookup:
  assumes "mm c = Some m" "one_area m v"
  shows "(\<forall>vmaid \<le> 0. get_vma_by_num m vmaid = Inr (Some 0) \<and> vma_at m (Some 0) = Inr v) \<and>
     (\<forall>vmaid > 0. get_vma_by_num m vmaid = Inl Null_Deref \<and>
        validate_overlap_vm_area c vmaid s e = Inl Null_Deref \<and> get_vm_area_node_at_brk c vmaid s e = Inl Null_Deref)"
  using assms by (simp add: area_simps validate_overlap_vm_area_def get_vm_area_node_at_brk_def)

theorem area_lookup_witness:
  "get_vma_by_num demo_mm 0 = Inr (Some 0) \<and> get_vma_by_num demo_mm 1 = Inl Null_Deref"
proof -
  have "mm demo_caller = Some demo_mm" by (simp add: demo_caller_def)
  moreover have "one_area demo_mm \<lparr>vm_id = 0, vm_start = 0, vm_end = 0, sbrk = 0,
       vm_freerg_list = Node \<lparr>rg_start = 0, rg_end = 0\<rparr> NULL\<rparr>" by (simp add: one_area_def demo_mm_def)
  ultimately show ?thesis using area_lookup by simp
qed

text \<open>C40. The overlap test accepts a planned area exactly when it keeps clear of every region
  of the free list, and an area planned at the break is always accepted while the free
  regions lie below the break.\<close>

theorem overlap_test_correct:
  assumes "mm c = Some m" "one_area m v" "grounded (vm_freerg_list v)" "vmaid \<le> 0"
  shows "validate_overlap_vm_area c vmaid s e =
     Inr (if \<forall>r \<in> set (chain_list (vm_freerg_list v)).
            ulong_of_int e \<le> rg_start r \<or> rg_end r \<le> ulong_of_int s then 0 else -1)"
  using assms
  by (simp add: validate_overlap_vm_area_def area_simps overlap_scan_spec list_all_iff clear_of_def)

theorem overlap_test_correct_witness:
  "\<exists>m. validate_overlap_vm_area (demo_caller\<lparr>mm := Some m\<rparr>) 0 100 200 = Inr (-1)"
proof -
  let ?v = "\<lparr>vm_id = 0, vm_start = 0, vm_end = 512, sbrk = 512,
      vm_freerg_list = Node \<lparr>rg_start = 150, rg_end = 160\<rparr> NULL\<rparr>"
  let ?m = "demo_mm\<lparr>mmap := Node ?v NULL\<rparr>"
  have "validate_overlap_vm_area (demo_caller\<lparr>mm := Some ?m\<rparr>) 0 100 200 = Inr (-1)"
    using overlap_test_correct [of "demo_caller\<lparr>mm := Some ?m\<rparr>" ?m ?v 0 100 200]
    by (simp add: one_area_def ulong_of_int_def)
  then show ?thesis by blast
qed

text \<open>Growing an area moves its end by the requested size, leaves the break alone and
  takes one frame per page; without enough frames it returns -1, but the end has moved and
  the frames are gone all the same.\<close>

theorem inc_vma_limit_grows:
  assumes "mm c = Some m" "one_area m v" "below_brk v" "vmaid \<le> 0"
    and "mram c = Some ram" "pool_ok ram" "0 \<le> sz" "sz \<le> 2147483391"
  shows "\<exists>c' m' ram'. inc_vma_limit NULL c vmaid sz =
       Inr (if nat ((sz + 255) div 256) \<le> length (free_frames ram) then 0 else -1, c') \<and>
     mm c' = Some m' \<and> one_area m' (v\<lparr>vm_end := vm_end v + ulong_of_int sz\<rparr>) \<and> pgd m' = pgd m \<and>
     mram c' = Some ram' \<and> free_frames ram' = drop (nat ((sz + 255) div 256)) (free_frames ram)"
  unfolding inc_vma_limit_spec [OF assms] using assms(2,6)
  by (auto simp: grow_end_def one_area_def free_frames_drop)

theorem inc_vma_limit_grows_witness:
  "\<exists>c' ram'. inc_vma_limit NULL demo_caller 0 300 = Inr (0, c') \<and> mram c' = Some ram' \<and> free_frames ram' = []"
proof -
  let ?v = "\<lparr>vm_id = 0, vm_start = 0, vm_end = 0, sbrk = 0,
      vm_freerg_list = Node \<lparr>rg_start = 0, rg_end = 0\<rparr> NULL\<rparr>"
  have "mm demo_caller = Some demo_mm" "one_area demo_mm ?v" "below_brk ?v"
    "mram demo_caller = Some small_device" "pool_ok small_device"
    by (simp_all add: demo_caller_def demo_mm_def one_area_def below_brk_def pool_ok_def small_device_def)
  from inc_vma_limit_grows [OF this(1-3) order_refl this(4,5), of 300] show ?thesis
    by (auto simp: small_device_def)
qed

end
