(* ===== verification/Libmem.thy ===== *)
theory Libmem
  imports Vm
begin

text \<open>
  The memory library of \<open>src/libmem.c\<close>: regions of a process (\<open>__alloc\<close>, \<open>__free\<close>, here
  \<open>mm_alloc\<close>, \<open>mm_free\<close>), page access with replacement (\<open>pg_getpage\<close>,
  \<open>find_victim_page\<close>), reading and writing bytes (\<open>__read\<close>, \<open>__write\<close>, here \<open>mm_read\<close>,
  \<open>mm_write\<close>), and the \<open>lib*\<close> wrappers that the CPU calls. The \<open>mm\<close> argument of
  \<open>pg_getpage\<close>, \<open>pg_getval\<close> and \<open>pg_setval\<close> is always \<open>caller->mm\<close>, so they take the
  caller only. Debug output is left out.
\<close>

section \<open>The mutex\<close>

definition pthread_mutex_lock :: "caller_t \<Rightarrow> caller_t result" where
  "pthread_mutex_lock c = (if mmvm_lock c then Inl Self_Deadlock else Inr (c\<lparr>mmvm_lock := True\<rparr>))"

definition pthread_mutex_unlock :: "caller_t \<Rightarrow> caller_t" where
  "pthread_mutex_unlock c = c\<lparr>mmvm_lock := False\<rparr>"

text \<open>
  What the host's \<open>malloc\<close> does where the code depends on it: whether the tested call in
  \<open>__free\<close> succeeds, and what a fresh frame node holds in \<open>fp_next\<close>.
\<close>

record host =
  malloc_ok :: bool
  fp_junk :: "int chain"

section \<open>Regions\<close>

definition enlist_vm_freerg_list :: "mm_struct \<Rightarrow> vm_rg_struct \<Rightarrow> (int \<times> mm_struct) result" where
  "enlist_vm_freerg_list m rg_elmt =
     and_then (chain_nth (mmap m) 0) (\<lambda>v.
       if rg_end rg_elmt \<le> rg_start rg_elmt then Inr (-1, m)
       else Inr (0, set_vma m 0 (\<lambda>v. v\<lparr>vm_freerg_list := Node rg_elmt (vm_freerg_list v)\<rparr>)))"

text \<open>The pointer \<open>&mm->symrgtbl[rgid]\<close>, as the index it refers to.\<close>

definition get_symrg_byid :: "mm_struct \<Rightarrow> int \<Rightarrow> int option" where
  "get_symrg_byid m rgid =
     (if rgid < 0 \<or> rgid > PAGING_MAX_SYMTBL_SZ then None else Some rgid)"

definition set_symrg :: "mm_struct \<Rightarrow> int \<Rightarrow> ulong \<Rightarrow> ulong \<Rightarrow> mm_struct result" where
  "set_symrg m rgid s e =
     and_then (arr_set (symrgtbl m) rgid \<lparr>rg_start = s, rg_end = e\<rparr>) (\<lambda>tbl.
       Inr (m\<lparr>symrgtbl := tbl\<rparr>))"

text \<open>The scan of the free list; \<open>newrg\<close> is what the caller's variable holds so far.\<close>

fun free_rg_scan :: "vm_rg_struct chain \<Rightarrow> int \<Rightarrow> vm_rg_struct \<Rightarrow> (int \<times> vm_rg_struct) result" where
  "free_rg_scan NULL sz newrg = Inr (0, newrg)"
| "free_rg_scan Wild sz newrg = Inl Uninit_Read"
| "free_rg_scan (Node rgit nxt) sz newrg =
     (let rg_size = int_of_ulong (rg_end rgit - rg_start rgit);
          newrg = (if rg_size \<ge> sz then rgit else newrg)
      in if nxt = NULL then Inr (-1, newrg) else free_rg_scan nxt sz newrg)"

definition get_free_vmrg_area ::
    "caller_t \<Rightarrow> int \<Rightarrow> int \<Rightarrow> (int \<times> vm_rg_struct option) result" where
  "get_free_vmrg_area c vmaid sz =
     and_then (deref (mm c)) (\<lambda>m.
     and_then (get_vma_by_num m vmaid) (\<lambda>cur_vma.
       if cur_vma = None then Inr (-1, None)
       else and_then (vma_at m cur_vma) (\<lambda>v.
         if vm_freerg_list v = NULL then Inr (-1, None)
         else and_then (free_rg_scan (vm_freerg_list v) sz \<lparr>rg_start = -1, rg_end = -1\<rparr>)
                (\<lambda>(code, newrg). Inr (code, Some newrg)))))"

text \<open>\<open>__alloc\<close>: code, caller, and what was stored in \<open>*alloc_addr\<close>.\<close>

definition mm_alloc ::
    "int chain \<Rightarrow> caller_t \<Rightarrow> int \<Rightarrow> int \<Rightarrow> int \<Rightarrow> (int \<times> caller_t \<times> int option) result" where
  "mm_alloc junk c vmaid rgid sz =
     and_then (pthread_mutex_lock c) (\<lambda>c.
     and_then (get_free_vmrg_area c vmaid sz) (\<lambda>(code, rgnode).
       if code = 0 then
         and_then (initialised rgnode) (\<lambda>rg.
         and_then (deref (mm c)) (\<lambda>m.
         and_then (set_symrg m rgid (rg_start rg) (rg_end rg)) (\<lambda>m.
           Inr (0, pthread_mutex_unlock (c\<lparr>mm := Some m\<rparr>), Some (int_of_ulong (rg_start rg))))))
       else
         and_then (deref (mm c)) (\<lambda>m.
         and_then (get_vma_by_num m vmaid) (\<lambda>cur_vma.
           case cur_vma of
             None \<Rightarrow> Inr (-1, pthread_mutex_unlock c, None)
           | Some k \<Rightarrow>
               and_then (PAGING_PAGE_ALIGNSZ sz) (\<lambda>inc_sz.
               and_then (vma_at m (Some k)) (\<lambda>v.
               let old_sbrk = int_of_ulong (sbrk v) in
               and_then (inc_vma_limit junk c vmaid inc_sz) (\<lambda>(ret, c).
                 if ret = 0 then
                   and_then (deref (mm c)) (\<lambda>m.
                   and_then (if inc_sz > sz then
                               and_then (c_int (sz + old_sbrk)) (\<lambda>s.
                               and_then (c_int (s + 1)) (\<lambda>s1.
                               and_then (c_int (inc_sz + old_sbrk)) (\<lambda>e.
                               and_then (enlist_vm_freerg_list m
                                   \<lparr>rg_start = ulong_of_int s1, rg_end = ulong_of_int e\<rparr>) (\<lambda>(_, m). Inr m))))
                             else Inr m) (\<lambda>m.
                   and_then (c_int (old_sbrk + sz)) (\<lambda>e.
                   and_then (set_symrg m rgid (ulong_of_int old_sbrk) (ulong_of_int e)) (\<lambda>m.
                     let m = set_vma m k (\<lambda>v. v\<lparr>sbrk := sbrk v + ulong_of_int inc_sz\<rparr>) in
                     Inr (0, pthread_mutex_unlock (c\<lparr>mm := Some m\<rparr>), Some old_sbrk)))))
                 else Inr (0, pthread_mutex_unlock c, None))))))))"

text \<open>\<open>__free\<close>\<close>

definition mm_free :: "host \<Rightarrow> caller_t \<Rightarrow> int \<Rightarrow> int \<Rightarrow> (int \<times> caller_t) result" where
  "mm_free h c vmaid rgid =
     (if rgid < 0 \<or> rgid \<ge> PAGING_MAX_SYMTBL_SZ then Inr (-1, c)
      else
        and_then (pthread_mutex_lock c) (\<lambda>c.
        and_then (deref (mm c)) (\<lambda>m.
        and_then (arr_get (symrgtbl m) rgid) (\<lambda>free_rg.
          if rg_end free_rg \<le> rg_start free_rg then Inr (-1, pthread_mutex_unlock c)
          else
            and_then (get_vma_by_num m vmaid) (\<lambda>cur_vma.
              if cur_vma = None then Inr (-1, pthread_mutex_unlock c)
              else if \<not> malloc_ok h then Inr (-1, pthread_mutex_unlock c)
              else
                and_then (enlist_vm_freerg_list m
                    \<lparr>rg_start = rg_start free_rg, rg_end = rg_end free_rg\<rparr>) (\<lambda>(_, m).
                and_then (set_symrg m rgid 0 0) (\<lambda>m.
                  Inr (0, pthread_mutex_unlock (c\<lparr>mm := Some m\<rparr>)))))))))"

definition liballoc :: "host \<Rightarrow> caller_t \<Rightarrow> u32 \<Rightarrow> u32 \<Rightarrow> (int \<times> caller_t) result" where
  "liballoc h c sz reg_index =
     and_then (mm_alloc (fp_junk h) c 0 (int_of_u32 reg_index) (int_of_u32 sz)) (\<lambda>(code, c, _). Inr (code, c))"

definition libfree :: "host \<Rightarrow> caller_t \<Rightarrow> u32 \<Rightarrow> (int \<times> caller_t) result" where
  "libfree h c reg_index = mm_free h c 0 (int_of_u32 reg_index)"

section \<open>Pages\<close>

text \<open>The walk to the last node of the FIFO list, which is unlinked.\<close>

fun unlink_last :: "int chain \<Rightarrow> (int chain \<times> int) result" where
  "unlink_last NULL = Inl Null_Deref"
| "unlink_last Wild = Inl Uninit_Read"
| "unlink_last (Node pgn nxt) =
     (if nxt = NULL then Inr (NULL, pgn)
      else and_then (unlink_last nxt) (\<lambda>(nxt, lst). Inr (Node pgn nxt, lst)))"

definition find_victim_page :: "caller_t \<Rightarrow> (int \<times> caller_t \<times> int option) result" where
  "find_victim_page c =
     and_then (pthread_mutex_lock c) (\<lambda>c.
       case mm c of
         None \<Rightarrow> Inr (-1, pthread_mutex_unlock c, None)
       | Some m \<Rightarrow>
           if fifo_pgn m = NULL then Inr (-1, pthread_mutex_unlock c, None)
           else and_then (unlink_last (fifo_pgn m)) (\<lambda>(rest, pgn).
             Inr (0, pthread_mutex_unlock (c\<lparr>mm := Some (m\<lparr>fifo_pgn := rest\<rparr>)\<rparr>), Some pgn)))"

text \<open>
  \<open>pg_getpage\<close> for a page that is not present, from the point where the victim is known:
  the victim's frame goes to swap, the wanted page comes in. The victim's entry is
  written to the table; the wanted page's entry is a local copy.
\<close>

definition pg_swap_in ::
    "caller_t \<Rightarrow> mm_struct \<Rightarrow> int \<Rightarrow> u32 \<Rightarrow> int \<Rightarrow> u32 \<Rightarrow> (int \<times> caller_t \<times> int option) result" where
  "pg_swap_in c m pgn pte vicpgn vicpte =
     (let tgtfpn = uint (PAGING_PTE_SWP pte); vicfpn = uint (PAGING_FPN vicpte) in
      case active_mswp c of
        None \<Rightarrow> Inr (-1, c, None)
      | Some swp \<Rightarrow>
          and_then (MEMPHY_get_freefp swp) (\<lambda>(swap_result, swp, sf).
          let c = c\<lparr>active_mswp := Some swp\<rparr> in
          if swap_result \<noteq> 0 then Inr (-1, c, None)
          else
            and_then (initialised sf) (\<lambda>swpfpn.
            if mram c = None then Inr (-1, c, None)
            else
              and_then (swap_cp_page (mram c) vicfpn (active_mswp c) swpfpn) (\<lambda>(r1, ram, swp).
              let c = c\<lparr>mram := ram, active_mswp := swp\<rparr> in
              if r1 \<noteq> 0 then Inr (-1, c, None)
              else
                and_then (swap_cp_page (active_mswp c) tgtfpn (mram c) vicfpn) (\<lambda>(r2, swp, ram).
                let c = c\<lparr>mram := ram, active_mswp := swp\<rparr> in
                if r2 \<noteq> 0 then Inr (-1, c, None)
                else
                  and_then (deref (active_mswp c)) (\<lambda>swp.
                  let c = c\<lparr>active_mswp := Some (snd (MEMPHY_put_freefp swp tgtfpn))\<rparr> in
                  and_then (pgd_set m vicpgn (snd (pte_set_swap vicpte 0 swpfpn))) (\<lambda>m.
                  let pte = snd (pte_set_fpn pte vicfpn);
                      m = m\<lparr>fifo_pgn := snd (enlist_pgn_node (fifo_pgn m) pgn)\<rparr>
                  in Inr (0, c\<lparr>mm := Some m\<rparr>, Some (uint (PAGING_FPN pte))))))))))"

definition pg_getpage :: "caller_t \<Rightarrow> int \<Rightarrow> (int \<times> caller_t \<times> int option) result" where
  "pg_getpage c pgn =
     (if pgn < 0 \<or> pgn \<ge> uint PAGING_MAX_PGN then Inr (-1, c, None)
      else case mm c of
        None \<Rightarrow> Inr (-1, c, None)
      | Some m \<Rightarrow>
          and_then (pgd_get m pgn) (\<lambda>pte.
          if \<not> PAGING_PAGE_PRESENT pte then
            and_then (find_victim_page c) (\<lambda>(victim_result, c, vic).
            if victim_result \<noteq> 0 then Inr (-1, c, None)
            else
              and_then (initialised vic) (\<lambda>vicpgn.
              if vicpgn < 0 \<or> vicpgn \<ge> uint PAGING_MAX_PGN then Inr (-1, c, None)
              else
                and_then (deref (mm c)) (\<lambda>m.
                and_then (pgd_get m vicpgn) (\<lambda>vicpte.
                if \<not> PAGING_PAGE_PRESENT vicpte then Inr (-1, c, None)
                else pg_swap_in c m pgn pte vicpgn vicpte))))
          else Inr (0, c, Some (uint (PAGING_FPN pte)))))"

definition phys_addr :: "int \<Rightarrow> int \<Rightarrow> int result" where
  "phys_addr fpn off =
     and_then (c_int (push_bit PAGING_ADDR_FPN_LOBIT fpn)) (\<lambda>base. c_int (base + off))"

definition pg_getval :: "caller_t \<Rightarrow> int \<Rightarrow> (int \<times> caller_t \<times> BYTE option) result" where
  "pg_getval c addr =
     (let pgn = uint (PAGING_PGN (u32_of_int addr)); off = uint (PAGING_OFFST (u32_of_int addr)) in
      and_then (deref (mm c)) (\<lambda>m.
      and_then (pgd_get m pgn) (\<lambda>_.
      and_then (pg_getpage c pgn) (\<lambda>(code, c, fp).
        if code \<noteq> 0 then Inr (-1, c, None)
        else
          and_then (initialised fp) (\<lambda>fpn.
          and_then (phys_addr fpn off) (\<lambda>pa.
          and_then (MEMPHY_read (mram c) pa) (\<lambda>(read_result, ram, data).
            let c = c\<lparr>mram := ram\<rparr> in
            if read_result \<noteq> 0 then Inr (-1, c, data) else Inr (0, c, data))))))))"

definition pg_setval :: "caller_t \<Rightarrow> int \<Rightarrow> BYTE \<Rightarrow> (int \<times> caller_t) result" where
  "pg_setval c addr value =
     (let pgn = uint (PAGING_PGN (u32_of_int addr)); off = uint (PAGING_OFFST (u32_of_int addr)) in
      and_then (pg_getpage c pgn) (\<lambda>(code, c, fp).
        if code \<noteq> 0 then Inr (-1, c)
        else
          and_then (initialised fp) (\<lambda>fpn.
          and_then (phys_addr fpn off) (\<lambda>pa.
          and_then (MEMPHY_write (mram c) pa value) (\<lambda>(write_result, ram).
            let c = c\<lparr>mram := ram\<rparr> in
            if write_result \<noteq> 0 then Inr (-1, c) else Inr (0, c))))))"

section \<open>Bytes of a region\<close>

text \<open>The virtual address \<open>currg->rg_start + offset\<close>, converted to the \<open>int\<close> parameter.\<close>

definition region_addr :: "mm_struct \<Rightarrow> int \<Rightarrow> int \<Rightarrow> int result" where
  "region_addr m rgid offset =
     and_then (arr_get (symrgtbl m) rgid) (\<lambda>currg.
       Inr (int_of_ulong (rg_start currg + ulong_of_int offset)))"

definition mm_read :: "caller_t \<Rightarrow> int \<Rightarrow> int \<Rightarrow> int \<Rightarrow> (int \<times> caller_t \<times> BYTE option) result" where
  "mm_read c vmaid rgid offset =
     and_then (deref (mm c)) (\<lambda>m.
     and_then (get_vma_by_num m vmaid) (\<lambda>cur_vma.
       case get_symrg_byid m rgid of
         None \<Rightarrow> Inr (-1, c, None)
       | Some rg \<Rightarrow>
           if cur_vma = None then Inr (-1, c, None)
           else and_then (region_addr m rg offset) (\<lambda>addr. pg_getval c addr)))"

definition mm_write :: "caller_t \<Rightarrow> int \<Rightarrow> int \<Rightarrow> int \<Rightarrow> BYTE \<Rightarrow> (int \<times> caller_t) result" where
  "mm_write c vmaid rgid offset value =
     and_then (deref (mm c)) (\<lambda>m.
     and_then (get_vma_by_num m vmaid) (\<lambda>cur_vma.
       case get_symrg_byid m rgid of
         None \<Rightarrow> Inr (-1, c)
       | Some rg \<Rightarrow>
           if cur_vma = None then Inr (-1, c)
           else and_then (region_addr m rg offset) (\<lambda>addr. pg_setval c addr value)))"

text \<open>
  \<open>libread\<close>: code, caller and the value stored in \<open>*destination\<close>; \<open>dest\<close> says whether
  the pointer is valid. The page table is printed after a successful read.
\<close>

definition libread :: "caller_t \<Rightarrow> u32 \<Rightarrow> u32 \<Rightarrow> bool \<Rightarrow> (int \<times> caller_t \<times> u32) result" where
  "libread c source offset dest =
     and_then (mm_read c 0 (int_of_u32 source) (int_of_u32 offset)) (\<lambda>(val, c, data).
       if val = 0 \<and> dest then
         and_then (initialised data) (\<lambda>b.
         and_then (print_pgtbl c 0 (-1)) (\<lambda>_. Inr (val, c, u32_of_byte b)))
       else if dest then Inr (-1, c, -1)
       else Inl Null_Deref)"

definition libwrite :: "caller_t \<Rightarrow> BYTE \<Rightarrow> u32 \<Rightarrow> u32 \<Rightarrow> (int \<times> caller_t) result" where
  "libwrite c data destination offset =
     and_then (print_pgtbl c 0 (-1)) (\<lambda>_.
       mm_write c 0 (int_of_u32 destination) (int_of_u32 offset) data)"

section \<open>Collecting the frames of a process\<close>

primrec free_pcb_loop :: "caller_t \<Rightarrow> int \<Rightarrow> nat \<Rightarrow> caller_t result" where
  "free_pcb_loop c pagenum 0 = Inr c"
| "free_pcb_loop c pagenum (Suc n) =
     and_then (deref (mm c)) (\<lambda>m.
     and_then (pgd_get m pagenum) (\<lambda>pte.
       and_then
         (if \<not> PAGING_PAGE_PRESENT pte then
            and_then (deref (mram c)) (\<lambda>ram.
              Inr (c\<lparr>mram := Some (snd (MEMPHY_put_freefp ram (uint (PAGING_PTE_FPN pte))))\<rparr>))
          else
            and_then (deref (active_mswp c)) (\<lambda>swp.
              Inr (c\<lparr>active_mswp := Some (snd (MEMPHY_put_freefp swp (uint (PAGING_PTE_SWP pte))))\<rparr>)))
         (\<lambda>c. free_pcb_loop c (pagenum + 1) n)))"

definition free_pcb_memph :: "caller_t \<Rightarrow> (int \<times> caller_t) result" where
  "free_pcb_memph c =
     and_then (free_pcb_loop c 0 (unat PAGING_MAX_PGN)) (\<lambda>c. Inr (0, c))"

section \<open>Searching the free list\<close>

text \<open>The scan gives up at the last region, whether or not it saw one that fits.\<close>

lemma free_rg_scan_code:
  "free_rg_scan rs sz newrg = Inr (code, rg) \<Longrightarrow> rs \<noteq> NULL \<Longrightarrow> code = -1"
  by (induction rs sz newrg rule: free_rg_scan.induct) (auto simp: Let_def split: if_splits)

lemma get_free_vmrg_area_code:
  "get_free_vmrg_area c vmaid sz = Inr (code, rg) \<Longrightarrow> code = -1"
  by (auto simp: get_free_vmrg_area_def result_simps split: if_splits dest: free_rg_scan_code)

lemma free_rg_scan_total: "grounded rs \<Longrightarrow> \<exists>r. free_rg_scan rs sz newrg = Inr r"
  by (induction rs sz newrg rule: free_rg_scan.induct) (auto simp: Let_def)

lemma get_free_vmrg_area_one_area:
  assumes "mm c = Some m" "one_area m v" "grounded (vm_freerg_list v)" "vmaid \<le> 0"
  shows "\<exists>rg. get_free_vmrg_area c vmaid sz = Inr (-1, rg)"
proof -
  obtain r where "free_rg_scan (vm_freerg_list v) sz \<lparr>rg_start = -1, rg_end = -1\<rparr> = Inr r"
    using free_rg_scan_total assms(3) by blast
  with assms have "\<exists>r. get_free_vmrg_area c vmaid sz = Inr r"
    by (cases r) (simp add: get_free_vmrg_area_def area_simps)
  then show ?thesis using get_free_vmrg_area_code by fastforce
qed

section \<open>The regions of a process\<close>

text \<open>
  \<open>process_ok c m v ram\<close>: the caller has one area \<open>v\<close>, a full symbol table, RAM with a
  terminated free list, and the mutex is free. \<open>regions_ok\<close> adds that the regions in use
  and the free regions are pairwise disjoint and end below the break.
\<close>

definition process_ok :: "caller_t \<Rightarrow> mm_struct \<Rightarrow> vm_area_struct \<Rightarrow> memphy_struct \<Rightarrow> bool" where
  "process_ok c m v ram \<longleftrightarrow> mm c = Some m \<and> one_area m v \<and> below_brk v \<and> length (symrgtbl m) = 30 \<and>
     mram c = Some ram \<and> pool_ok ram \<and> \<not> mmvm_lock c"








section \<open>Allocating\<close>

definition page_align :: "int \<Rightarrow> int" where
  "page_align sz = (sz + 255) div 256 * 256"

lemma page_align_bounds: "sz \<le> page_align sz" "page_align sz \<le> sz + 255" "page_align sz mod 256 = 0"
  by (simp_all add: page_align_def)

lemma page_align_idem: "(page_align sz + 255) div 256 = (sz + 255) div 256"
  by (simp add: page_align_def)

text \<open>The area after an allocation of \<open>sz\<close> bytes: what is left of the last page, less one
  byte, goes on the free list.\<close>

definition rest_region :: "vm_area_struct \<Rightarrow> int \<Rightarrow> vm_rg_struct" where
  "rest_region v sz = \<lparr>rg_start = ulong_of_int (sz + uint (sbrk v) + 1),
     rg_end = ulong_of_int (page_align sz + uint (sbrk v))\<rparr>"

definition grown :: "vm_area_struct \<Rightarrow> int \<Rightarrow> vm_area_struct" where
  "grown v sz = v\<lparr>vm_end := vm_end v + ulong_of_int (page_align sz),
     sbrk := sbrk v + ulong_of_int (page_align sz),
     vm_freerg_list := (if page_align sz > sz + 1
       then Node (rest_region v sz) (vm_freerg_list v) else vm_freerg_list v)\<rparr>"

lemma rest_region_nonempty:
  assumes "0 \<le> sz" "uint (sbrk v) + page_align sz \<le> 2147483647" "page_align sz > sz"
  shows "rg_end (rest_region v sz) \<le> rg_start (rest_region v sz) \<longleftrightarrow> page_align sz = sz + 1"
proof -
  have "uint (rg_start (rest_region v sz)) = sz + uint (sbrk v) + 1"
    and "uint (rg_end (rest_region v sz)) = page_align sz + uint (sbrk v)"
    using assms by (simp_all add: rest_region_def uint_ulong_of_int)
  then show ?thesis using assms(3) by (auto simp: word_le_def)
qed

lemma mm_alloc_spec:
  assumes ok: "process_ok c m v ram" and args: "vmaid \<le> 0" "0 \<le> rgid" "rgid < 30" "0 \<le> sz"
    and small: "uint (sbrk v) + page_align sz \<le> 2147483391"
  defines "n \<equiv> nat ((sz + 255) div 256)"
  shows "mm_alloc junk c vmaid rgid sz =
     (if n \<le> length (free_frames ram) then
        Inr (0, c\<lparr>mm := Some (m\<lparr>mmap := Node (grown v sz) NULL, symrgtbl := (symrgtbl m)[nat rgid :=
                  \<lparr>rg_start = sbrk v, rg_end = ulong_of_int (uint (sbrk v) + sz)\<rparr>]\<rparr>),
                mram := Some (drop_frames n ram), mmvm_lock := False\<rparr>, Some (uint (sbrk v)))
      else if junk = NULL then Inr (0, grow_end (c\<lparr>mmvm_lock := False\<rparr>) m v (page_align sz) ram n, None)
      else Inl Uninit_Read)"
proof -
  let ?c = "c\<lparr>mmvm_lock := True\<rparr>"
  note pa = page_align_bounds [of sz]
  from ok have m: "mm ?c = Some m" "one_area m v" "below_brk v" "mram ?c = Some ram" "pool_ok ram"
    "length (symrgtbl m) = 30" "\<not> mmvm_lock c" "grounded (vm_freerg_list v)"
    by (auto simp: process_ok_def below_brk_def)
  obtain rg where free: "get_free_vmrg_area ?c vmaid sz = Inr (-1, rg)"
    using get_free_vmrg_area_one_area m args(1) by blast
  have b: "int_of_ulong (sbrk v) = uint (sbrk v)"
    using m(3) by (simp add: below_brk_def int_of_ulong_small)
  have "sz \<le> 2147483391" using small pa(1) uint_ge_0 [of "sbrk v"] by linarith
  then have align: "PAGING_PAGE_ALIGNSZ sz = Inr (page_align sz)"
    using args(4) by (simp add: ALIGNSZ_eq page_align_def)
  have inc: "inc_vma_limit junk ?c vmaid (page_align sz) =
     (if n \<le> length (free_frames ram) then Inr (0, grow_end ?c m v (page_align sz) ram n)
      else if junk = NULL then Inr (-1, grow_end ?c m v (page_align sz) ram n) else Inl Uninit_Read)"
    using inc_vma_limit_spec [OF m(1,2,3) args(1) m(4,5), of "page_align sz"] args(4) small pa uint_ge_0 [of "sbrk v"]
    by (simp add: page_align_idem n_def)
  have ints: "c_int (sz + uint (sbrk v)) = Inr (sz + uint (sbrk v))"
    "c_int (sz + uint (sbrk v) + 1) = Inr (sz + uint (sbrk v) + 1)"
    "c_int (page_align sz + uint (sbrk v)) = Inr (page_align sz + uint (sbrk v))"
    "c_int (uint (sbrk v) + sz) = Inr (uint (sbrk v) + sz)"
    using args(4) small pa uint_ge_0 [of "sbrk v"] by (intro c_int_in_range; linarith)+
  note rest = rest_region_nonempty [OF args(4), of v]
  have start: "ulong_of_int (uint (sbrk v)) = sbrk v" by (simp add: ulong_of_int_def)
  show ?thesis
    using m free args pa small rest
    by (auto simp: mm_alloc_def pthread_mutex_lock_def pthread_mutex_unlock_def b align inc ints
        area_simps grow_end_def Let_def enlist_vm_freerg_list_def set_symrg_def arr_set_def
        set_vma_def grown_def rest_region_def start)
qed

section \<open>The invariant of a process's regions\<close>



lemma below_brk_grown:
  assumes "below_brk v" "0 \<le> sz" "uint (sbrk v) + page_align sz \<le> 2147483391"
  shows "below_brk (grown v sz)"
proof -
  note pa = page_align_bounds [of sz]
  have brk: "uint (sbrk v + ulong_of_int (page_align sz)) = uint (sbrk v) + page_align sz"
    using assms(2,3) pa by (simp add: uint_add_ulong)
  have "rg_end (rest_region v sz) = sbrk v + ulong_of_int (page_align sz)"
    by (simp add: rest_region_def ulong_of_int_def add.commute)
  moreover have "r \<le> sbrk v \<Longrightarrow> r \<le> sbrk v + ulong_of_int (page_align sz)" for r
    using brk assms(2) pa(1) by (simp add: word_le_def)
  ultimately show ?thesis
    using assms(1,3) brk by (auto simp: below_brk_def grown_def)
qed

lemma one_area_grown: "one_area m v \<Longrightarrow> one_area (m\<lparr>mmap := Node (grown v sz) NULL, symrgtbl := t\<rparr>) (grown v sz)"
  by (simp add: one_area_def grown_def)


section \<open>Freeing\<close>



section \<open>Page replacement\<close>

lemma unlink_last_spec: "unlink_last (chain_of (pgs @ [p])) = Inr (chain_of pgs, p)"
proof (induction pgs)
  case (Cons q pgs)
  moreover have "chain_of (pgs @ [p]) \<noteq> NULL" by (cases pgs) auto
  ultimately show ?case by simp
qed simp

lemma find_victim_page_spec:
  assumes "\<not> mmvm_lock c" "mm c = Some m" "fifo_pgn m = chain_of (pgs @ [p])"
  shows "find_victim_page c = Inr (0, c\<lparr>mm := Some (m\<lparr>fifo_pgn := chain_of pgs\<rparr>)\<rparr>, Some p)"
proof -
  have "chain_of (pgs @ [p]) \<noteq> NULL" by (cases pgs) auto
  with assms show ?thesis
    by (simp add: find_victim_page_def pthread_mutex_lock_def pthread_mutex_unlock_def unlink_last_spec)
qed

lemma pg_getpage_present:
  assumes "mm c = Some m" "pgd m = Some tbl" "0 \<le> pgn" "pgn < 16384" "PAGING_PAGE_PRESENT (tbl (nat pgn))"
  shows "pg_getpage c pgn = Inr (0, c, Some (uint (PAGING_FPN (tbl (nat pgn)))))"
  using assms by (simp add: pg_getpage_def pgd_get_def PAGING_MAX_PGN_eq)

lemma put_page_cong: "(\<And>i. i < 256 \<Longrightarrow> p i = q i) \<Longrightarrow> put_page d f p = put_page d f q"
  by (auto simp: put_cells_def Let_def fun_eq_iff intro!: arg_cong [where f = "\<lambda>s. d\<lparr>storage := s\<rparr>"])

lemma uint_PAGING_FPN_bounds: "0 \<le> uint (PAGING_FPN x)" "uint (PAGING_FPN x) < 8192"
  by (simp_all add: uint_PAGING_FPN)

lemma FPN_set_fpn_FPN: "uint (PAGING_FPN (snd (pte_set_fpn pte (uint (PAGING_FPN x))))) = uint (PAGING_FPN x)"
proof -
  have "PAGING_FPN (snd (pte_set_fpn pte (uint (PAGING_FPN x)))) = u32_of_int (uint (PAGING_FPN x))"
    by (rule pte_set_fpn_fields(3)) (rule uint_PAGING_FPN_bounds)+
  then show ?thesis by (simp add: u32_of_int_def)
qed

text \<open>The state after a page fault in which victim \<open>vp\<close> (frame \<open>vf\<close>) makes room for the
  page stored in swap frame \<open>tf\<close>, using the free swap frame \<open>sf\<close>.\<close>

definition swapped_in :: "caller_t \<Rightarrow> mm_struct \<Rightarrow> (nat \<Rightarrow> u32) \<Rightarrow> int \<Rightarrow> int \<Rightarrow> int list \<Rightarrow>
    memphy_struct \<Rightarrow> int \<Rightarrow> memphy_struct \<Rightarrow> int \<Rightarrow> int \<Rightarrow> int chain \<Rightarrow> caller_t" where
  "swapped_in c m tbl pgn vp pgs ram vf swp tf sf rest =
     c\<lparr>mm := Some (m\<lparr>pgd := Some (tbl(nat vp := snd (pte_set_swap (tbl (nat vp)) 0 sf))),
                      fifo_pgn := chain_of (pgn # pgs)\<rparr>),
       mram := Some (put_page ram vf (page_of swp tf)),
       active_mswp := Some ((put_page swp sf (page_of ram vf))\<lparr>free_fp_list := Node tf rest\<rparr>)\<rparr>"

lemma pg_getpage_fault:
  assumes c: "mm c = Some m" "pgd m = Some tbl" "\<not> mmvm_lock c" "mram c = Some ram" "active_mswp c = Some swp"
    and fifo: "fifo_pgn m = chain_of (pgs @ [vp])"
    and pgn: "0 \<le> pgn" "pgn < 16384" "\<not> PAGING_PAGE_PRESENT (tbl (nat pgn))"
    and vp: "0 \<le> vp" "vp < 16384" "PAGING_PAGE_PRESENT (tbl (nat vp))"
    and vf: "vf = uint (PAGING_FPN (tbl (nat vp)))" "has_frame ram vf"
    and tf: "tf = uint (PAGING_PTE_SWP (tbl (nat pgn)))" "has_frame swp tf"
    and sf: "free_fp_list swp = Node sf rest" "has_frame swp sf" "sf \<noteq> tf"
  shows "pg_getpage c pgn = Inr (0, swapped_in c m tbl pgn vp pgs ram vf swp tf sf rest, Some vf)"
proof -
  let ?swp = "swp\<lparr>free_fp_list := rest\<rparr>"
  have hf: "has_frame ?swp f = has_frame swp f" for f by (simp add: has_frame_def)
  have first: "swap_cp_page (Some ram) vf (Some ?swp) sf = Inr (0, Some ram, Some (put_page ?swp sf (page_of ram vf)))"
    using vf(2) sf(2) hf by (intro swap_cp_page_spec) simp_all
  have "page_of (put_page ?swp sf (page_of ram vf)) tf i = page_of swp tf i" if "i < 256" for i
    using sf tf that by (subst page_of_put_other) (auto simp: has_frame_def page_of_def)
  then have second: "swap_cp_page (Some (put_page ?swp sf (page_of ram vf))) tf (Some ram) vf =
      Inr (0, Some (put_page ?swp sf (page_of ram vf)), Some (put_page ram vf (page_of swp tf)))"
    using vf(2) tf(2) hf by (subst swap_cp_page_spec) (auto intro: put_page_cong)
  have store: "(put_page ?swp sf (page_of ram vf))\<lparr>free_fp_list := Node tf rest\<rparr> =
      (put_page swp sf (page_of ram vf))\<lparr>free_fp_list := Node tf rest\<rparr>"
    by (simp add: put_cells_def Let_def cong: if_cong)
  have same_fpn: "uint (PAGING_FPN (snd (pte_set_fpn x vf))) = vf" for x
    unfolding vf(1) by (rule FPN_set_fpn_FPN)
  show ?thesis
    using c pgn vp fifo sf(1) first second store find_victim_page_spec [OF c(3,1) fifo]
    by (simp add: pg_getpage_def pg_swap_in_def pgd_get_def pgd_set_def PAGING_MAX_PGN_eq Let_def
        MEMPHY_get_freefp_def MEMPHY_put_freefp_def enlist_pgn_node_def swapped_in_def same_fpn
        vf(1) [symmetric] tf(1) [symmetric])
qed

section \<open>Reading and writing bytes\<close>

text \<open>\<open>resident c a pa\<close>: the virtual address \<open>a\<close> lies in a present page, and the byte is
  the cell \<open>pa\<close> of RAM.\<close>

definition resident :: "caller_t \<Rightarrow> int \<Rightarrow> int \<Rightarrow> bool" where
  "resident c a pa \<longleftrightarrow> (\<exists>m tbl. mm c = Some m \<and> pgd m = Some tbl \<and> 0 \<le> a \<and> a < 4194304 \<and>
     PAGING_PAGE_PRESENT (tbl (nat (a div 256))) \<and>
     pa = uint (PAGING_FPN (tbl (nat (a div 256)))) * 256 + a mod 256)"

lemma addr_split:
  assumes "0 \<le> a" "a < 4194304"
  shows "uint (PAGING_PGN (u32_of_int a)) = a div 256" "uint (PAGING_OFFST (u32_of_int a)) = a mod 256"
  using assms by (simp_all add: uint_PAGING_PGN uint_PAGING_OFFST uint_u32_of_int)

lemma phys_addr_eq: "0 \<le> f \<Longrightarrow> f < 8192 \<Longrightarrow> 0 \<le> off \<Longrightarrow> off < 256 \<Longrightarrow> phys_addr f off = Inr (f * 256 + off)"
  by (simp add: phys_addr_def addr_bits push_bit_eq_mult)

lemma pg_getpage_resident:
  assumes "resident c a pa"
  obtains f where "pg_getpage c (a div 256) = Inr (0, c, Some f)" "phys_addr f (a mod 256) = Inr pa"
proof -
  from assms obtain m tbl where m: "mm c = Some m" "pgd m = Some tbl" "0 \<le> a" "a < 4194304"
    "PAGING_PAGE_PRESENT (tbl (nat (a div 256)))" "pa = uint (PAGING_FPN (tbl (nat (a div 256)))) * 256 + a mod 256"
    by (auto simp: resident_def)
  then have "pg_getpage c (a div 256) = Inr (0, c, Some (uint (PAGING_FPN (tbl (nat (a div 256))))))"
    by (intro pg_getpage_present) auto
  moreover have "phys_addr (uint (PAGING_FPN (tbl (nat (a div 256))))) (a mod 256) = Inr pa"
    using m(6) by (simp only:) (intro phys_addr_eq uint_PAGING_FPN_bounds; simp)
  ultimately show ?thesis by (rule that)
qed

lemma pg_setval_resident:
  assumes "resident c a pa" "random_cell (mram c) pa"
  shows "\<exists>ram. MEMPHY_write (mram c) pa b = Inr (0, ram) \<and> pg_setval c a b = Inr (0, c\<lparr>mram := ram\<rparr>)"
proof -
  obtain f where "pg_getpage c (a div 256) = Inr (0, c, Some f)" "phys_addr f (a mod 256) = Inr pa"
    using assms(1) by (rule pg_getpage_resident)
  moreover obtain ram where "MEMPHY_write (mram c) pa b = Inr (0, ram)"
    using ram.wr_valid assms(2) by blast
  moreover have "0 \<le> a" "a < 4194304" using assms(1) by (auto simp: resident_def)
  ultimately show ?thesis by (simp add: pg_setval_def addr_split Let_def)
qed

lemma pg_getval_resident:
  assumes "resident c a pa" "random_cell (mram c) pa"
  shows "pg_getval c a = Inr (0, c, Some (cell (mram c) pa))"
proof -
  obtain f where "pg_getpage c (a div 256) = Inr (0, c, Some f)" "phys_addr f (a mod 256) = Inr pa"
    using assms(1) by (rule pg_getpage_resident)
  moreover obtain m tbl where "mm c = Some m" "pgd m = Some tbl" "0 \<le> a" "a < 4194304"
    using assms(1) by (auto simp: resident_def)
  moreover have "0 \<le> a div 256" "a div 256 < 16384"
    using calculation(5,6) by auto
  ultimately show ?thesis
    by (simp add: pg_getval_def addr_split Let_def pgd_get_def PAGING_MAX_PGN_eq ram.rd_valid [OF assms(2)])
qed

lemma resident_mram [simp]: "resident (c\<lparr>mram := r\<rparr>) a pa = resident c a pa"
  by (simp add: resident_def)

lemma pg_set_get:
  assumes "resident c a pa" "random_cell (mram c) pa"
  shows "\<exists>c'. pg_setval c a b = Inr (0, c') \<and> pg_getval c' a = Inr (0, c', Some b)"
proof -
  obtain ram where w: "MEMPHY_write (mram c) pa b = Inr (0, ram)" and s: "pg_setval c a b = Inr (0, c\<lparr>mram := ram\<rparr>)"
    using pg_setval_resident [OF assms] by blast
  have "random_cell ram pa" "cell ram pa = b"
    using ram.wr_keeps_valid [OF assms(2) w] ram.wr_peek [OF assms(2) w assms(2)] assms(2) by simp_all
  with assms(1) s show ?thesis by (simp add: pg_getval_resident)
qed

text \<open>Offset \<open>off\<close> of region \<open>rgid\<close> is the virtual address \<open>a\<close>.\<close>

definition region_byte :: "caller_t \<Rightarrow> u32 \<Rightarrow> u32 \<Rightarrow> int \<Rightarrow> bool" where
  "region_byte c rgid off a \<longleftrightarrow> (\<exists>m v. mm c = Some m \<and> one_area m v \<and> length (symrgtbl m) = 30 \<and>
     0 \<le> int_of_u32 rgid \<and> int_of_u32 rgid < 30 \<and>
     a = int_of_ulong (rg_start (symrgtbl m ! nat (int_of_u32 rgid)) + ulong_of_int (int_of_u32 off)))"

lemma pgtbl_rows_total:
  "pgd m = Some tbl \<Longrightarrow> 0 \<le> p \<Longrightarrow> p + int n \<le> 16384 \<Longrightarrow> \<exists>rows. pgtbl_rows m p n = Inr rows"
proof (induction n arbitrary: p)
  case (Suc n)
  then obtain rows where "pgtbl_rows m (p + 1) n = Inr rows" by fastforce
  with Suc.prems show ?case by (simp add: pgd_get_def PAGING_MAX_PGN_eq)
qed simp

lemma print_pgtbl_total:
  assumes "mm c = Some m" "one_area m v" "pgd m = Some tbl"
  shows "\<exists>rows. print_pgtbl c 0 (-1) = Inr (0, rows)"
proof -
  let ?n = "uint (PAGING_PGN (ucast (vm_end v)))"
  have "0 \<le> ?n" "?n \<le> 16384" by (simp_all add: uint_PAGING_PGN order_less_imp_le)
  then obtain rows where "pgtbl_rows m 0 (nat ?n) = Inr rows"
    using pgtbl_rows_total [OF assms(3), of 0 "nat ?n"] by auto
  with assms(1,2) show ?thesis
    by (auto simp: print_pgtbl_def area_simps Let_def uint_PAGING_PGN)
qed

lemma mm_access_region:
  assumes "region_byte c rgid off a"
  shows "mm_read c 0 (int_of_u32 rgid) (int_of_u32 off) = pg_getval c a"
    and "mm_write c 0 (int_of_u32 rgid) (int_of_u32 off) b = pg_setval c a b"
  using assms
  by (auto simp: region_byte_def mm_read_def mm_write_def area_simps get_symrg_byid_def
      PAGING_MAX_SYMTBL_SZ_def region_addr_def arr_get_def)

lemma region_byte_mram [simp]: "region_byte (c\<lparr>mram := r\<rparr>) rgid off a = region_byte c rgid off a"
  by (simp add: region_byte_def)

lemma print_pgtbl_region:
  assumes "region_byte c rgid off a" "resident c a pa"
  shows "\<exists>rows. print_pgtbl c 0 (-1) = Inr (0, rows)"
  using assms print_pgtbl_total by (fastforce simp: region_byte_def resident_def)

lemma libwrite_resident:
  assumes "region_byte c rgid off a" "resident c a pa" "random_cell (mram c) pa"
  shows "\<exists>ram. MEMPHY_write (mram c) pa b = Inr (0, ram) \<and> libwrite c b rgid off = Inr (0, c\<lparr>mram := ram\<rparr>)"
  using pg_setval_resident [OF assms(2,3)] print_pgtbl_region [OF assms(1,2)]
  by (auto simp: libwrite_def mm_access_region [OF assms(1)])

lemma libread_resident:
  assumes "region_byte c rgid off a" "resident c a pa" "random_cell (mram c) pa"
  shows "libread c rgid off True = Inr (0, c, u32_of_byte (cell (mram c) pa))"
  using pg_getval_resident [OF assms(2,3)] print_pgtbl_region [OF assms(1,2)]
  by (auto simp: libread_def mm_access_region [OF assms(1)])

section \<open>The mutex is always given back\<close>

text \<open>
  \<open>safe P r\<close>: the computation \<open>r\<close> does not block on its own mutex, and if it returns, the
  result satisfies \<open>P\<close>.
\<close>

definition safe :: "('a \<Rightarrow> bool) \<Rightarrow> 'a result \<Rightarrow> bool" where
  "safe P r \<longleftrightarrow> (case r of Inl e \<Rightarrow> e \<noteq> Self_Deadlock | Inr x \<Rightarrow> P x)"

named_theorems safe_intros \<open>computations that do not touch the mutex\<close>

lemma safe_Inr [simp]: "safe P (Inr x) = P x"
  by (simp add: safe_def)

lemma safe_Inl [simp]: "safe P (Inl e) = (e \<noteq> Self_Deadlock)"
  by (simp add: safe_def)

lemma safe_and_then:
  assumes "safe Q m" "\<And>x. m = Inr x \<Longrightarrow> Q x \<Longrightarrow> safe P (f x)"
  shows "safe P (and_then m f)"
  using assms by (cases m) auto

lemma safe_bind:
  assumes "safe (\<lambda>_. True) m" "\<And>x. m = Inr x \<Longrightarrow> safe P (f x)"
  shows "safe P (and_then m f)"
  using assms by (rule safe_and_then)

lemma safe_basic [safe_intros]:
  "safe (\<lambda>_. True) (deref p)" "safe (\<lambda>_. True) (initialised w)" "safe (\<lambda>_. True) (c_int i)"
  "safe (\<lambda>_. True) (arr_get xs i)" "safe (\<lambda>_. True) (arr_set xs i x)"
  "safe (\<lambda>_. True) (load_cell d i)" "safe (\<lambda>_. True) (store_cell d i b)"
  by (cases p; cases w; simp add: c_int_def arr_get_def arr_set_def load_cell_def store_cell_def)+

lemma safe_chain_nth [safe_intros]: "safe (\<lambda>_. True) (chain_nth c n)"
  by (induction c arbitrary: n) (auto split: nat.splits)

lemma safe_vma_walk: "safe (\<lambda>_. True) (vma_walk vs k i)"
  by (induction vs k i rule: vma_walk.induct) auto

lemma safe_lookup [safe_intros]:
  "safe (\<lambda>_. True) (get_vma_by_num m i)" "safe (\<lambda>_. True) (vma_at m p)"
  "safe (\<lambda>_. True) (pgd_get m i)" "safe (\<lambda>_. True) (pgd_set m i e)"
  "safe (\<lambda>_. True) (PAGING_PAGE_ALIGNSZ i)"
  by (auto simp: get_vma_by_num_def vma_at_def pgd_get_def pgd_set_def PAGING_PAGE_ALIGNSZ_def
      DIV_ROUND_UP_def safe_vma_walk intro!: safe_bind safe_intros)

lemma safe_memphy [safe_intros]:
  "safe (\<lambda>_. True) (MEMPHY_read mp a)" "safe (\<lambda>_. True) (MEMPHY_write mp a b)"
  "safe (\<lambda>_. True) (MEMPHY_get_freefp d)"
  by (auto simp: MEMPHY_read_def MEMPHY_write_def MEMPHY_get_freefp_def MEMPHY_seq_read_def
      MEMPHY_seq_write_def Let_def split: option.splits chain.splits intro!: safe_bind safe_intros)

lemma safe_swap_cp [safe_intros]: "safe (\<lambda>_. True) (swap_cp_page s sf d df)"
proof -
  have "safe (\<lambda>_. True) (swap_cp_loop s sf d df n)" for n
    by (induction n arbitrary: s d) (auto simp: Let_def intro!: safe_bind safe_intros)
  then show ?thesis by (auto simp: swap_cp_page_def intro!: safe_bind)
qed

lemma safe_overlap_scan [safe_intros]: "safe (\<lambda>_. True) (overlap_scan rs s e)"
  by (induction rs s e rule: overlap_scan.induct) auto

lemma safe_area [safe_intros]:
  "safe (\<lambda>_. True) (get_vm_area_node_at_brk c i s a)" "safe (\<lambda>_. True) (validate_overlap_vm_area c i s e)"
  by (auto simp: get_vm_area_node_at_brk_def validate_overlap_vm_area_def intro!: safe_bind safe_intros)

lemma safe_free_rg_scan: "safe (\<lambda>_. True) (free_rg_scan rs sz r)"
  by (induction rs sz r rule: free_rg_scan.induct) (auto simp: Let_def)

lemma safe_regions [safe_intros]:
  "safe (\<lambda>_. True) (get_free_vmrg_area c i sz)" "safe (\<lambda>_. True) (enlist_vm_freerg_list m rg)"
  "safe (\<lambda>_. True) (set_symrg m i s e)" "safe (\<lambda>_. True) (region_addr m i off)"
  by (auto simp: get_free_vmrg_area_def enlist_vm_freerg_list_def set_symrg_def region_addr_def
      intro!: safe_bind safe_intros safe_free_rg_scan)

lemma safe_unlink_last [safe_intros]: "safe (\<lambda>_. True) (unlink_last c)"
  by (induction c rule: unlink_last.induct) (auto intro!: safe_bind)

lemma safe_print_pgtbl [safe_intros]: "safe (\<lambda>_. True) (print_pgtbl c s e)"
proof -
  have "safe (\<lambda>_. True) (pgtbl_rows m p n)" for m p n
    by (induction n arbitrary: p) (auto intro!: safe_bind safe_intros)
  then show ?thesis by (auto simp: print_pgtbl_def Let_def intro!: safe_bind safe_intros)
qed

text \<open>Functions that hand the caller on without touching the mutex.\<close>

lemma safe_alloc_pages: "safe (\<lambda>(_, c'). mmvm_lock c' = mmvm_lock c) (alloc_pages_loop junk c n)"
proof (induction n arbitrary: c)
  case (Suc n)
  have "safe (\<lambda>(_, c'). mmvm_lock c' = mmvm_lock c) (alloc_pages_loop junk (c\<lparr>mram := r\<rparr>) n)" for r
    using Suc.IH [of "c\<lparr>mram := r\<rparr>"] by simp
  then show ?case by (auto split: chain.splits intro!: safe_bind safe_intros)
qed simp

lemma safe_vmap_loop: "safe (\<lambda>(c', _). mmvm_lock c' = mmvm_lock c) (vmap_loop c a p n i fs rg)"
proof (induction c a p n i fs rg rule: vmap_loop.induct)
  case (3 c addr pgn pgnum pgit fpn nxt ret_rg)
  then show ?case by (auto simp: Let_def intro!: safe_bind safe_intros)
qed auto

lemma safe_vm_map_ram: "safe (\<lambda>(_, c', _). mmvm_lock c' = mmvm_lock c) (vm_map_ram junk c s e p n rg)"
  unfolding vm_map_ram_def alloc_pages_range_def and_then_assoc
  by (auto simp: vmap_page_range_def Let_def and_then_assoc
      intro!: safe_and_then [OF safe_alloc_pages] safe_and_then [OF safe_vmap_loop])

lemma safe_inc_vma_limit: "safe (\<lambda>(_, c'). mmvm_lock c' = mmvm_lock c) (inc_vma_limit junk c i sz)"
  unfolding inc_vma_limit_def Let_def
  by (auto intro!: safe_bind safe_intros safe_and_then [OF safe_vm_map_ram])

lemma safe_lock: "\<not> mmvm_lock c \<Longrightarrow> pthread_mutex_lock c = Inr (c\<lparr>mmvm_lock := True\<rparr>)"
  by (simp add: pthread_mutex_lock_def)

lemma unlock_free [simp]: "\<not> mmvm_lock (pthread_mutex_unlock c)"
  by (simp add: pthread_mutex_unlock_def)

lemma safe_mm_alloc:
  "\<not> mmvm_lock c \<Longrightarrow> safe (\<lambda>(_, c', _). \<not> mmvm_lock c') (mm_alloc junk c i r sz)"
  unfolding mm_alloc_def Let_def
  by (auto simp: safe_lock split: option.splits
      intro!: safe_bind safe_intros safe_and_then [OF safe_inc_vma_limit])

lemma safe_mm_free: "\<not> mmvm_lock c \<Longrightarrow> safe (\<lambda>(_, c'). \<not> mmvm_lock c') (mm_free h c i r)"
  unfolding mm_free_def by (auto simp: safe_lock intro!: safe_bind safe_intros)

lemma safe_find_victim:
  "\<not> mmvm_lock c \<Longrightarrow> safe (\<lambda>(_, c', _). \<not> mmvm_lock c') (find_victim_page c)"
  unfolding find_victim_page_def
  by (auto simp: safe_lock split: option.splits intro!: safe_bind safe_intros)

lemma safe_pg_swap_in:
  "\<not> mmvm_lock c \<Longrightarrow> safe (\<lambda>(_, c', _). \<not> mmvm_lock c') (pg_swap_in c m pgn pte vp vpte)"
  unfolding pg_swap_in_def Let_def by (auto split: option.splits intro!: safe_bind safe_intros)

lemma safe_pg_getpage: "\<not> mmvm_lock c \<Longrightarrow> safe (\<lambda>(_, c', _). \<not> mmvm_lock c') (pg_getpage c pgn)"
  unfolding pg_getpage_def
  by (auto split: option.splits intro!: safe_bind safe_intros safe_pg_swap_in
      safe_and_then [OF safe_find_victim])

lemma safe_pg_access:
  "\<not> mmvm_lock c \<Longrightarrow> safe (\<lambda>(_, c', _). \<not> mmvm_lock c') (pg_getval c a)"
  "\<not> mmvm_lock c \<Longrightarrow> safe (\<lambda>(_, c'). \<not> mmvm_lock c') (pg_setval c a b)"
  unfolding pg_getval_def pg_setval_def Let_def phys_addr_def
  by (auto intro!: safe_bind safe_intros safe_and_then [OF safe_pg_getpage])

lemma safe_lib:
  assumes "\<not> mmvm_lock c"
  shows "safe (\<lambda>(_, c'). \<not> mmvm_lock c') (liballoc h c w r)"
    and "safe (\<lambda>(_, c'). \<not> mmvm_lock c') (libfree h c r)"
    and "safe (\<lambda>(_, c', _). \<not> mmvm_lock c') (libread c r w d)"
    and "safe (\<lambda>(_, c'). \<not> mmvm_lock c') (libwrite c b r w)"
proof -
  show "safe (\<lambda>(_, c'). \<not> mmvm_lock c') (liballoc h c w r)"
    unfolding liballoc_def by (rule safe_and_then [OF safe_mm_alloc [OF assms]]) auto
  show "safe (\<lambda>(_, c'). \<not> mmvm_lock c') (libfree h c r)"
    unfolding libfree_def by (rule safe_mm_free [OF assms])
  have "safe (\<lambda>(_, c', _). \<not> mmvm_lock c') (mm_read c 0 i j)" for i j
    unfolding mm_read_def using assms
    by (auto split: option.splits intro!: safe_bind safe_intros safe_pg_access)
  then show "safe (\<lambda>(_, c', _). \<not> mmvm_lock c') (libread c r w d)"
    unfolding libread_def by (rule safe_and_then) (auto intro!: safe_bind safe_intros)
  show "safe (\<lambda>(_, c'). \<not> mmvm_lock c') (libwrite c b r w)"
    unfolding libwrite_def mm_write_def using assms
    by (auto split: option.splits intro!: safe_bind safe_intros safe_pg_access)
qed

section \<open>Properties\<close>

lemma demo_process:
  "process_ok demo_caller demo_mm \<lparr>vm_id = 0, vm_start = 0, vm_end = 0, sbrk = 0,
     vm_freerg_list = Node \<lparr>rg_start = 0, rg_end = 0\<rparr> NULL\<rparr> small_device"
  by (simp add: process_ok_def demo_caller_def demo_mm_def one_area_def below_brk_def pool_ok_def small_device_def)


text \<open>C33. With enough free frames an allocation returns 0 and the old break, makes the bytes
  from there the region, moves the break and the end of the area up by whole pages, and takes
  one frame per page from the head of the free list of RAM.\<close>

theorem alloc_places_region:
  assumes "process_ok c m v ram" "vmaid \<le> 0" "0 \<le> rgid" "rgid < 30" "0 \<le> sz"
    and "uint (sbrk v) + page_align sz \<le> 2147483391"
    and "nat ((sz + 255) div 256) \<le> length (free_frames ram)"
  shows "\<exists>c' m' v' ram'. mm_alloc junk c vmaid rgid sz = Inr (0, c', Some (uint (sbrk v))) \<and>
     process_ok c' m' v' ram' \<and>
     symrgtbl m' = (symrgtbl m)[nat rgid := \<lparr>rg_start = sbrk v, rg_end = ulong_of_int (uint (sbrk v) + sz)\<rparr>] \<and>
     uint (sbrk v') = uint (sbrk v) + page_align sz \<and> vm_end v' = vm_end v + ulong_of_int (page_align sz) \<and>
     free_frames ram' = drop (nat ((sz + 255) div 256)) (free_frames ram)"
proof -
  let ?n = "nat ((sz + 255) div 256)"
  let ?m = "m\<lparr>mmap := Node (grown v sz) NULL, symrgtbl := (symrgtbl m)[nat rgid :=
              \<lparr>rg_start = sbrk v, rg_end = ulong_of_int (uint (sbrk v) + sz)\<rparr>]\<rparr>"
  have bk: "uint (sbrk (grown v sz)) = uint (sbrk v) + page_align sz"
    using assms(5,6) page_align_bounds [of sz] by (simp add: grown_def uint_add_ulong)
  have "below_brk (grown v sz)" using assms(1,5,6) by (auto intro: below_brk_grown simp: process_ok_def)
  then show ?thesis
    unfolding mm_alloc_spec [OF assms(1-6)] using assms(1,7) bk
    by (intro exI [of _ "c\<lparr>mm := Some ?m, mram := Some (drop_frames ?n ram), mmvm_lock := False\<rparr>"]
          exI [of _ ?m] exI [of _ "grown v sz"] exI [of _ "drop_frames ?n ram"])
      (simp add: process_ok_def one_area_grown pool_ok_drop free_frames_drop, simp add: grown_def)
qed

theorem alloc_places_region_witness:
  "\<exists>c' m'. mm_alloc NULL demo_caller 0 1 300 = Inr (0, c', Some 0) \<and> mm c' = Some m' \<and>
     symrgtbl m' ! 1 = \<lparr>rg_start = 0, rg_end = 300\<rparr>"
  using alloc_places_region [OF demo_process, of 0 1 300 NULL]
  by (auto simp: page_align_def small_device_def process_ok_def ulong_of_int_def demo_mm_def)

text \<open>With too few free frames an allocation still returns 0, stores no address, leaves
  the region table as it was, and takes every free frame of RAM away.\<close>

theorem alloc_without_frames_reports_success:
  assumes "process_ok c m v ram" "vmaid \<le> 0" "0 \<le> rgid" "rgid < 30" "0 \<le> sz"
    and "uint (sbrk v) + page_align sz \<le> 2147483391"
    and "length (free_frames ram) < nat ((sz + 255) div 256)"
  shows "\<exists>c' m' v' ram'. mm_alloc NULL c vmaid rgid sz = Inr (0, c', None) \<and>
     mm c' = Some m' \<and> symrgtbl m' = symrgtbl m \<and> mram c' = Some ram' \<and> free_frames ram' = [] \<and>
     mmap m' = Node v' NULL \<and> sbrk v' = sbrk v"
proof -
  have "pool_ok ram" using assms(1) by (simp add: process_ok_def)
  then have "free_frames (drop_frames (nat ((sz + 255) div 256)) ram) = []"
    using assms(7) by (simp add: free_frames_drop)
  then show ?thesis
    unfolding mm_alloc_spec [OF assms(1-6)] using assms(7) by (simp add: grow_end_def)
qed

theorem alloc_without_frames_reports_success_witness:
  "\<exists>c' ram'. mm_alloc NULL demo_caller 0 1 600 = Inr (0, c', None) \<and> mram c' = Some ram' \<and> free_frames ram' = []"
  using alloc_without_frames_reports_success [OF demo_process, of 0 1 600]
  by (auto simp: page_align_def small_device_def)



text \<open>The search for a free region never succeeds: it reports -1 at the end of the list
  even when a region fits, so freed memory is never handed out again.\<close>

theorem free_regions_never_reused:
  assumes "get_free_vmrg_area c vmaid sz = Inr (code, rg)"
  shows "code = -1"
  using assms by (rule get_free_vmrg_area_code)

theorem free_regions_never_reused_witness:
  "\<exists>code rg. get_free_vmrg_area (demo_caller\<lparr>mm := Some (demo_mm\<lparr>mmap := Node \<lparr>vm_id = 0, vm_start = 0,
       vm_end = 512, sbrk = 512, vm_freerg_list = Node \<lparr>rg_start = 0, rg_end = 512\<rparr> NULL\<rparr> NULL\<rparr>)\<rparr>) 0 100 =
     Inr (code, rg) \<and> code = -1"
proof -
  let ?c = "demo_caller\<lparr>mm := Some (demo_mm\<lparr>mmap := Node \<lparr>vm_id = 0, vm_start = 0,
       vm_end = 512, sbrk = 512, vm_freerg_list = Node \<lparr>rg_start = 0, rg_end = 512\<rparr> NULL\<rparr> NULL\<rparr>)\<rparr>"
  have "\<exists>code rg. get_free_vmrg_area ?c 0 100 = Inr (code, rg)"
    by (simp add: get_free_vmrg_area_def get_vma_by_num_def vma_at_def int_of_ulong_def)
  then show ?thesis using free_regions_never_reused [of ?c 0 100] by blast
qed

text \<open>C13. Writing a byte of a region whose page is in RAM and reading any byte of any region
  in RAM: the read gives the written byte when both are the same cell, and what was there
  before otherwise. The page table stays as it is.\<close>

theorem libwrite_libread:
  assumes "region_byte c rgid off a" "resident c a pa" "random_cell (mram c) pa"
    and "region_byte c rgid' off' a'" "resident c a' pa'" "random_cell (mram c) pa'"
  shows "\<exists>c'. libwrite c b rgid off = Inr (0, c') \<and> mm c' = mm c \<and>
     libread c' rgid' off' True = Inr (0, c', u32_of_byte (if pa' = pa then b else cell (mram c) pa'))"
proof -
  obtain r where w: "MEMPHY_write (mram c) pa b = Inr (0, r)" and l: "libwrite c b rgid off = Inr (0, c\<lparr>mram := r\<rparr>)"
    using libwrite_resident [OF assms(1-3)] by blast
  have "random_cell r pa'" "cell r pa' = (if pa' = pa then b else cell (mram c) pa')"
    using ram.wr_keeps_valid [OF assms(3) w] ram.wr_peek [OF assms(3) w assms(6)] assms(6) by simp_all
  with l show ?thesis
    using libread_resident [of "c\<lparr>mram := r\<rparr>" rgid' off' a' pa'] assms(4,5) by simp
qed

text \<open>The victim of a page fault is the page that was listed first among those on the
  FIFO list; it leaves the list and the mutex is free again. With an empty list there is no
  victim.\<close>

theorem find_victim_page_fifo:
  assumes "\<not> mmvm_lock c" "mm c = Some m" "grounded (fifo_pgn m)"
  shows "find_victim_page c =
     (if chain_list (fifo_pgn m) = [] then Inr (-1, c, None)
      else Inr (0, c\<lparr>mm := Some (m\<lparr>fifo_pgn := chain_of (butlast (chain_list (fifo_pgn m)))\<rparr>)\<rparr>,
                Some (last (chain_list (fifo_pgn m)))))"
proof (cases "chain_list (fifo_pgn m) = []")
  case True
  with assms have "fifo_pgn m = NULL" by (cases "fifo_pgn m") auto
  with assms(1,2) True show ?thesis
    by (simp add: find_victim_page_def pthread_mutex_lock_def pthread_mutex_unlock_def)
next
  case False
  let ?l = "chain_list (fifo_pgn m)"
  have "fifo_pgn m = chain_of (butlast ?l @ [last ?l])"
    using False assms(3) by (simp add: chain_of_list)
  from find_victim_page_spec [OF assms(1,2) this] False show ?thesis by simp
qed

theorem find_victim_page_fifo_witness:
  "find_victim_page (demo_caller\<lparr>mm := Some (demo_mm\<lparr>fifo_pgn := chain_of [4, 2, 9]\<rparr>)\<rparr>) =
     Inr (0, demo_caller\<lparr>mm := Some (demo_mm\<lparr>fifo_pgn := chain_of [4, 2]\<rparr>)\<rparr>, Some 9)"
  using find_victim_page_fifo [of "demo_caller\<lparr>mm := Some (demo_mm\<lparr>fifo_pgn := chain_of [4, 2, 9]\<rparr>)\<rparr>"]
  by (simp add: demo_caller_def)

text \<open>A caller whose page 0 is in frame 1 and whose page 1 is in swap frame 1.\<close>

definition demo_mapped_mm :: mm_struct where
  "demo_mapped_mm = demo_mm\<lparr>pgd := Some (\<lambda>p. if p = 0 then snd (pte_set_fpn 0 1) else 32),
     symrgtbl := (replicate 30 \<lparr>rg_start = 0, rg_end = 0\<rparr>)[1 := \<lparr>rg_start = 0, rg_end = 200\<rparr>],
     fifo_pgn := chain_of [0]\<rparr>"

definition demo_mapped :: caller_t where
  "demo_mapped = demo_caller\<lparr>mm := Some demo_mapped_mm\<rparr>"

lemma demo_mapped_ptes:
  "PAGING_PAGE_PRESENT (snd (pte_set_fpn 0 1))" "uint (PAGING_FPN (snd (pte_set_fpn 0 1))) = 1"
  "\<not> PAGING_PAGE_PRESENT 32" "uint (PAGING_PTE_SWP 32) = 1"
proof -
  show "PAGING_PAGE_PRESENT (snd (pte_set_fpn 0 1))" "uint (PAGING_FPN (snd (pte_set_fpn 0 1))) = 1"
    using pte_set_fpn_fields [where pte = 0 and fpn = 1] by (simp_all add: u32_of_int_def)
  show "\<not> PAGING_PAGE_PRESENT 32" "uint (PAGING_PTE_SWP 32) = 1" by code_simp+
qed

theorem libwrite_libread_witness:
  "\<exists>c'. libwrite demo_mapped 42 1 10 = Inr (0, c') \<and> libread c' 1 10 True = Inr (0, c', 42)"
proof -
  have 1: "region_byte demo_mapped 1 10 10"
    by (simp add: region_byte_def demo_mapped_def demo_mapped_mm_def demo_caller_def demo_mm_def one_area_def
        int_of_u32_def ulong_of_int_def int_of_ulong_def)
  have 2: "resident demo_mapped 10 266"
    by (simp add: resident_def demo_mapped_def demo_mapped_mm_def demo_mapped_ptes)
  have 3: "random_cell (mram demo_mapped) 266"
    by (simp add: random_cell_def demo_mapped_def demo_caller_def small_device_def)
  from libwrite_libread [OF 1 2 3 1 2 3, of 42] show ?thesis
    by (auto simp: u32_of_byte_def)
qed

text \<open>C17. A page fault with a victim in RAM, the wanted page in swap and a free swap frame:
  the call returns the victim's frame, which now holds the wanted page; the victim's bytes
  are in the swap frame its entry names; the freed swap frame is first on the swap free
  list; and no other frame of either device changes.\<close>

theorem page_fault_moves_pages:
  assumes "mm c = Some m" "pgd m = Some tbl" "\<not> mmvm_lock c" "mram c = Some ram" "active_mswp c = Some swp"
    and "fifo_pgn m = chain_of (pgs @ [vp])"
    and "0 \<le> pgn" "pgn < 16384" "\<not> PAGING_PAGE_PRESENT (tbl (nat pgn))"
    and "0 \<le> vp" "vp < 16384" "PAGING_PAGE_PRESENT (tbl (nat vp))"
    and "vf = uint (PAGING_FPN (tbl (nat vp)))" "has_frame ram vf"
    and "tf = uint (PAGING_PTE_SWP (tbl (nat pgn)))" "has_frame swp tf"
    and "free_fp_list swp = Node sf rest" "has_frame swp sf" "sf \<noteq> tf" "sf < 2097152"
  shows "\<exists>c' m' tbl' ram' swp'. pg_getpage c pgn = Inr (0, c', Some vf) \<and>
     mm c' = Some m' \<and> pgd m' = Some tbl' \<and> mram c' = Some ram' \<and> active_mswp c' = Some swp' \<and>
     (\<forall>i < 256. page_of ram' vf i = page_of swp tf i) \<and> (\<forall>i < 256. page_of swp' sf i = page_of ram vf i) \<and>
     uint (PAGING_PTE_SWP (tbl' (nat vp))) = sf \<and> free_fp_list swp' = Node tf rest \<and>
     (\<forall>f i. 0 \<le> f \<and> i < 256 \<longrightarrow> (f \<noteq> vf \<longrightarrow> page_of ram' f i = page_of ram f i) \<and>
        (f \<noteq> sf \<longrightarrow> page_of swp' f i = page_of swp f i)) \<and>
     fifo_pgn m' = chain_of (pgn # pgs)"
proof -
  let ?s = "put_page swp sf (page_of ram vf)"
  have pos: "0 \<le> vf" "0 \<le> sf" using assms(14,18) by (simp_all add: has_frame_def)
  have sp: "page_of (?s\<lparr>free_fp_list := Node tf rest\<rparr>) f i = page_of ?s f i" for f i
    by (simp add: page_of_def)
  have swp: "uint (PAGING_PTE_SWP (snd (pte_set_swap (tbl (nat vp)) 0 sf))) = sf"
    using pte_set_swap_fields(3) [of sf "tbl (nat vp)" 0] pos assms(20) by (simp add: uint_u32_of_int)
  show ?thesis
    unfolding pg_getpage_fault [OF assms(1-19)] swapped_in_def
    using pos swp by (auto simp: sp page_of_put_page page_of_put_other)
qed

lemma demo_fault:
  "mm demo_mapped = Some demo_mapped_mm" "pgd demo_mapped_mm = Some (\<lambda>p. if p = 0 then snd (pte_set_fpn 0 1) else 32)"
  "\<not> mmvm_lock demo_mapped" "mram demo_mapped = Some small_device" "active_mswp demo_mapped = Some small_device"
  "fifo_pgn demo_mapped_mm = chain_of ([] @ [0])" "has_frame small_device 0" "has_frame small_device 1"
  "free_fp_list small_device = Node 0 (Node 1 NULL)"
  by (simp_all add: demo_mapped_def demo_mapped_mm_def demo_caller_def has_frame_def small_device_def)

theorem page_fault_moves_pages_witness:
  "\<exists>c' ram'. pg_getpage demo_mapped 1 = Inr (0, c', Some 1) \<and> mram c' = Some ram' \<and>
     page_of ram' 1 3 = page_of small_device 1 3"
proof -
  note h = page_fault_moves_pages [OF demo_fault(1-6), of 1 1 1 0 "Node 1 NULL"]
  have "\<exists>c' m' tbl' ram' swp'. pg_getpage demo_mapped 1 = Inr (0, c', Some 1) \<and>
     mm c' = Some m' \<and> pgd m' = Some tbl' \<and> mram c' = Some ram' \<and> active_mswp c' = Some swp' \<and>
     (\<forall>i < 256. page_of ram' 1 i = page_of small_device 1 i)"
    using h by (simp add: demo_mapped_ptes demo_fault) blast
  then obtain c' ram' where "pg_getpage demo_mapped 1 = Inr (0, c', Some 1)" "mram c' = Some ram'"
    "\<forall>i < 256. page_of ram' 1 i = page_of small_device 1 i" by blast
  then show ?thesis by auto
qed

text \<open>C34. The same page fault leaves the page table wrong: the entry of the page that came in
  is still not present, so the next access faults again, and the entry of the victim still
  counts as present, with a frame number made of its swap offset.\<close>

theorem page_fault_leaves_stale_entries:
  assumes "mm c = Some m" "pgd m = Some tbl" "\<not> mmvm_lock c" "mram c = Some ram" "active_mswp c = Some swp"
    and "fifo_pgn m = chain_of (pgs @ [vp])"
    and "0 \<le> pgn" "pgn < 16384" "\<not> PAGING_PAGE_PRESENT (tbl (nat pgn))"
    and "0 \<le> vp" "vp < 16384" "PAGING_PAGE_PRESENT (tbl (nat vp))"
    and "vf = uint (PAGING_FPN (tbl (nat vp)))" "has_frame ram vf"
    and "tf = uint (PAGING_PTE_SWP (tbl (nat pgn)))" "has_frame swp tf"
    and "free_fp_list swp = Node sf rest" "has_frame swp sf" "sf \<noteq> tf" "sf < 2097152"
  shows "\<exists>c' m' tbl'. pg_getpage c pgn = Inr (0, c', Some vf) \<and> mm c' = Some m' \<and> pgd m' = Some tbl' \<and>
     tbl' (nat pgn) = tbl (nat pgn) \<and> PAGING_PAGE_PRESENT (tbl' (nat vp)) \<and>
     pg_getpage c' vp = Inr (0, c', Some (uint (PAGING_FPN (tbl' (nat vp)))))"
proof -
  let ?c = "swapped_in c m tbl pgn vp pgs ram vf swp tf sf rest"
  let ?e = "snd (pte_set_swap (tbl (nat vp)) 0 sf)"
  let ?m = "m\<lparr>pgd := Some (tbl(nat vp := ?e)), fifo_pgn := chain_of (pgn # pgs)\<rparr>"
  have m: "mm ?c = Some ?m" "pgd ?m = Some (tbl(nat vp := ?e))" by (simp_all add: swapped_in_def)
  have "PAGING_PAGE_PRESENT ((tbl(nat vp := ?e)) (nat vp))" using pte_set_swap_fields(1) by simp
  note again = pg_getpage_present [OF m assms(10,11) this]
  have "nat pgn \<noteq> nat vp" using assms(9,12) by metis
  then show ?thesis
    unfolding pg_getpage_fault [OF assms(1-19)] using m again pte_set_swap_fields(1) by auto
qed

theorem page_fault_leaves_stale_entries_witness:
  "\<exists>c' m' tbl'. pg_getpage demo_mapped 1 = Inr (0, c', Some 1) \<and> mm c' = Some m' \<and> pgd m' = Some tbl' \<and>
     \<not> PAGING_PAGE_PRESENT (tbl' 1)"
proof -
  note h = page_fault_leaves_stale_entries [OF demo_fault(1-6), of 1 1 1 0 "Node 1 NULL"]
  have "\<exists>c' m' tbl'. pg_getpage demo_mapped 1 = Inr (0, c', Some 1) \<and> mm c' = Some m' \<and> pgd m' = Some tbl' \<and>
     tbl' 1 = 32"
    using h by (simp add: demo_mapped_ptes demo_fault) blast
  then show ?thesis using demo_mapped_ptes(3) by metis
qed

text \<open>No memory call of a process blocks on its own mutex, and every call that returns
  has released it, on success and on each error path.\<close>

theorem memory_calls_release_mutex:
  assumes "\<not> mmvm_lock c"
  shows "liballoc h c sz reg \<noteq> Inl Self_Deadlock \<and> libfree h c reg \<noteq> Inl Self_Deadlock \<and>
     libread c reg off d \<noteq> Inl Self_Deadlock \<and> libwrite c b reg off \<noteq> Inl Self_Deadlock \<and>
     (\<forall>code c'. liballoc h c sz reg = Inr (code, c') \<longrightarrow> \<not> mmvm_lock c') \<and>
     (\<forall>code c'. libfree h c reg = Inr (code, c') \<longrightarrow> \<not> mmvm_lock c') \<and>
     (\<forall>code c' w. libread c reg off d = Inr (code, c', w) \<longrightarrow> \<not> mmvm_lock c') \<and>
     (\<forall>code c'. libwrite c b reg off = Inr (code, c') \<longrightarrow> \<not> mmvm_lock c')"
proof (intro conjI allI impI)
  note s = safe_lib [OF assms]
  show "liballoc h c sz reg \<noteq> Inl Self_Deadlock" using s(1) [of h sz reg] by auto
  show "libfree h c reg \<noteq> Inl Self_Deadlock" using s(2) [of h reg] by auto
  show "libread c reg off d \<noteq> Inl Self_Deadlock" using s(3) [of reg off d] by auto
  show "libwrite c b reg off \<noteq> Inl Self_Deadlock" using s(4) [of b reg off] by auto
  fix code c'
  show "liballoc h c sz reg = Inr (code, c') \<Longrightarrow> \<not> mmvm_lock c'" using s(1) [of h sz reg] by auto
  show "libfree h c reg = Inr (code, c') \<Longrightarrow> \<not> mmvm_lock c'" using s(2) [of h reg] by auto
  show "libwrite c b reg off = Inr (code, c') \<Longrightarrow> \<not> mmvm_lock c'" using s(4) [of b reg off] by auto
  fix w
  show "libread c reg off d = Inr (code, c', w) \<Longrightarrow> \<not> mmvm_lock c'" using s(3) [of reg off d] by auto
qed

theorem memory_calls_release_mutex_witness:
  "\<exists>c'. libwrite demo_caller 42 40 0 = Inr (-1, c') \<and> \<not> mmvm_lock c'"
proof -
  have "\<exists>rows. print_pgtbl demo_caller 0 (-1) = Inr (0, rows)"
    using print_pgtbl_total [of demo_caller demo_mm] demo_process
    by (auto simp: process_ok_def) (simp add: demo_mm_def)
  then have "\<exists>c'. libwrite demo_caller 42 40 0 = Inr (-1, c')"
    by (auto simp: libwrite_def mm_write_def demo_caller_def demo_mm_def get_vma_by_num_def int_of_u32_def
        get_symrg_byid_def PAGING_MAX_SYMTBL_SZ_def int_of_ulong_def)
  moreover have "\<not> mmvm_lock demo_caller" by (simp add: demo_caller_def)
  ultimately show ?thesis using memory_calls_release_mutex [of demo_caller] by blast
qed

text \<open>Region ids: freeing refuses every id outside the 30 entries of the region table,
  reading and writing refuse negative ids and ids above 30; but id 30 passes their test and
  the access goes past the end of the table.\<close>

theorem region_id_bounds:
  assumes "process_ok c m v ram"
  shows "(\<forall>rgid. rgid < 0 \<or> 30 \<le> rgid \<longrightarrow> mm_free h c 0 rgid = Inr (-1, c)) \<and>
     (\<forall>rgid. rgid < 0 \<or> 30 < rgid \<longrightarrow> mm_read c 0 rgid off = Inr (-1, c, None) \<and> mm_write c 0 rgid off b = Inr (-1, c)) \<and>
     mm_read c 0 30 off = Inl Out_Of_Bounds \<and> mm_write c 0 30 off b = Inl Out_Of_Bounds"
  using assms
  by (auto simp: process_ok_def mm_free_def mm_read_def mm_write_def area_simps get_symrg_byid_def
      PAGING_MAX_SYMTBL_SZ_def region_addr_def arr_get_def)

theorem region_id_bounds_witness:
  "mm_read demo_caller 0 30 0 = Inl Out_Of_Bounds \<and> mm_read demo_caller 0 31 0 = Inr (-1, demo_caller, None)"
  using region_id_bounds [OF demo_process] by simp

text \<open>With no page present and no page on the FIFO list, nothing can be accessed.\<close>

definition no_pages :: "caller_t \<Rightarrow> bool" where
  "no_pages c \<longleftrightarrow> \<not> mmvm_lock c \<and> (\<exists>m tbl. mm c = Some m \<and> pgd m = Some tbl \<and> fifo_pgn m = NULL \<and>
     (\<forall>p. \<not> PAGING_PAGE_PRESENT (tbl p)))"

lemma no_pages_getpage:
  assumes "no_pages c" "0 \<le> pgn" "pgn < 16384"
  shows "pg_getpage c pgn = Inr (-1, c, None)"
proof -
  obtain m tbl where m: "mm c = Some m" "pgd m = Some tbl" "fifo_pgn m = NULL" "\<not> mmvm_lock c"
    "\<not> PAGING_PAGE_PRESENT (tbl (nat pgn))" using assms(1) by (auto simp: no_pages_def)
  moreover from m(4) have "c\<lparr>mmvm_lock := False\<rparr> = c" by simp
  ultimately show ?thesis
    using assms(2,3)
    by (simp add: pg_getpage_def pgd_get_def PAGING_MAX_PGN_eq find_victim_page_def pthread_mutex_lock_def
        pthread_mutex_unlock_def)
qed

lemma no_pages_access:
  assumes "no_pages c"
  shows "pg_getval c a = Inr (-1, c, None)" "pg_setval c a b = Inr (-1, c)"
proof -
  let ?p = "uint (PAGING_PGN (u32_of_int a))"
  have p: "0 \<le> ?p" "?p < 16384" by (simp_all add: uint_PAGING_PGN)
  obtain m tbl where "mm c = Some m" "pgd m = Some tbl" using assms by (auto simp: no_pages_def)
  with p no_pages_getpage [OF assms p] show "pg_getval c a = Inr (-1, c, None)" "pg_setval c a b = Inr (-1, c)"
    by (simp_all add: pg_getval_def pg_setval_def pgd_get_def PAGING_MAX_PGN_eq Let_def)
qed

text \<open>A process none of whose pages is present can allocate a region, with frames taken
  from RAM and code 0, but cannot use it: every read and every write of the region returns
  -1.\<close>

theorem fresh_region_is_unusable:
  assumes "process_ok c m v ram" "no_pages c"
    and "0 \<le> int_of_u32 reg" "int_of_u32 reg < 30" "0 \<le> int_of_u32 sz"
    and "uint (sbrk v) + page_align (int_of_u32 sz) \<le> 2147483391"
    and "nat ((int_of_u32 sz + 255) div 256) \<le> length (free_frames ram)"
  shows "\<exists>c'. liballoc h c sz reg = Inr (0, c') \<and>
     (\<forall>off b. libwrite c' b reg off = Inr (-1, c') \<and> libread c' reg off True = Inr (-1, c', -1))"
proof -
  let ?sz = "int_of_u32 sz"
  let ?m = "m\<lparr>mmap := Node (grown v ?sz) NULL, symrgtbl := (symrgtbl m)[nat (int_of_u32 reg) :=
              \<lparr>rg_start = sbrk v, rg_end = ulong_of_int (uint (sbrk v) + ?sz)\<rparr>]\<rparr>"
  let ?c = "c\<lparr>mm := Some ?m, mram := Some (drop_frames (nat ((?sz + 255) div 256)) ram), mmvm_lock := False\<rparr>"
  have run: "liballoc h c sz reg = Inr (0, ?c)"
    using mm_alloc_spec [OF assms(1) order_refl assms(3-6)] assms(7) by (simp add: liballoc_def)
  from assms(1) have m: "mm c = Some m" "one_area m v" "length (symrgtbl m) = 30"
    by (simp_all add: process_ok_def)
  obtain tbl where tbl: "pgd ?m = Some tbl" using assms(2) m(1) by (auto simp: no_pages_def)
  have np: "no_pages ?c" using assms(2) m(1) by (auto simp: no_pages_def)
  have area: "one_area ?m (grown v ?sz)" by (rule one_area_grown [OF m(2)])
  obtain rows where rows: "print_pgtbl ?c 0 (-1) = Inr (0, rows)"
    using print_pgtbl_total [of ?c ?m, OF _ area tbl] by auto
  have "region_byte ?c reg off
      (int_of_ulong (rg_start (symrgtbl ?m ! nat (int_of_u32 reg)) + ulong_of_int (int_of_u32 off)))" for off
    unfolding region_byte_def using area m(3) assms(3,4)
    by (intro exI [of _ ?m] exI [of _ "grown v ?sz"]) simp
  note access = mm_access_region [OF this]
  have "libwrite ?c b reg off = Inr (-1, ?c) \<and> libread ?c reg off True = Inr (-1, ?c, -1)" for off b
    by (simp add: libwrite_def libread_def rows access no_pages_access [OF np])
  with run show ?thesis by blast
qed

theorem fresh_region_is_unusable_witness:
  "\<exists>c'. liballoc \<lparr>malloc_ok = True, fp_junk = NULL\<rparr> demo_caller 300 1 = Inr (0, c') \<and>
     libwrite c' 42 1 0 = Inr (-1, c')"
proof -
  have args: "int_of_u32 1 = 1" "int_of_u32 300 = 300" by (simp_all add: int_of_u32_def)
  have "\<not> PAGING_PAGE_PRESENT 0" by code_simp
  then have "no_pages demo_caller" by (simp add: no_pages_def demo_caller_def demo_mm_def)
  from fresh_region_is_unusable [OF demo_process this, of 1 300 "\<lparr>malloc_ok = True, fp_junk = NULL\<rparr>"]
  show ?thesis by (auto simp: args page_align_def small_device_def)
qed

text \<open>What the loop of \<open>free_pcb_memph\<close> puts on the two free lists.\<close>

definition collected :: "(nat \<Rightarrow> u32) \<Rightarrow> bool \<Rightarrow> nat list \<Rightarrow> int list" where
  "collected tbl pres ps = map (\<lambda>p. if pres then uint (PAGING_PTE_SWP (tbl p)) else uint (PAGING_PTE_FPN (tbl p)))
     (filter (\<lambda>p. PAGING_PAGE_PRESENT (tbl p) = pres) ps)"

lemma free_pcb_loop_spec:
  assumes "mm c = Some m" "pgd m = Some tbl" "mram c = Some ram" "pool_ok ram"
    and "active_mswp c = Some swp" "pool_ok swp" "p + n \<le> 16384"
  shows "\<exists>ram' swp'. free_pcb_loop c (int p) n = Inr (c\<lparr>mram := Some ram', active_mswp := Some swp'\<rparr>) \<and>
     free_frames ram' = rev (collected tbl False [p..<p + n]) @ free_frames ram \<and>
     free_frames swp' = rev (collected tbl True [p..<p + n]) @ free_frames swp"
  using assms
proof (induction n arbitrary: p c ram swp)
  case 0
  have "c\<lparr>mram := Some ram, active_mswp := Some swp\<rparr> = c" using 0 by simp
  then show ?case by (intro exI [of _ ram] exI [of _ swp]) (simp add: collected_def)
next
  case (Suc n)
  have up: "[p..<p + Suc n] = p # [Suc p..<Suc p + n]" by (simp add: upt_conv_Cons)
  let ?ram = "ram\<lparr>free_fp_list := Node (uint (PAGING_PTE_FPN (tbl p))) (free_fp_list ram)\<rparr>"
  let ?swp = "swp\<lparr>free_fp_list := Node (uint (PAGING_PTE_SWP (tbl p))) (free_fp_list swp)\<rparr>"
  have ok: "pool_ok ?ram" "pool_ok ?swp" using Suc.prems(4,6) by (simp_all add: pool_ok_def)
  have get: "pgd_get m (int p) = Inr (tbl p)"
    using Suc.prems(2,7) by (simp add: pgd_get_def PAGING_MAX_PGN_eq)
  show ?case
  proof (cases "PAGING_PAGE_PRESENT (tbl p)")
    case True
    have "free_pcb_loop c (int p) (Suc n) = free_pcb_loop (c\<lparr>active_mswp := Some ?swp\<rparr>) (int (Suc p)) n"
      using Suc.prems get True by (simp add: MEMPHY_put_freefp_def add.commute)
    with Suc.IH [of "c\<lparr>active_mswp := Some ?swp\<rparr>" ram ?swp "Suc p"] Suc.prems ok True show ?thesis
      unfolding up by (auto simp: collected_def)
  next
    case False
    have "free_pcb_loop c (int p) (Suc n) = free_pcb_loop (c\<lparr>mram := Some ?ram\<rparr>) (int (Suc p)) n"
      using Suc.prems get False by (simp add: MEMPHY_put_freefp_def add.commute)
    with Suc.IH [of "c\<lparr>mram := Some ?ram\<rparr>" ?ram swp "Suc p"] Suc.prems ok False show ?thesis
      unfolding up by (auto simp: collected_def)
  qed
qed

text \<open>Collecting the memory of a process goes over the whole page table and tests the
  present bit the wrong way round: the frame fields of absent entries go to the RAM free
  list, and the frames of present pages are not given back to RAM.\<close>

theorem free_pcb_memph_collects_absent:
  assumes "mm c = Some m" "pgd m = Some tbl" "mram c = Some ram" "pool_ok ram"
    and "active_mswp c = Some swp" "pool_ok swp"
  shows "\<exists>ram' swp'. free_pcb_memph c = Inr (0, c\<lparr>mram := Some ram', active_mswp := Some swp'\<rparr>) \<and>
     free_frames ram' = rev (map (\<lambda>p. uint (PAGING_PTE_FPN (tbl p)))
        (filter (\<lambda>p. \<not> PAGING_PAGE_PRESENT (tbl p)) [0..<16384])) @ free_frames ram \<and>
     free_frames swp' = rev (map (\<lambda>p. uint (PAGING_PTE_SWP (tbl p)))
        (filter (\<lambda>p. PAGING_PAGE_PRESENT (tbl p)) [0..<16384])) @ free_frames swp"
proof -
  obtain ram' swp' where l: "free_pcb_loop c 0 16384 = Inr (c\<lparr>mram := Some ram', active_mswp := Some swp'\<rparr>)"
    and f: "free_frames ram' = rev (collected tbl False [0..<16384]) @ free_frames ram"
      "free_frames swp' = rev (collected tbl True [0..<16384]) @ free_frames swp"
    using free_pcb_loop_spec [OF assms, of 0 16384] by auto
  from l have "free_pcb_memph c = Inr (0, c\<lparr>mram := Some ram', active_mswp := Some swp'\<rparr>)"
    by (simp add: free_pcb_memph_def PAGING_MAX_PGN_eq)
  with f show ?thesis
    by (intro exI [of _ ram'] exI [of _ swp']) (simp add: collected_def)
qed

theorem free_pcb_memph_collects_absent_witness:
  "\<exists>c' ram'. free_pcb_memph demo_mapped = Inr (0, c') \<and> mram c' = Some ram' \<and>
     length (free_frames ram') = 16385"
proof -
  let ?t = "\<lambda>p :: nat. if p = 0 then snd (pte_set_fpn 0 1) else (32 :: u32)"
  have pool: "pool_ok small_device" by (simp add: pool_ok_def small_device_def)
  obtain ram' swp' where r: "free_pcb_memph demo_mapped = Inr (0, demo_mapped\<lparr>mram := Some ram', active_mswp := Some swp'\<rparr>)"
    "free_frames ram' = rev (map (\<lambda>p. uint (PAGING_PTE_FPN (?t p)))
        (filter (\<lambda>p. \<not> PAGING_PAGE_PRESENT (?t p)) [0..<16384])) @ free_frames small_device"
    using free_pcb_memph_collects_absent [OF demo_fault(1,2,4) pool demo_fault(5) pool] by blast
  have "filter (\<lambda>p. \<not> PAGING_PAGE_PRESENT (?t p)) [0..<16384] = filter (\<lambda>p. p \<noteq> 0) [0..<16384]"
    by (intro filter_cong) (auto simp: demo_mapped_ptes)
  moreover have "length (filter (\<lambda>p. p \<noteq> 0) [0..<16384 :: nat]) = 16383"
    by (subst upt_conv_Cons) (simp_all add: filter_id_conv [THEN iffD2])
  ultimately have "length (filter (\<lambda>p. \<not> PAGING_PAGE_PRESENT (?t p)) [0..<16384]) = 16383" by (simp only:)
  then have "length (free_frames ram') = 16383 + 2"
    using r(2) by (simp only: length_append length_rev length_map) (simp add: small_device_def)
  with r(1) show ?thesis by simp
qed

end
