(* ===== verification/Common.thy ===== *)
theory Common
  imports Libmem
begin

text \<open>
  The shared structures of \<open>include/common.h\<close>: instructions, code segments, the legacy
  page table and the process control block. PCBs are shared by the scheduler's queues and
  the CPUs, so they live in a store indexed by address; a pointer is \<open>Some\<close> address or
  NULL, and a freed block is absent from the store.
\<close>

datatype ins_opcode_t = CALC | ALLOC | FREE | READ | WRITE | SYSCALL

record inst_t =
  opcode :: ins_opcode_t
  arg_0 :: u32
  arg_1 :: u32
  arg_2 :: u32
  arg_3 :: u32

record code_seg_t =
  code_text :: "inst_t list"
  code_size :: u32

record trans_table_t =
  tt_table :: "(u32 \<times> u32) list"    \<comment> \<open>v_index, p_index\<close>
  tt_size :: int

record page_table_t =
  pt_table :: "(u32 \<times> trans_table_t option) list"    \<comment> \<open>v_index, next_lv\<close>
  pt_size :: int

text \<open>The static objects a PCB points to: the scheduler's queues and the memory devices.\<close>

datatype queue_ref = Ready_Queue | Running_List | Mlq_Ready_Queue
datatype device_ref = Mram | Mswp nat

record pcb_t =
  pid :: u32
  priority :: u32
  path :: string
  code :: code_seg_t
  regs :: "u32 list"
  pc :: u32
  p_ready_queue :: "queue_ref option"
  p_running_list :: "queue_ref option"
  p_mlq_ready_queue :: "queue_ref option"
  prio :: u32
  p_mm :: "mm_struct option"
  p_mram :: "device_ref option"
  p_active_mswp :: "device_ref option"
  page_table :: "page_table_t option"
  bp :: u32

type_synonym pcb_ptr = "nat option"
type_synonym pcb_store = "nat \<Rightarrow> pcb_t option"

definition pcb_at :: "pcb_store \<Rightarrow> pcb_ptr \<Rightarrow> pcb_t result" where
  "pcb_at st p = and_then (deref p) (\<lambda>a. case st a of None \<Rightarrow> Inl Use_After_Free | Some b \<Rightarrow> Inr b)"

lemma pcb_at_Inr_iff [result_simps]:
  "pcb_at st p = Inr b \<longleftrightarrow> (\<exists>a. p = Some a \<and> st a = Some b)"
  by (auto simp: pcb_at_def result_simps split: option.splits)

text \<open>A pointer to a live PCB, and the priority found there.\<close>

definition live :: "pcb_store \<Rightarrow> pcb_ptr \<Rightarrow> bool" where
  "live st p \<longleftrightarrow> (\<exists>a b. p = Some a \<and> st a = Some b)"

definition prio_of :: "pcb_store \<Rightarrow> pcb_ptr \<Rightarrow> u32" where
  "prio_of st p = (case pcb_at st p of Inr b \<Rightarrow> prio b | Inl _ \<Rightarrow> 0)"

lemma live_pcb_at: "live st p \<Longrightarrow> \<exists>b. pcb_at st p = Inr b \<and> prio b = prio_of st p"
  by (auto simp: live_def pcb_at_def prio_of_def)

text \<open>A PCB with the given id and level, for the witnesses.\<close>

definition demo_pcb :: "u32 \<Rightarrow> u32 \<Rightarrow> pcb_t" where
  "demo_pcb n l = \<lparr>pid = n, priority = l, path = ''p0s'', code = \<lparr>code_text = [], code_size = 0\<rparr>,
     regs = replicate 10 0, pc = 0, p_ready_queue = None, p_running_list = None, p_mlq_ready_queue = None,
     prio = l, p_mm = None, p_mram = None, p_active_mswp = None, page_table = None, bp = 0\<rparr>"

definition demo_store :: pcb_store where
  "demo_store = [5 \<mapsto> demo_pcb 1 3, 6 \<mapsto> demo_pcb 2 7, 7 \<mapsto> demo_pcb 3 7]"

lemma demo_store_simps [simp]:
  "live demo_store (Some 5)" "live demo_store (Some 6)" "live demo_store (Some 7)"
  "prio_of demo_store (Some 5) = 3" "prio_of demo_store (Some 6) = 7" "prio_of demo_store (Some 7) = 7"
  by (simp_all add: live_def prio_of_def pcb_at_def demo_store_def demo_pcb_def)

end
