(* ===== verification/Queue.thy ===== *)
theory Queue
  imports Common
begin

text \<open>
  The bounded process queue of \<open>src/queue.c\<close>: an array of ten PCB pointers and a size.
  The interface the scheduler relies on is the locale \<open>proc_queue\<close>, interpreted here for
  any PCB store. Callers pass addresses of static queues, so the \<open>q == NULL\<close> test of
  \<open>enqueue\<close> (made after \<open>q->size\<close> was read) never succeeds.
\<close>

section \<open>State and operations\<close>

definition MAX_QUEUE_SIZE :: int where "MAX_QUEUE_SIZE = 10"

record queue_t =
  procs :: "pcb_ptr list"
  qsize :: int

definition empty_queue :: "queue_t option \<Rightarrow> int" where
  "empty_queue q = (case q of None \<Rightarrow> 1 | Some q \<Rightarrow> if qsize q = 0 then 1 else 0)"

definition enqueue :: "queue_t \<Rightarrow> pcb_ptr \<Rightarrow> queue_t result" where
  "enqueue q p =
     (if qsize q = MAX_QUEUE_SIZE then Inr q
      else and_then (arr_set (procs q) (qsize q) p) (\<lambda>ps.
        Inr (q\<lparr>procs := ps, qsize := qsize q + 1\<rparr>)))"

text \<open>The scan for the highest priority value; \<open>n\<close> entries are left from \<open>i\<close> on.\<close>

primrec max_scan :: "pcb_store \<Rightarrow> pcb_ptr list \<Rightarrow> nat \<Rightarrow> int \<Rightarrow> pcb_ptr \<Rightarrow> int \<Rightarrow>
    (pcb_ptr \<times> int) result" where
  "max_scan st ps 0 i highest_prio index = Inr (highest_prio, index)"
| "max_scan st ps (Suc n) i highest_prio index =
     and_then (arr_get ps i) (\<lambda>p.
     and_then (pcb_at st p) (\<lambda>b.
     and_then (pcb_at st highest_prio) (\<lambda>h.
       if prio b > prio h then max_scan st ps n (i + 1) p i
       else max_scan st ps n (i + 1) highest_prio index)))"

text \<open>The shift that closes the gap; \<open>n\<close> moves are left from \<open>j\<close> on.\<close>

primrec shift_down :: "'a list \<Rightarrow> int \<Rightarrow> nat \<Rightarrow> 'a list result" where
  "shift_down ps j 0 = Inr ps"
| "shift_down ps j (Suc n) =
     and_then (arr_get ps (j + 1)) (\<lambda>p.
     and_then (arr_set ps j p) (\<lambda>ps. shift_down ps (j + 1) n))"

definition dequeue :: "pcb_store \<Rightarrow> queue_t \<Rightarrow> (pcb_ptr \<times> queue_t) result" where
  "dequeue st q =
     (if empty_queue (Some q) \<noteq> 0 then Inr (None, q)
      else
        and_then (arr_get (procs q) 0) (\<lambda>first.
        and_then (max_scan st (procs q) (nat (qsize q)) 0 first 0) (\<lambda>(highest_prio, index).
        and_then (shift_down (procs q) index (nat (qsize q - 1 - index))) (\<lambda>ps.
          Inr (highest_prio, q\<lparr>procs := ps, qsize := qsize q - 1\<rparr>)))))"

section \<open>Contents and invariant\<close>

definition q_list :: "queue_t \<Rightarrow> pcb_ptr list" where
  "q_list q = take (nat (qsize q)) (procs q)"

definition queue_ok :: "pcb_store \<Rightarrow> queue_t \<Rightarrow> bool" where
  "queue_ok st q \<longleftrightarrow> length (procs q) = 10 \<and> 0 \<le> qsize q \<and> qsize q \<le> 10 \<and>
     (\<forall>p \<in> set (q_list q). live st p)"

lemma length_q_list: "queue_ok st q \<Longrightarrow> length (q_list q) = nat (qsize q)"
  by (auto simp: queue_ok_def q_list_def)

lemma q_list_Nil_iff: "queue_ok st q \<Longrightarrow> q_list q = [] \<longleftrightarrow> qsize q = 0"
  using length_q_list [of st q] by (auto simp: queue_ok_def)

section \<open>Enqueue\<close>

lemma enqueue_room:
  assumes "queue_ok st q" "length (q_list q) < 10" "live st p"
  shows "\<exists>q'. enqueue q p = Inr q' \<and> q_list q' = q_list q @ [p] \<and> queue_ok st q'"
proof -
  have s: "0 \<le> qsize q" "qsize q < 10" "length (procs q) = 10"
    using assms(1,2) length_q_list [OF assms(1)] by (auto simp: queue_ok_def)
  let ?q = "q\<lparr>procs := (procs q)[nat (qsize q) := p], qsize := qsize q + 1\<rparr>"
  have "enqueue q p = Inr ?q"
    using s by (simp add: enqueue_def MAX_QUEUE_SIZE_def arr_set_def)
  moreover have "q_list ?q = q_list q @ [p]"
    using s by (simp add: q_list_def nat_add_distrib take_Suc_conv_app_nth)
  ultimately show ?thesis
    using assms(1,3) s by (auto simp: queue_ok_def)
qed

lemma enqueue_full: "queue_ok st q \<Longrightarrow> length (q_list q) = 10 \<Longrightarrow> enqueue q p = Inr q"
  using length_q_list [of st q] by (auto simp: enqueue_def MAX_QUEUE_SIZE_def queue_ok_def)

section \<open>Dequeue\<close>

text \<open>The element taken: the first one whose priority value no other exceeds.\<close>

definition first_max :: "('a \<Rightarrow> 'k :: linorder) \<Rightarrow> 'a list \<Rightarrow> nat \<Rightarrow> bool" where
  "first_max key xs i \<longleftrightarrow> i < length xs \<and> (\<forall>j < length xs. key (xs ! j) \<le> key (xs ! i)) \<and>
     (\<forall>j < i. key (xs ! j) < key (xs ! i))"

lemma first_max_const:
  assumes "first_max key xs i" "\<And>x. x \<in> set xs \<Longrightarrow> key x = k"
  shows "i = 0"
proof (rule ccontr)
  assume "i \<noteq> 0"
  with assms(1) have "key (xs ! 0) < key (xs ! i)" "i < length xs" by (auto simp: first_max_def)
  moreover from this have "key (xs ! 0) = k" "key (xs ! i) = k"
    by (auto intro!: assms(2) nth_mem)
  ultimately show False by simp
qed

lemma max_scan_spec:
  assumes "\<And>p. p \<in> set (take k ps) \<Longrightarrow> live st p" "k \<le> length ps" "i + n = k" "index < k"
    and "\<And>j. j < i \<Longrightarrow> prio_of st (ps ! j) \<le> prio_of st (ps ! index)"
    and "\<And>j. j < index \<Longrightarrow> prio_of st (ps ! j) < prio_of st (ps ! index)" "index \<le> i"
  shows "\<exists>x. max_scan st ps n (int i) (ps ! index) (int index) = Inr (ps ! x, int x) \<and>
    first_max (prio_of st) (take k ps) x"
  using assms(3-)
proof (induction n arbitrary: i index)
  case 0
  then show ?case
    using assms(2) by (intro exI [of _ index]) (auto simp: first_max_def)
next
  case (Suc n)
  then have i: "i < k" "i < length ps" using assms(2) by auto
  have lv: "live st (ps ! j)" if "j < k" for j
    using that assms(1,2) by (metis in_set_conv_nth length_take min_absorb2 nth_take)
  obtain b h where b: "pcb_at st (ps ! i) = Inr b" "prio b = prio_of st (ps ! i)"
    and h: "pcb_at st (ps ! index) = Inr h" "prio h = prio_of st (ps ! index)"
    using live_pcb_at lv i(1) Suc.prems(2) by metis
  show ?case
  proof (cases "prio_of st (ps ! i) > prio_of st (ps ! index)")
    case True
    have "prio_of st (ps ! j) \<le> prio_of st (ps ! i)" if "j < Suc i" for j
      using that True Suc.prems(3) [of j] by (cases "j = i") (auto simp: less_Suc_eq)
    moreover have "prio_of st (ps ! j) < prio_of st (ps ! i)" if "j < i" for j
      using that True Suc.prems(3) [of j] by auto
    ultimately have "\<exists>x. max_scan st ps n (int (Suc i)) (ps ! i) (int i) = Inr (ps ! x, int x) \<and>
        first_max (prio_of st) (take k ps) x"
      using Suc.prems i by (intro Suc.IH) auto
    then show ?thesis using True b h i by (simp add: arr_get_def ac_simps)
  next
    case False
    have "prio_of st (ps ! j) \<le> prio_of st (ps ! index)" if "j < Suc i" for j
      using that False Suc.prems(3) [of j] by (cases "j = i") (auto simp: less_Suc_eq)
    then have "\<exists>x. max_scan st ps n (int (Suc i)) (ps ! index) (int index) = Inr (ps ! x, int x) \<and>
        first_max (prio_of st) (take k ps) x"
      using Suc.prems i by (intro Suc.IH) auto
    then show ?thesis using False b h i by (simp add: arr_get_def ac_simps)
  qed
qed

lemma shift_down_spec:
  assumes "j + n < length ps"
  shows "shift_down ps (int j) n = Inr (take j ps @ take n (drop (Suc j) ps) @ drop (j + n) ps)"
  using assms
proof (induction n arbitrary: j ps)
  case 0
  then show ?case by simp
next
  case (Suc n)
  let ?ps = "ps[j := ps ! Suc j]"
  have "shift_down ps (int j) (Suc n) = shift_down ?ps (int (Suc j)) n"
    using Suc.prems by (simp add: arr_get_def arr_set_def nat_add_distrib ac_simps)
  also have "\<dots> = Inr (take (Suc j) ?ps @ take n (drop (Suc (Suc j)) ?ps) @ drop (Suc j + n) ?ps)"
    using Suc.prems by (intro Suc.IH) simp
  also have "take (Suc j) ?ps = take j ps @ [ps ! Suc j]"
    using Suc.prems by (simp add: take_Suc_conv_app_nth)
  also have "drop (Suc (Suc j)) ?ps = drop (Suc (Suc j)) ps" by simp
  also have "drop (Suc j + n) ?ps = drop (j + Suc n) ps" by simp
  finally show ?case
    using Suc.prems by (simp add: Cons_nth_drop_Suc [of "Suc j" ps, symmetric])
qed

lemma dequeue_empty: "queue_ok st q \<Longrightarrow> q_list q = [] \<Longrightarrow> dequeue st q = Inr (None, q)"
  by (simp add: dequeue_def empty_queue_def q_list_Nil_iff)

lemma dequeue_some:
  assumes ok: "queue_ok st q" and ne: "q_list q \<noteq> []"
  shows "\<exists>i q'. dequeue st q = Inr (q_list q ! i, q') \<and> first_max (prio_of st) (q_list q) i \<and>
     q_list q' = take i (q_list q) @ drop (Suc i) (q_list q) \<and> queue_ok st q'"
proof -
  define k where "k = nat (qsize q)"
  have s: "0 < qsize q" "qsize q \<le> 10" "length (procs q) = 10" "int k = qsize q"
    using ok ne q_list_Nil_iff [OF ok] by (auto simp: queue_ok_def k_def)
  have lv: "\<And>p. p \<in> set (take k (procs q)) \<Longrightarrow> live st p"
    using ok by (auto simp: queue_ok_def q_list_def k_def)
  have "\<exists>x. max_scan st (procs q) k (int 0) (procs q ! 0) (int 0) = Inr (procs q ! x, int x) \<and>
      first_max (prio_of st) (take k (procs q)) x"
    using s by (intro max_scan_spec [where i = 0 and index = 0]) (auto intro: lv)
  then obtain x where scan: "max_scan st (procs q) k (int 0) (procs q ! 0) (int 0) = Inr (procs q ! x, int x)"
    and fm: "first_max (prio_of st) (take k (procs q)) x" by blast
  have x: "x < k" using fm by (simp add: first_max_def)
  let ?ps = "take x (procs q) @ take (k - 1 - x) (drop (Suc x) (procs q)) @ drop (x + (k - 1 - x)) (procs q)"
  have sh: "shift_down (procs q) (int x) (k - 1 - x) = Inr ?ps"
    using s x by (intro shift_down_spec) linarith
  let ?q = "q\<lparr>procs := ?ps, qsize := qsize q - 1\<rparr>"
  have nats: "nat (qsize q) = k" "nat (qsize q - 1 - int x) = k - 1 - x" "nat (qsize q - 1) = k - 1"
    using s x by auto
  have deq: "dequeue st q = Inr (procs q ! x, ?q)"
    using s scan sh nats by (simp add: dequeue_def empty_queue_def arr_get_def)
  have cont: "q_list ?q = take x (q_list q) @ drop (Suc x) (q_list q)"
  proof -
    have "k - Suc 0 \<le> x \<Longrightarrow> k - Suc 0 = x" using x by simp
    then show ?thesis using s x by (auto simp: q_list_def nats min_def drop_take)
  qed
  have "queue_ok st ?q"
    using ok s x cont unfolding queue_ok_def
    by (auto simp del: append_assoc dest: in_set_takeD in_set_dropD)
  then show ?thesis
    using deq cont fm x s
    by (intro exI [of _ x] exI [of _ ?q]) (simp add: q_list_def nats)
qed

section \<open>The interface\<close>

text \<open>What the scheduler relies on: bounded, ordered contents, and a dequeue that takes the
  first process of the highest priority value.\<close>

locale proc_queue =
  fixes enq :: "'q \<Rightarrow> 'p \<Rightarrow> 'q result"
    and deq :: "'q \<Rightarrow> ('p \<times> 'q) result"
    and null :: 'p
    and content :: "'q \<Rightarrow> 'p list"
    and ok :: "'q \<Rightarrow> bool"
    and good :: "'p \<Rightarrow> bool"
    and key :: "'p \<Rightarrow> 'k :: linorder"
    and cap :: nat
  assumes bounded: "ok q \<Longrightarrow> length (content q) \<le> cap"
    and enq_room: "ok q \<Longrightarrow> length (content q) < cap \<Longrightarrow> good p \<Longrightarrow>
       \<exists>q'. enq q p = Inr q' \<and> content q' = content q @ [p] \<and> ok q'"
    and enq_full: "ok q \<Longrightarrow> length (content q) = cap \<Longrightarrow> enq q p = Inr q"
    and deq_empty: "ok q \<Longrightarrow> content q = [] \<Longrightarrow> deq q = Inr (null, q)"
    and deq_max: "ok q \<Longrightarrow> content q \<noteq> [] \<Longrightarrow>
       \<exists>i q'. deq q = Inr (content q ! i, q') \<and> first_max key (content q) i \<and>
         content q' = take i (content q) @ drop (Suc i) (content q) \<and> ok q'"
begin

lemma enq_total:
  assumes "ok q" "good p"
  shows "\<exists>q'. enq q p = Inr q' \<and> ok q' \<and>
     content q' = (if length (content q) < cap then content q @ [p] else content q)"
proof (cases "length (content q) < cap")
  case True
  with enq_room [OF assms(1) _ assms(2)] show ?thesis by auto
next
  case False
  then have "length (content q) = cap" using bounded [OF assms(1)] by simp
  with enq_full [OF assms(1)] assms(1) False show ?thesis by auto
qed

lemma deq_conserves:
  assumes "ok q" "content q \<noteq> []" "deq q = Inr (p, q')"
  shows "mset (content q) = add_mset p (mset (content q'))" "ok q'"
proof -
  obtain i where i: "i < length (content q)" "p = content q ! i" "ok q'"
    and c: "content q' = take i (content q) @ drop (Suc i) (content q)"
    using deq_max [OF assms(1,2)] assms(3) by (auto simp: first_max_def)
  show "ok q'" by (rule i(3))
  have "mset (content q) = mset (take i (content q) @ content q ! i # drop (Suc i) (content q))"
    using i(1) by (simp add: id_take_nth_drop [symmetric])
  then show "mset (content q) = add_mset p (mset (content q'))"
    by (simp add: c i(2))
qed

lemma deq_fifo:
  assumes "ok q" "content q = p # ps" "\<And>x. x \<in> set (content q) \<Longrightarrow> key x = k"
  shows "\<exists>q'. deq q = Inr (p, q') \<and> content q' = ps \<and> ok q'"
proof -
  obtain i q' where d: "deq q = Inr (content q ! i, q')" "first_max key (content q) i" "ok q'"
    "content q' = take i (content q) @ drop (Suc i) (content q)"
    using deq_max [of q] assms(1,2) by auto
  from first_max_const [OF d(2) assms(3)] d assms(2) show ?thesis by auto
qed

end

interpretation pq: proc_queue enqueue "dequeue st" None q_list "queue_ok st" "live st" "prio_of st" 10
  for st
proof
  fix q p assume q: "queue_ok st q"
  show "length (q_list q) \<le> 10" using q length_q_list [OF q] by (auto simp: queue_ok_def)
  show "length (q_list q) = 10 \<Longrightarrow> enqueue q p = Inr q" using q by (rule enqueue_full)
  show "q_list q = [] \<Longrightarrow> dequeue st q = Inr (None, q)" using q by (rule dequeue_empty)
  show "q_list q \<noteq> [] \<Longrightarrow> \<exists>i q'. dequeue st q = Inr (q_list q ! i, q') \<and>
      first_max (prio_of st) (q_list q) i \<and>
      q_list q' = take i (q_list q) @ drop (Suc i) (q_list q) \<and> queue_ok st q'"
    using q by (rule dequeue_some)
  show "length (q_list q) < 10 \<Longrightarrow> live st p \<Longrightarrow>
      \<exists>q'. enqueue q p = Inr q' \<and> q_list q' = q_list q @ [p] \<and> queue_ok st q'"
    using q by (rule enqueue_room)
qed

section \<open>Properties\<close>

definition demo_queue :: queue_t where
  "demo_queue = \<lparr>procs = [Some 5, Some 6, Some 7, None, None, None, None, None, None, None], qsize = 3\<rparr>"

lemma demo_queue_ok: "queue_ok demo_store demo_queue" "q_list demo_queue = [Some 5, Some 6, Some 7]"
  by (simp_all add: queue_ok_def demo_queue_def q_list_def)

text \<open>C39. Dequeuing from a non-empty queue takes the first process whose priority value no
  other exceeds (not the oldest process), closes the gap, keeps the order of the others, and
  neither loses nor duplicates a process.\<close>

theorem dequeue_takes_first_max:
  assumes "queue_ok st q" "q_list q \<noteq> []"
  shows "\<exists>i q'. dequeue st q = Inr (q_list q ! i, q') \<and> first_max (prio_of st) (q_list q) i \<and>
     q_list q' = take i (q_list q) @ drop (Suc i) (q_list q) \<and>
     mset (q_list q) = add_mset (q_list q ! i) (mset (q_list q')) \<and> queue_ok st q'"
  using pq.deq_max [OF assms] pq.deq_conserves [OF assms] by blast

theorem dequeue_takes_first_max_witness:
  "\<exists>i q'. dequeue demo_store demo_queue = Inr (q_list demo_queue ! i, q') \<and> i = 1 \<and>
     q_list q' = [Some 5, Some 7]"
proof -
  have "q_list demo_queue \<noteq> []" by (simp add: demo_queue_ok)
  from dequeue_takes_first_max [OF demo_queue_ok(1) this] obtain i q' where
    *: "dequeue demo_store demo_queue = Inr (q_list demo_queue ! i, q')"
    "first_max (prio_of demo_store) (q_list demo_queue) i"
    "q_list q' = take i (q_list demo_queue) @ drop (Suc i) (q_list demo_queue)" by blast
  have i: "i < 3" using *(2) by (simp add: first_max_def demo_queue_ok)
  have "i \<noteq> 0"
  proof
    assume "i = 0"
    with *(2) have "prio_of demo_store (q_list demo_queue ! 1) \<le> prio_of demo_store (q_list demo_queue ! 0)"
      unfolding first_max_def by (auto simp: demo_queue_ok)
    then show False by (simp add: demo_queue_ok)
  qed
  moreover have "i \<noteq> 2"
  proof
    assume "i = 2"
    with *(2) have "prio_of demo_store (q_list demo_queue ! 1) < prio_of demo_store (q_list demo_queue ! 2)"
      unfolding first_max_def by auto
    then show False by (simp add: demo_queue_ok)
  qed
  ultimately have "i = 1" using i by linarith
  with *(1,3) show ?thesis by (intro exI [of _ i] exI [of _ q']) (simp add: demo_queue_ok)
qed

text \<open>Enqueuing appends at the end while there is room; a queue of ten processes drops
  the new one without any sign of it. Either way the queue stays well formed.\<close>

theorem enqueue_appends_or_drops:
  assumes "queue_ok st q" "live st p"
  shows "\<exists>q'. enqueue q p = Inr q' \<and> queue_ok st q' \<and>
     q_list q' = (if length (q_list q) < 10 then q_list q @ [p] else q_list q)"
  using pq.enq_total [OF assms] by blast

theorem enqueue_appends_or_drops_witness:
  "\<exists>q'. enqueue demo_queue (Some 5) = Inr q' \<and> q_list q' = [Some 5, Some 6, Some 7, Some 5]"
  using enqueue_appends_or_drops [OF demo_queue_ok(1), of "Some 5"] demo_store_simps(1)
  by (auto simp: demo_queue_ok)

end
