(* ===== verification/Sched.thy ===== *)
theory Sched
  imports Queue
begin

text \<open>
  The multi-level queue scheduler of \<open>src/sched.c\<close> (built with \<open>MLQ_SCHED\<close>): 140 ready
  queues, a slot budget per level, and the position, flag and counter that
  \<open>get_mlq_proc\<close> keeps between calls. Its \<open>goto label\<close> is a recursive call, with a
  termination proof; a specification says which level is served.
\<close>

section \<open>State and operations\<close>

definition MAX_PRIO :: int where "MAX_PRIO = 140"

record sched_t =
  ready_queue :: queue_t
  run_queue :: queue_t
  running_list :: queue_t
  mlq_ready_queue :: "queue_t list"
  slot :: "int list"
  MarkedPrior :: int
  flag :: int
  count :: int
  queue_lock :: bool

definition lock_queue :: "sched_t \<Rightarrow> sched_t result" where
  "lock_queue s = (if queue_lock s then Inl Self_Deadlock else Inr (s\<lparr>queue_lock := True\<rparr>))"

definition unlock_queue :: "sched_t \<Rightarrow> sched_t" where
  "unlock_queue s = s\<lparr>queue_lock := False\<rparr>"

definition queue_empty :: "sched_t \<Rightarrow> int" where
  "queue_empty s =
     (if list_ex (\<lambda>q. empty_queue (Some q) = 0) (mlq_ready_queue s) then -1
      else if empty_queue (Some (ready_queue s)) \<noteq> 0 \<and> empty_queue (Some (run_queue s)) \<noteq> 0 then 1 else 0)"

text \<open>The static initial values of the scheduler's variables, and \<open>init_scheduler\<close>.\<close>

definition static_queue :: queue_t where
  "static_queue = \<lparr>procs = replicate (nat MAX_QUEUE_SIZE) None, qsize = 0\<rparr>"

definition static_sched :: sched_t where
  "static_sched = \<lparr>ready_queue = static_queue, run_queue = static_queue, running_list = static_queue,
     mlq_ready_queue = replicate (nat MAX_PRIO) static_queue, slot = replicate (nat MAX_PRIO) 0,
     MarkedPrior = 0, flag = 1, count = 0, queue_lock = False\<rparr>"

definition init_scheduler :: "sched_t \<Rightarrow> sched_t" where
  "init_scheduler s =
     s\<lparr>mlq_ready_queue := map (\<lambda>q. q\<lparr>qsize := 0\<rparr>) (mlq_ready_queue s),
       slot := map (\<lambda>i. MAX_PRIO - i) [0..MAX_PRIO - 1],
       ready_queue := (ready_queue s)\<lparr>qsize := 0\<rparr>, run_queue := (run_queue s)\<lparr>qsize := 0\<rparr>,
       queue_lock := False\<rparr>"

text \<open>Taking a process from level \<open>MarkedPrior\<close>: the dequeue and the slot it uses up.\<close>

definition take_marked :: "pcb_store \<Rightarrow> sched_t \<Rightarrow> (pcb_ptr \<times> sched_t) result" where
  "take_marked st s =
     and_then (arr_get (mlq_ready_queue s) (MarkedPrior s)) (\<lambda>q.
     and_then (dequeue st q) (\<lambda>(p, q).
     and_then (arr_set (mlq_ready_queue s) (MarkedPrior s) q) (\<lambda>mlq.
     and_then (arr_get (slot s) (MarkedPrior s)) (\<lambda>n.
     and_then (arr_set (slot s) (MarkedPrior s) (n + 1)) (\<lambda>sl.
       Inr (p, s\<lparr>mlq_ready_queue := mlq, slot := sl\<rparr>))))))"

text \<open>The test \<open>mlq_ready_queue[MarkedPrior].size != 0 && slot[MarkedPrior] < MAX_PRIO - MarkedPrior\<close>.\<close>

definition marked_ready :: "sched_t \<Rightarrow> bool result" where
  "marked_ready s =
     and_then (arr_get (mlq_ready_queue s) (MarkedPrior s)) (\<lambda>q.
     and_then (arr_get (slot s) (MarkedPrior s)) (\<lambda>n.
       Inr (qsize q \<noteq> 0 \<and> n < MAX_PRIO - MarkedPrior s)))"

text \<open>The \<open>for\<close> loop: \<open>Some p\<close> when it returns from inside, \<open>None\<close> when it runs out.\<close>

function mlq_scan :: "pcb_store \<Rightarrow> sched_t \<Rightarrow> (pcb_ptr option \<times> sched_t) result" where
  "mlq_scan st s =
     (if MarkedPrior s < MAX_PRIO then
        and_then (marked_ready s) (\<lambda>ready.
          if ready then
            and_then (take_marked st s) (\<lambda>(p, s). Inr (Some p, s\<lparr>flag := 0, count := 0\<rparr>))
          else mlq_scan st (s\<lparr>count := count s + 1, MarkedPrior := MarkedPrior s + 1\<rparr>))
      else Inr (None, s))"
  by pat_completeness auto
termination
  by (relation "measure (\<lambda>(st, s). nat (MAX_PRIO - MarkedPrior s))") auto

declare mlq_scan.simps [simp del]

lemma mlq_scan_None:
  "mlq_scan st s = Inr (None, s') \<Longrightarrow> MarkedPrior s \<le> MAX_PRIO \<Longrightarrow>
     count s' = count s + (MAX_PRIO - MarkedPrior s)"
proof (induction st s rule: mlq_scan.induct)
  case (1 st s)
  show ?case
  proof (cases "MarkedPrior s < MAX_PRIO")
    case True
    with "1.prems"(1) obtain ready where r: "marked_ready s = Inr ready" "\<not> ready"
      by (subst (asm) mlq_scan.simps) (auto simp: result_simps split: if_splits)
    with True "1.prems"(1)
    have "mlq_scan st (s\<lparr>count := count s + 1, MarkedPrior := MarkedPrior s + 1\<rparr>) = Inr (None, s')"
      by (subst (asm) mlq_scan.simps) simp
    from "1.IH" [OF True r this] True show ?thesis by simp
  next
    case False
    with "1.prems" show ?thesis by (subst (asm) mlq_scan.simps) simp
  qed
qed

text \<open>From \<open>label:\<close> on. The slots are refilled when a pass over the levels runs out.\<close>

definition new_round :: "sched_t \<Rightarrow> sched_t" where
  "new_round s = s\<lparr>slot := map (\<lambda>_. 0) (slot s), MarkedPrior := 0, flag := 1\<rparr>"

function get_mlq_label :: "pcb_store \<Rightarrow> sched_t \<Rightarrow> (pcb_ptr \<times> sched_t) result" where
  "get_mlq_label st s =
     (if flag s \<noteq> 0 then
        and_then (mlq_scan st s) (\<lambda>(found, s).
          case found of
            Some p \<Rightarrow> Inr (p, unlock_queue s)
          | None \<Rightarrow>
              let s = new_round s in
              if count s = MAX_PRIO then Inr (None, unlock_queue s)
              else get_mlq_label st (s\<lparr>count := 0\<rparr>))
      else
        and_then (marked_ready s) (\<lambda>ready.
          if ready then and_then (take_marked st s) (\<lambda>(p, s). Inr (p, unlock_queue s))
          else get_mlq_label st (s\<lparr>flag := 1\<rparr>)))"
  by pat_completeness auto
termination
proof (relation "measure (\<lambda>(st, s). if flag s = 0 then 2 else
    if MarkedPrior s = 0 \<and> count s = 0 then 0 else (1 :: nat))")
qed (auto simp: new_round_def dest: mlq_scan_None simp: MAX_PRIO_def)

declare get_mlq_label.simps [simp del]

definition get_mlq_proc :: "pcb_store \<Rightarrow> sched_t \<Rightarrow> (pcb_ptr \<times> sched_t) result" where
  "get_mlq_proc st s = and_then (lock_queue s) (\<lambda>s. get_mlq_label st s)"

text \<open>\<open>put_mlq_proc\<close> and \<open>add_mlq_proc\<close> have the same body.\<close>

definition put_mlq_proc :: "pcb_store \<Rightarrow> sched_t \<Rightarrow> pcb_ptr \<Rightarrow> sched_t result" where
  "put_mlq_proc st s p =
     and_then (lock_queue s) (\<lambda>s.
     and_then (pcb_at st p) (\<lambda>b.
     and_then (arr_get (mlq_ready_queue s) (uint (prio b))) (\<lambda>q.
     and_then (enqueue q p) (\<lambda>q.
     and_then (arr_set (mlq_ready_queue s) (uint (prio b)) q) (\<lambda>mlq.
       Inr (unlock_queue (s\<lparr>mlq_ready_queue := mlq\<rparr>)))))))"

definition add_mlq_proc :: "pcb_store \<Rightarrow> sched_t \<Rightarrow> pcb_ptr \<Rightarrow> sched_t result" where
  "add_mlq_proc st s p =
     and_then (lock_queue s) (\<lambda>s.
     and_then (pcb_at st p) (\<lambda>b.
     and_then (arr_get (mlq_ready_queue s) (uint (prio b))) (\<lambda>q.
     and_then (enqueue q p) (\<lambda>q.
     and_then (arr_set (mlq_ready_queue s) (uint (prio b)) q) (\<lambda>mlq.
       Inr (unlock_queue (s\<lparr>mlq_ready_queue := mlq\<rparr>)))))))"

definition get_proc :: "pcb_store \<Rightarrow> sched_t \<Rightarrow> (pcb_ptr \<times> sched_t) result" where
  "get_proc st s = get_mlq_proc st s"

definition link_queues :: "pcb_t \<Rightarrow> pcb_t" where
  "link_queues b = b\<lparr>p_ready_queue := Some Ready_Queue, p_mlq_ready_queue := Some Mlq_Ready_Queue,
     p_running_list := Some Running_List\<rparr>"

text \<open>Both set the queue pointers of the PCB and record it on the running list first.\<close>

definition note_running :: "pcb_store \<Rightarrow> sched_t \<Rightarrow> pcb_ptr \<Rightarrow> (pcb_store \<times> sched_t) result" where
  "note_running st s p =
     and_then (pcb_at st p) (\<lambda>b.
     and_then (deref p) (\<lambda>a.
     and_then (lock_queue s) (\<lambda>s.
     and_then (enqueue (running_list s) p) (\<lambda>q.
       Inr (st(a \<mapsto> link_queues b), unlock_queue (s\<lparr>running_list := q\<rparr>))))))"

definition put_proc :: "pcb_store \<Rightarrow> sched_t \<Rightarrow> pcb_ptr \<Rightarrow> (pcb_store \<times> sched_t) result" where
  "put_proc st s p =
     and_then (note_running st s p) (\<lambda>(st, s).
     and_then (put_mlq_proc st s p) (\<lambda>s. Inr (st, s)))"

definition add_proc :: "pcb_store \<Rightarrow> sched_t \<Rightarrow> pcb_ptr \<Rightarrow> (pcb_store \<times> sched_t) result" where
  "add_proc st s p =
     and_then (note_running st s p) (\<lambda>(st, s).
     and_then (add_mlq_proc st s p) (\<lambda>s. Inr (st, s)))"

section \<open>Invariant\<close>

text \<open>
  \<open>levels_ok\<close>: 140 well-formed queues and 140 slot counters, and a process waits at the
  level of its priority. \<open>sched_ok\<close> adds what holds between calls: the counter is 0, or
  140 right after a call that found nothing.
\<close>

definition levels_ok :: "pcb_store \<Rightarrow> sched_t \<Rightarrow> bool" where
  "levels_ok st s \<longleftrightarrow> length (mlq_ready_queue s) = 140 \<and> length (slot s) = 140 \<and>
     (\<forall>i < 140. queue_ok st (mlq_ready_queue s ! i) \<and>
        (\<forall>p \<in> set (q_list (mlq_ready_queue s ! i)). uint (prio_of st p) = int i))"

definition sched_ok :: "pcb_store \<Rightarrow> sched_t \<Rightarrow> bool" where
  "sched_ok st s \<longleftrightarrow> levels_ok st s \<and> \<not> queue_lock s \<and> 0 \<le> MarkedPrior s \<and> MarkedPrior s < 140 \<and>
     (flag s = 0 \<or> flag s = 1) \<and> (count s = 0 \<or> count s = 140 \<and> MarkedPrior s = 0 \<and> flag s = 1)"

abbreviation level :: "sched_t \<Rightarrow> nat \<Rightarrow> pcb_ptr list" where
  "level s i \<equiv> q_list (mlq_ready_queue s ! i)"

definition slots_within :: "sched_t \<Rightarrow> bool" where
  "slots_within s \<longleftrightarrow> (\<forall>i < length (slot s). 0 \<le> slot s ! i \<and> slot s ! i \<le> 140 - int i)"

section \<open>Which level is served\<close>

text \<open>A level can be served when a process waits there and its slots are not used up.\<close>

definition eligible :: "sched_t \<Rightarrow> nat \<Rightarrow> bool" where
  "eligible s i \<longleftrightarrow> level s i \<noteq> [] \<and> slot s ! i < 140 - int i"

text \<open>Level \<open>i\<close> gives up its oldest process \<open>p\<close> and one slot.\<close>

definition served :: "pcb_store \<Rightarrow> sched_t \<Rightarrow> nat \<Rightarrow> pcb_ptr \<Rightarrow> sched_t \<Rightarrow> bool" where
  "served st s i p s' \<longleftrightarrow> i < 140 \<and> (\<exists>q'. queue_ok st q' \<and> level s i = p # q_list q' \<and>
     s' = s\<lparr>mlq_ready_queue := (mlq_ready_queue s)[i := q'], slot := (slot s)[i := slot s ! i + 1],
            MarkedPrior := int i, flag := 0, count := 0\<rparr>)"

lemma marked_ready_spec:
  assumes "levels_ok st s" "MarkedPrior s = int i" "i < 140"
  shows "marked_ready s = Inr (eligible s i)"
proof -
  have "queue_ok st (mlq_ready_queue s ! i)" using assms by (simp add: levels_ok_def)
  then show ?thesis
    using assms
    by (auto simp: marked_ready_def levels_ok_def arr_get_def eligible_def MAX_PRIO_def q_list_Nil_iff)
qed

lemma take_marked_spec:
  assumes ok: "levels_ok st s" and i: "MarkedPrior s = int i" "i < 140" and ne: "level s i \<noteq> []"
  shows "\<exists>p s'. take_marked st s = Inr (p, s') \<and> served st s i p (s'\<lparr>flag := 0, count := 0\<rparr>) \<and>
     flag s' = flag s \<and> count s' = count s"
proof -
  obtain p ps where l: "level s i = p # ps" using ne by (cases "level s i") auto
  have q: "queue_ok st (mlq_ready_queue s ! i)" using ok i(2) by (simp add: levels_ok_def)
  have u: "prio_of st x = word_of_int (int i)" if "x \<in> set (level s i)" for x
  proof -
    have "uint (prio_of st x) = int i" using ok i(2) that by (simp add: levels_ok_def)
    then show ?thesis using word_of_int_uint [of "prio_of st x"] by simp
  qed
  obtain q' where "dequeue st (mlq_ready_queue s ! i) = Inr (p, q')" "q_list q' = ps" "queue_ok st q'"
    using pq.deq_fifo [OF q l u] by blast
  with ok i l show ?thesis
    by (auto simp: take_marked_def levels_ok_def arr_get_def arr_set_def served_def)
qed

lemma levels_ok_scan [simp]:
  "levels_ok st (s\<lparr>count := c, MarkedPrior := m\<rparr>) = levels_ok st s"
  "levels_ok st (s\<lparr>flag := f\<rparr>) = levels_ok st s" "levels_ok st (s\<lparr>count := c\<rparr>) = levels_ok st s"
  "levels_ok st (s\<lparr>queue_lock := b\<rparr>) = levels_ok st s"
  by (simp_all add: levels_ok_def)

lemma eligible_scan [simp]:
  "eligible (s\<lparr>count := c, MarkedPrior := m\<rparr>) = eligible s" "eligible (s\<lparr>flag := f\<rparr>) = eligible s"
  "eligible (s\<lparr>count := c\<rparr>) = eligible s" "eligible (s\<lparr>queue_lock := b\<rparr>) = eligible s"
  by (simp_all add: eligible_def fun_eq_iff)

lemma served_scan [simp]:
  "served st (s\<lparr>count := c, MarkedPrior := m\<rparr>) i p s' = served st s i p s'"
  "served st (s\<lparr>flag := f\<rparr>) i p s' = served st s i p s'"
  "served st (s\<lparr>count := c\<rparr>) i p s' = served st s i p s'"
  by (simp_all add: served_def)

lemma mlq_scan_spec:
  assumes "levels_ok st s" "MarkedPrior s = int k" "k \<le> 140"
  shows "case find (eligible s) [k..<140] of
      None \<Rightarrow> mlq_scan st s = Inr (None, s\<lparr>count := count s + int (140 - k), MarkedPrior := 140\<rparr>)
    | Some i \<Rightarrow> \<exists>p s'. mlq_scan st s = Inr (Some p, s') \<and> served st s i p s'"
  using assms
proof (induction "140 - k" arbitrary: s k)
  case 0
  then show ?case by (subst mlq_scan.simps) (simp add: MAX_PRIO_def)
next
  case (Suc n)
  then have k: "k < 140" "[k..<140] = k # [Suc k..<140]" by (simp_all add: upt_conv_Cons)
  note ready = marked_ready_spec [OF Suc.prems(1,2) k(1)]
  show ?case
  proof (cases "eligible s k")
    case True
    then have "level s k \<noteq> []" by (simp add: eligible_def)
    with take_marked_spec [OF Suc.prems(1,2) k(1)] True ready k Suc.prems show ?thesis
      by (subst mlq_scan.simps) (auto simp: MAX_PRIO_def)
  next
    case False
    let ?s = "s\<lparr>count := count s + 1, MarkedPrior := MarkedPrior s + 1\<rparr>"
    have step: "mlq_scan st s = mlq_scan st ?s"
      using False ready k Suc.prems by (subst mlq_scan.simps) (simp add: MAX_PRIO_def)
    have "case find (eligible ?s) [Suc k..<140] of
        None \<Rightarrow> mlq_scan st ?s = Inr (None, ?s\<lparr>count := count ?s + int (140 - Suc k), MarkedPrior := 140\<rparr>)
      | Some i \<Rightarrow> \<exists>p s'. mlq_scan st ?s = Inr (Some p, s') \<and> served st ?s i p s'"
      using Suc.prems Suc.hyps(2) by (intro Suc.hyps(1)) auto
    then show ?thesis
      using False k by (auto simp: step of_nat_diff split: option.splits)
  qed
qed

text \<open>
  The specification of \<open>get_mlq_proc\<close>. The marked level goes on being served while it can;
  then the lowest eligible level from there on; then, with refilled slots, the lowest
  level with a process. A pass that started at level 0 with the counter at 0 does not go
  on to the refilled pass: it gives up.
\<close>

definition first_choice :: "sched_t \<Rightarrow> nat option" where
  "first_choice s =
     (if flag s = 0 \<and> eligible s (nat (MarkedPrior s)) then Some (nat (MarkedPrior s))
      else find (eligible s) [nat (MarkedPrior s)..<140])"

definition lowest_waiting :: "sched_t \<Rightarrow> nat option" where
  "lowest_waiting s = find (\<lambda>i. level s i \<noteq> []) [0..<140]"

definition gives_up :: "sched_t \<Rightarrow> bool" where
  "gives_up s \<longleftrightarrow> first_choice s = None \<and> (MarkedPrior s = 0 \<and> count s = 0 \<or> lowest_waiting s = None)"

definition get_spec :: "pcb_store \<Rightarrow> sched_t \<Rightarrow> (pcb_ptr \<times> sched_t) \<Rightarrow> bool" where
  "get_spec st s r \<longleftrightarrow> (case first_choice s of
      Some i \<Rightarrow> (\<exists>p s'. r = (p, s') \<and> served st s i p s')
    | None \<Rightarrow>
        if gives_up s then r = (None, (new_round s)\<lparr>count := 140\<rparr>)
        else (\<exists>i p s'. lowest_waiting s = Some i \<and> r = (p, s') \<and> served st (new_round s) i p s'))"

lemma levels_ok_new_round [simp]: "levels_ok st (new_round s) = levels_ok st s"
  by (simp add: levels_ok_def new_round_def)

lemma eligible_new_round:
  assumes "levels_ok st s"
  shows "find (eligible (new_round s)) [0..<140] = lowest_waiting s"
  unfolding lowest_waiting_def using assms
  by (intro find_cong) (auto simp: eligible_def new_round_def levels_ok_def)

lemma unlock_served:
  "served st (s\<lparr>queue_lock := True\<rparr>) i p s' \<Longrightarrow> \<not> queue_lock s \<Longrightarrow> served st s i p (unlock_queue s')"
  by (auto simp: served_def unlock_queue_def)

text \<open>The second pass, from level 0 with refilled slots.\<close>

lemma refilled_pass:
  assumes "levels_ok st s"
  shows "case lowest_waiting s of
      None \<Rightarrow> get_mlq_label st ((new_round s)\<lparr>count := 0\<rparr>) = Inr (None, unlock_queue ((new_round s)\<lparr>count := 140\<rparr>))
    | Some i \<Rightarrow> \<exists>p s'. get_mlq_label st ((new_round s)\<lparr>count := 0\<rparr>) = Inr (p, unlock_queue s') \<and>
         served st (new_round s) i p s'"
proof -
  let ?s = "(new_round s)\<lparr>count := 0\<rparr>"
  have "levels_ok st ?s" using assms by simp
  moreover have "MarkedPrior ?s = int 0" by (simp add: new_round_def)
  ultimately have scan: "case find (eligible ?s) [0..<140] of
      None \<Rightarrow> mlq_scan st ?s = Inr (None, ?s\<lparr>count := count ?s + int (140 - 0), MarkedPrior := 140\<rparr>)
    | Some i \<Rightarrow> \<exists>p s'. mlq_scan st ?s = Inr (Some p, s') \<and> served st ?s i p s'"
    by (rule mlq_scan_spec) simp
  have e: "find (eligible ?s) [0..<140] = lowest_waiting s"
    using eligible_new_round [OF assms] by simp
  have f: "flag ?s \<noteq> 0" by (simp add: new_round_def)
  show ?thesis
  proof (cases "lowest_waiting s")
    case None
    then have "mlq_scan st ?s = Inr (None, ?s\<lparr>count := 140, MarkedPrior := 140\<rparr>)"
      using scan e by (simp add: new_round_def)
    with f None show ?thesis
      by (subst get_mlq_label.simps) (simp add: new_round_def Let_def MAX_PRIO_def unlock_queue_def)
  next
    case (Some i)
    then obtain p s' where "mlq_scan st ?s = Inr (Some p, s')" "served st ?s i p s'"
      using scan e by auto
    with f Some show ?thesis by (subst get_mlq_label.simps) auto
  qed
qed

lemma new_round_scan [simp]: "new_round (s\<lparr>count := c, MarkedPrior := m\<rparr>) = (new_round s)\<lparr>count := c\<rparr>"
  by (simp add: new_round_def)

text \<open>A pass from the current position, with the lock held.\<close>

lemma label_pass:
  assumes ok: "levels_ok st s" and f: "flag s \<noteq> 0" and m: "MarkedPrior s = int k" "k < 140"
    and cnt: "count s = 0 \<or> count s = 140 \<and> k = 0"
  shows "case find (eligible s) [k..<140] of
      Some i \<Rightarrow> \<exists>p s'. get_mlq_label st s = Inr (p, unlock_queue s') \<and> served st s i p s'
    | None \<Rightarrow>
        if k = 0 \<and> count s = 0 then get_mlq_label st s = Inr (None, unlock_queue ((new_round s)\<lparr>count := 140\<rparr>))
        else get_mlq_label st s = get_mlq_label st ((new_round s)\<lparr>count := 0\<rparr>)"
proof -
  note scan = mlq_scan_spec [OF ok m(1)]
  show ?thesis
  proof (cases "find (eligible s) [k..<140]")
    case None
    then have "mlq_scan st s = Inr (None, s\<lparr>count := count s + int (140 - k), MarkedPrior := 140\<rparr>)"
      using scan m by simp
    moreover have "count s + int (140 - k) = 140 \<longleftrightarrow> k = 0 \<and> count s = 0"
      using m cnt by auto
    ultimately show ?thesis
      using f None
      by (subst (1 2) get_mlq_label.simps [of st s]) (simp add: Let_def MAX_PRIO_def)
  next
    case (Some i)
    then obtain p s' where "mlq_scan st s = Inr (Some p, s')" "served st s i p s'"
      using scan m by auto
    with f Some show ?thesis by (subst get_mlq_label.simps) auto
  qed
qed

lemma lowest_waiting_scan [simp]:
  "lowest_waiting (s\<lparr>queue_lock := b, flag := f\<rparr>) = lowest_waiting s"
  by (simp add: lowest_waiting_def)

lemma pass_result:
  assumes ok: "levels_ok st s" "\<not> queue_lock s" "0 \<le> MarkedPrior s" "MarkedPrior s < 140"
    and cnt: "count s = 0 \<or> count s = 140 \<and> MarkedPrior s = 0"
  shows "\<exists>r. get_mlq_label st (s\<lparr>queue_lock := True, flag := 1\<rparr>) = Inr r \<and>
    (case find (eligible s) [nat (MarkedPrior s)..<140] of
      Some i \<Rightarrow> (\<exists>p s'. r = (p, s') \<and> served st s i p s')
    | None \<Rightarrow>
        if MarkedPrior s = 0 \<and> count s = 0 \<or> lowest_waiting s = None
        then r = (None, (new_round s)\<lparr>count := 140\<rparr>)
        else (\<exists>i p s'. lowest_waiting s = Some i \<and> r = (p, s') \<and> served st (new_round s) i p s'))"
proof -
  let ?l = "s\<lparr>queue_lock := True, flag := 1\<rparr>" and ?k = "nat (MarkedPrior s)"
  have lok: "levels_ok st ?l" using ok(1) by simp
  have nr: "new_round ?l = (new_round s)\<lparr>queue_lock := True\<rparr>" by (simp add: new_round_def)
  have none: "unlock_queue ((new_round ?l)\<lparr>count := 140\<rparr>) = (new_round s)\<lparr>count := 140\<rparr>"
    using ok(2) by (simp add: new_round_def unlock_queue_def)
  have srv: "served st s i p (unlock_queue s')" if "served st ?l i p s'" for i p s'
    using that ok(2) by (intro unlock_served) simp_all
  have srv2: "served st (new_round s) i p (unlock_queue s')" if "served st (new_round ?l) i p s'" for i p s'
    using that ok(2) unfolding nr by (intro unlock_served) (simp_all add: new_round_def)
  have pass: "case find (eligible ?l) [?k..<140] of
      Some i \<Rightarrow> \<exists>p s'. get_mlq_label st ?l = Inr (p, unlock_queue s') \<and> served st ?l i p s'
    | None \<Rightarrow>
        if ?k = 0 \<and> count ?l = 0 then get_mlq_label st ?l = Inr (None, unlock_queue ((new_round ?l)\<lparr>count := 140\<rparr>))
        else get_mlq_label st ?l = get_mlq_label st ((new_round ?l)\<lparr>count := 0\<rparr>)"
    using ok cnt by (intro label_pass [OF lok]) auto
  note second = refilled_pass [OF lok]
  show ?thesis
  proof (cases "find (eligible s) [?k..<140]")
    case (Some i)
    with pass srv show ?thesis by auto
  next
    case None
    show ?thesis
    proof (cases "MarkedPrior s = 0 \<and> count s = 0")
      case True
      with pass None none show ?thesis by simp
    next
      case False
      with pass None ok(3) have eq: "get_mlq_label st ?l = get_mlq_label st ((new_round ?l)\<lparr>count := 0\<rparr>)"
        by (auto split: if_splits)
      show ?thesis
      proof (cases "lowest_waiting s")
        case None
        with second eq none \<open>find (eligible s) [?k..<140] = None\<close> show ?thesis by simp
      next
        case (Some i)
        with second eq srv2 \<open>find (eligible s) [?k..<140] = None\<close> False show ?thesis by auto
      qed
    qed
  qed
qed

lemma get_mlq_proc_spec:
  assumes "sched_ok st s"
  shows "\<exists>r. get_mlq_proc st s = Inr r \<and> get_spec st s r"
proof -
  let ?l = "s\<lparr>queue_lock := True\<rparr>" and ?k = "nat (MarkedPrior s)"
  from assms have ok: "levels_ok st s" "\<not> queue_lock s" "0 \<le> MarkedPrior s" "MarkedPrior s < 140"
    and cnt: "count s = 0 \<or> count s = 140 \<and> MarkedPrior s = 0"
    and flag: "flag s = 0 \<or> flag s = 1"
    by (auto simp: sched_ok_def)
  have k: "?k < 140" "MarkedPrior ?l = int ?k" using ok(3,4) by simp_all
  have lok: "levels_ok st ?l" using ok(1) by simp
  have get: "get_mlq_proc st s = get_mlq_label st ?l"
    using ok(2) by (simp add: get_mlq_proc_def lock_queue_def)
  show ?thesis
  proof (cases "flag s = 0 \<and> eligible s ?k")
    case True
    then have "level s ?k \<noteq> []" by (simp add: eligible_def)
    then obtain p s' where t: "take_marked st ?l = Inr (p, s')"
      "served st ?l ?k p (s'\<lparr>flag := 0, count := 0\<rparr>)" "flag s' = flag s" "count s' = count s"
      using take_marked_spec [OF lok k(2,1)] by auto
    have "count s = 0" using assms True by (auto simp: sched_ok_def)
    then have "s'\<lparr>flag := 0, count := 0\<rparr> = s'" using t(3,4) True by simp
    with t(2) ok(2) have "served st s ?k p (unlock_queue s')" by (metis unlock_served)
    moreover have "marked_ready ?l = Inr True"
      using marked_ready_spec [OF lok k(2,1)] True by simp
    ultimately show ?thesis
      using True t(1) unfolding get
      by (subst get_mlq_label.simps) (auto simp: get_spec_def first_choice_def)
  next
    case False
    have lab: "get_mlq_label st ?l = get_mlq_label st (s\<lparr>queue_lock := True, flag := 1\<rparr>)"
    proof (cases "flag s = 0")
      case True
      with False have "marked_ready ?l = Inr False"
        using marked_ready_spec [OF lok k(2,1)] by simp
      with True show ?thesis by (subst get_mlq_label.simps) simp
    next
      case False
      then have "s\<lparr>queue_lock := True, flag := 1\<rparr> = ?l" using flag by simp
      then show ?thesis by simp
    qed
    have fc: "first_choice s = find (eligible s) [?k..<140]"
      using False by (auto simp: first_choice_def)
    from pass_result [OF ok cnt] obtain r
      where "get_mlq_label st (s\<lparr>queue_lock := True, flag := 1\<rparr>) = Inr r" "get_spec st s r"
      unfolding get_spec_def gives_up_def fc by (cases "find (eligible s) [?k..<140]") auto
    then show ?thesis by (auto simp: get lab)
  qed
qed

section \<open>Keeping the invariant\<close>

lemma served_levels:
  assumes "levels_ok st s" "served st s i p s'"
  shows "levels_ok st s'"
proof -
  obtain q' where q: "i < 140" "queue_ok st q'" "level s i = p # q_list q'"
    and s': "s' = s\<lparr>mlq_ready_queue := (mlq_ready_queue s)[i := q'], slot := (slot s)[i := slot s ! i + 1],
            MarkedPrior := int i, flag := 0, count := 0\<rparr>"
    using assms(2) by (auto simp: served_def)
  have "uint (prio_of st x) = int i" if "x \<in> set (q_list q')" for x
    using assms(1) q(1,3) that by (simp add: levels_ok_def)
  then show ?thesis
    using assms(1) q(1,2) unfolding levels_ok_def s' by (auto simp: nth_list_update split: if_splits)
qed

lemma get_spec_ok:
  assumes ok: "sched_ok st s" and r: "get_spec st s (p, s')"
  shows "sched_ok st s'"
proof -
  have srv: "sched_ok st s'" if "levels_ok st t" "\<not> queue_lock t" "served st t i p s'" for t i
    using served_levels [OF that(1,3)] that(2,3) by (auto simp: sched_ok_def served_def)
  have base: "levels_ok st s" "\<not> queue_lock s" using ok by (simp_all add: sched_ok_def)
  have "sched_ok st s'" if "served st s i p s'" for i
    using srv [OF base that] .
  moreover have "sched_ok st s'" if "served st (new_round s) i p s'" for i
    using srv [OF _ _ that] base by (simp add: new_round_def levels_ok_def)
  moreover have "sched_ok st ((new_round s)\<lparr>count := 140\<rparr>)"
    using ok by (simp add: sched_ok_def new_round_def levels_ok_def)
  ultimately show ?thesis
    using r unfolding get_spec_def by (auto split: option.splits if_splits)
qed

text \<open>All processes waiting at any level.\<close>

definition waiting :: "sched_t \<Rightarrow> pcb_ptr multiset" where
  "waiting s = mset (concat (map q_list (mlq_ready_queue s)))"

lemma waiting_update:
  assumes "i < length (mlq_ready_queue s)"
  shows "waiting (s\<lparr>mlq_ready_queue := (mlq_ready_queue s)[i := q]\<rparr>) + mset (level s i) =
     waiting s + mset (q_list q)"
proof -
  let ?qs = "mlq_ready_queue s"
  have "waiting s = mset (concat (map q_list (take i ?qs @ ?qs ! i # drop (Suc i) ?qs)))"
    unfolding waiting_def using assms by (simp only: id_take_nth_drop [symmetric])
  then show ?thesis
    using assms by (simp add: waiting_def upd_conv_take_nth_drop)
qed

lemma waiting_fields [simp]:
  "waiting (s\<lparr>slot := sl\<rparr>) = waiting s" "waiting (s\<lparr>MarkedPrior := m\<rparr>) = waiting s"
  "waiting (s\<lparr>flag := f\<rparr>) = waiting s" "waiting (s\<lparr>count := c\<rparr>) = waiting s"
  "waiting (s\<lparr>queue_lock := b\<rparr>) = waiting s" "waiting (s\<lparr>running_list := r\<rparr>) = waiting s"
  by (simp_all add: waiting_def)

lemma served_conserves:
  assumes "levels_ok st s" "served st s i p s'"
  shows "waiting s = add_mset p (waiting s')"
proof -
  obtain q' where q: "i < 140" "level s i = p # q_list q'"
    and s': "s' = s\<lparr>mlq_ready_queue := (mlq_ready_queue s)[i := q'], slot := (slot s)[i := slot s ! i + 1],
            MarkedPrior := int i, flag := 0, count := 0\<rparr>"
    using assms(2) by (auto simp: served_def)
  have "waiting s' = waiting (s\<lparr>mlq_ready_queue := (mlq_ready_queue s)[i := q']\<rparr>)"
    by (simp add: s' waiting_def)
  with q waiting_update [of i s q'] assms(1) show ?thesis by (simp add: levels_ok_def)
qed

lemma waiting_new_round [simp]: "waiting (new_round s) = waiting s"
  by (simp add: new_round_def waiting_def)

lemma get_spec_conserves:
  assumes "sched_ok st s" "get_spec st s (p, s')"
  shows "if first_choice s = None \<and> gives_up s then p = None \<and> waiting s' = waiting s
         else waiting s = add_mset p (waiting s')"
proof -
  have "levels_ok st s" using assms(1) by (simp add: sched_ok_def)
  moreover from this have "levels_ok st (new_round s)" by simp
  ultimately show ?thesis
    using assms(2) served_conserves [of st s _ p s'] served_conserves [of st "new_round s" _ p s']
    unfolding get_spec_def by (auto split: option.splits if_splits)
qed

text \<open>A process taken from a level is a live PCB, so it is never NULL.\<close>

lemma served_live: "levels_ok st s \<Longrightarrow> served st s i p s' \<Longrightarrow> live st p \<and> uint (prio_of st p) = int i"
  by (auto simp: served_def levels_ok_def queue_ok_def)

lemma waiting_empty_iff:
  "levels_ok st s \<Longrightarrow> waiting s = {#} \<longleftrightarrow> lowest_waiting s = None"
  by (auto simp: waiting_def lowest_waiting_def find_None_iff levels_ok_def in_set_conv_nth
      concat_eq_Nil_conv) (metis nth_mem)

lemma get_spec_null:
  assumes "sched_ok st s" "get_spec st s (None, s')"
  shows "gives_up s \<and> s' = (new_round s)\<lparr>count := 140\<rparr>"
proof -
  have "levels_ok st s" using assms(1) by (simp add: sched_ok_def)
  then have "\<not> served st s i None s'" "\<not> served st (new_round s) i None s'" for i
    using served_live [of st s i None s'] served_live [of st "new_round s" i None s'] by (auto simp: live_def)
  with assms(2) show ?thesis unfolding get_spec_def by (auto split: option.splits if_splits)
qed

text \<open>After a call that found nothing, the next one serves the lowest waiting level.\<close>

lemma get_after_null:
  assumes "sched_ok st s" "lowest_waiting s = Some i"
    and "get_spec st ((new_round s)\<lparr>count := 140\<rparr>) (p, s')"
  shows "served st (new_round s) i p s'"
proof -
  let ?s = "(new_round s)\<lparr>count := 140\<rparr>"
  have lv: "levels_ok st s" using assms(1) by (simp add: sched_ok_def)
  have "first_choice ?s = find (eligible (new_round s)) [0..<140]"
    by (simp add: first_choice_def new_round_def)
  then have "first_choice ?s = Some i"
    using eligible_new_round [OF lv] assms(2) by simp
  with assms(3) show ?thesis by (simp add: get_spec_def)
qed

section \<open>The slot budget\<close>

lemma served_slots:
  assumes "levels_ok st s" "slots_within s" "slot s ! i < 140 - int i" "served st s i p s'"
  shows "slots_within s'"
  using assms unfolding slots_within_def served_def by (auto simp: nth_list_update levels_ok_def)

lemma first_choice_eligible:
  assumes "sched_ok st s" "first_choice s = Some i"
  shows "eligible s i"
  using assms by (auto simp: first_choice_def find_Some_iff split: if_splits)

lemma slots_new_round: "slots_within s \<Longrightarrow> length (slot s) = 140 \<Longrightarrow> slots_within (new_round s)"
  by (simp add: slots_within_def new_round_def)

lemma get_spec_slots:
  assumes "sched_ok st s" "slots_within s" "get_spec st s (p, s')"
  shows "slots_within s'"
proof -
  have lv: "levels_ok st s" "length (slot s) = 140"
    using assms(1) by (simp_all add: sched_ok_def levels_ok_def)
  then have lv2: "levels_ok st (new_round s)" by simp
  note nr = slots_new_round [OF assms(2) lv(2)]
  have "slots_within s'" if "first_choice s = Some i" "served st s i p s'" for i
    using served_slots [OF lv(1) assms(2) _ that(2)] first_choice_eligible [OF assms(1) that(1)]
    by (simp add: eligible_def)
  moreover have "slots_within s'" if "served st (new_round s) i p s'" for i
    using served_slots [OF lv2 nr _ that] lv(2) that by (auto simp: new_round_def served_def)
  moreover have "slots_within ((new_round s)\<lparr>count := 140\<rparr>)"
    using nr by (simp add: slots_within_def)
  ultimately show ?thesis
    using assms(3) unfolding get_spec_def by (auto split: option.splits if_splits)
qed

section \<open>Putting processes back\<close>

definition list_ok :: "queue_t \<Rightarrow> bool" where
  "list_ok q \<longleftrightarrow> length (procs q) = 10 \<and> 0 \<le> qsize q \<and> qsize q \<le> 10"

lemma enqueue_list_ok:
  "list_ok q \<Longrightarrow> \<exists>q'. enqueue q p = Inr q' \<and> list_ok q' \<and>
     q_list q' = (if qsize q < 10 then q_list q @ [p] else q_list q)"
  by (auto simp: list_ok_def enqueue_def MAX_QUEUE_SIZE_def arr_set_def q_list_def nat_add_distrib
      take_Suc_conv_app_nth)

text \<open>Changing a PCB without changing its priority keeps the queues well formed.\<close>

lemma live_update [simp]: "st a = Some b \<Longrightarrow> live (st(a \<mapsto> b')) p = live st p"
  by (auto simp: live_def)

lemma prio_of_update:
  "st a = Some b \<Longrightarrow> prio b' = prio b \<Longrightarrow> prio_of (st(a \<mapsto> b')) p = prio_of st p"
  by (cases p) (auto simp: prio_of_def pcb_at_def)

lemma levels_ok_update:
  assumes "st a = Some b" "prio b' = prio b" "levels_ok st s"
  shows "levels_ok (st(a \<mapsto> b')) s"
  using assms(3) by (simp add: levels_ok_def queue_ok_def assms(1) prio_of_update [of st a b b', OF assms(1,2)])

text \<open>Level \<open>i\<close> after process \<open>p\<close> was put there: a full queue drops it.\<close>

definition appended :: "sched_t \<Rightarrow> nat \<Rightarrow> pcb_ptr \<Rightarrow> sched_t \<Rightarrow> bool" where
  "appended s i p s' \<longleftrightarrow> (\<exists>q. s' = s\<lparr>mlq_ready_queue := (mlq_ready_queue s)[i := q]\<rparr> \<and>
     q_list q = (if length (level s i) < 10 then level s i @ [p] else level s i))"

lemma put_mlq_proc_spec:
  assumes ok: "levels_ok st s" "\<not> queue_lock s" and p: "st a = Some b" "uint (prio b) = int i" "i < 140"
  shows "\<exists>s'. put_mlq_proc st s (Some a) = Inr s' \<and> appended s i (Some a) s' \<and> levels_ok st s'"
proof -
  have pr: "uint (prio_of st (Some a)) = int i" and lv: "live st (Some a)"
    using p by (simp_all add: prio_of_def pcb_at_def live_def)
  obtain q where q: "enqueue (mlq_ready_queue s ! i) (Some a) = Inr q" "queue_ok st q"
    "q_list q = (if length (level s i) < 10 then level s i @ [Some a] else level s i)"
    using pq.enq_total [OF _ lv, of "mlq_ready_queue s ! i"] ok(1) p(3) by (auto simp: levels_ok_def)
  let ?s = "s\<lparr>mlq_ready_queue := (mlq_ready_queue s)[i := q]\<rparr>"
  have "put_mlq_proc st s (Some a) = Inr ?s"
    using ok p q(1)
    by (simp add: put_mlq_proc_def lock_queue_def unlock_queue_def pcb_at_def arr_get_def arr_set_def levels_ok_def)
  moreover have "\<forall>x \<in> set (q_list q). uint (prio_of st x) = int i"
    using ok(1) p(3) pr q(3) by (auto simp: levels_ok_def)
  then have "levels_ok st ?s"
    using ok(1) q(2) p(3) unfolding levels_ok_def by (auto simp: nth_list_update)
  ultimately show ?thesis using q(3) unfolding appended_def by blast
qed

lemma add_mlq_proc_eq: "add_mlq_proc = put_mlq_proc"
  by (simp add: add_mlq_proc_def put_mlq_proc_def fun_eq_iff)

lemma add_proc_eq: "add_proc = put_proc"
  by (simp add: add_proc_def put_proc_def add_mlq_proc_eq fun_eq_iff)

lemma put_proc_spec:
  assumes ok: "sched_ok st s" "list_ok (running_list s)"
    and p: "st a = Some b" "uint (prio b) = int i" "i < 140"
  shows "\<exists>s' r. put_proc st s (Some a) = Inr (st(a \<mapsto> link_queues b), s') \<and>
     appended (s\<lparr>running_list := r\<rparr>) i (Some a) s' \<and> list_ok r \<and>
     q_list r = (if qsize (running_list s) < 10 then q_list (running_list s) @ [Some a] else q_list (running_list s)) \<and>
     sched_ok (st(a \<mapsto> link_queues b)) s'"
proof -
  let ?st = "st(a \<mapsto> link_queues b)"
  have lb: "prio (link_queues b) = prio b" by (simp add: link_queues_def)
  obtain r where r: "enqueue (running_list s) (Some a) = Inr r" "list_ok r"
    "q_list r = (if qsize (running_list s) < 10 then q_list (running_list s) @ [Some a] else q_list (running_list s))"
    using enqueue_list_ok [OF ok(2)] by blast
  have s: "levels_ok st s" "\<not> queue_lock s" using ok(1) by (simp_all add: sched_ok_def)
  let ?s = "s\<lparr>running_list := r\<rparr>"
  have noted: "note_running st s (Some a) = Inr (?st, ?s)"
    using p(1) s(2) r(1) by (simp add: note_running_def pcb_at_def lock_queue_def unlock_queue_def)
  have "levels_ok ?st ?s"
    using levels_ok_update [OF p(1) lb s(1)] by (simp add: levels_ok_def)
  then obtain s' where s': "put_mlq_proc ?st ?s (Some a) = Inr s'" "appended ?s i (Some a) s'" "levels_ok ?st s'"
    using put_mlq_proc_spec [of ?st ?s a "link_queues b" i] s(2) p(2,3) lb by auto
  then have "sched_ok ?st s'"
    using ok(1) by (auto simp: sched_ok_def appended_def)
  with noted s'(1,2) r(2,3) show ?thesis by (auto simp: put_proc_def)
qed

lemma appended_waiting:
  assumes "appended s i p s'" "i < length (mlq_ready_queue s)" "length (level s i) < 10"
  shows "waiting s' = add_mset p (waiting s)"
proof -
  obtain q where "s' = s\<lparr>mlq_ready_queue := (mlq_ready_queue s)[i := q]\<rparr>" "q_list q = level s i @ [p]"
    using assms(1,3) by (auto simp: appended_def)
  with waiting_update [OF assms(2), of q] show ?thesis by simp
qed

section \<open>Start\<close>

lemma q_list_static [simp]: "q_list (q\<lparr>qsize := 0\<rparr>) = []"
  by (simp add: q_list_def)

lemma init_scheduler_ok:
  "sched_ok st (init_scheduler static_sched)" "list_ok (running_list (init_scheduler static_sched))"
  by (simp_all add: sched_ok_def levels_ok_def init_scheduler_def static_sched_def static_queue_def
      MAX_PRIO_def MAX_QUEUE_SIZE_def queue_ok_def list_ok_def q_list_def)

lemma init_slots: "slot (init_scheduler s) = map (\<lambda>i. 140 - i) [0..139]"
  by (simp add: init_scheduler_def MAX_PRIO_def)

lemma slot_init_nth: "i < 140 \<Longrightarrow> map (\<lambda>i. 140 - i) [0..139] ! i = 140 - int i"
  by (simp add: nth_upto)

section \<open>Properties\<close>

text \<open>For the witnesses: process 5 waits at level 3, processes 6 and 7 at level 7, and all
  slots are free.\<close>

definition demo_sched :: sched_t where
  "demo_sched = static_sched\<lparr>mlq_ready_queue := (replicate 140 static_queue)
     [3 := \<lparr>procs = Some 5 # replicate 9 None, qsize = 1\<rparr>,
      7 := \<lparr>procs = Some 6 # Some 7 # replicate 8 None, qsize = 2\<rparr>]\<rparr>"

lemma demo_levels: "level demo_sched i = (if i = 3 then [Some 5] else if i = 7 then [Some 6, Some 7] else [])"
  if "i < 140"
  using that by (auto simp: demo_sched_def nth_list_update q_list_def static_queue_def)

lemma demo_sched_ok: "sched_ok demo_store demo_sched"
proof -
  have "queue_ok demo_store (mlq_ready_queue demo_sched ! i)" if "i < 140" for i
    using that unfolding queue_ok_def demo_levels [OF that]
    by (auto simp: demo_sched_def static_queue_def MAX_QUEUE_SIZE_def nth_list_update)
  moreover have "\<forall>p \<in> set (level demo_sched i). uint (prio_of demo_store p) = int i" if "i < 140" for i
    unfolding demo_levels [OF that] by auto
  ultimately have "levels_ok demo_store demo_sched"
    by (auto simp: levels_ok_def demo_sched_def static_sched_def MAX_PRIO_def)
  then show ?thesis by (simp add: sched_ok_def demo_sched_def static_sched_def)
qed

lemma demo_waiting: "waiting demo_sched \<noteq> {#}"
proof -
  have "Some 5 \<in> set (level demo_sched 3)" by (simp add: demo_levels)
  moreover have "mlq_ready_queue demo_sched ! 3 \<in> set (mlq_ready_queue demo_sched)"
    by (intro nth_mem) (simp add: demo_sched_def)
  ultimately have "Some 5 \<in># waiting demo_sched" unfolding waiting_def by auto
  then show ?thesis by auto
qed

text \<open>C11. \<open>get_proc\<close> always returns, releases the lock, keeps the scheduler well formed and
  makes the choice of the specification: the marked level while its slots last, then the
  next eligible level, then the lowest waiting level with all slots refilled. The process
  it returns is the oldest of its level.\<close>

theorem get_proc_refines_spec:
  assumes "sched_ok st s"
  shows "\<exists>p s'. get_proc st s = Inr (p, s') \<and> get_spec st s (p, s') \<and> sched_ok st s'"
  using get_mlq_proc_spec [OF assms] get_spec_ok [OF assms] by (auto simp: get_proc_def)

theorem get_proc_refines_spec_witness:
  "\<exists>p s'. get_proc demo_store demo_sched = Inr (p, s') \<and> get_spec demo_store demo_sched (p, s') \<and>
     sched_ok demo_store s'"
  by (rule get_proc_refines_spec [OF demo_sched_ok])

text \<open>\<open>get_proc\<close> neither loses nor duplicates a process: the one it returns is removed
  from the waiting ones, and when it returns NULL the waiting processes are as before.\<close>

theorem get_proc_conserves:
  assumes "sched_ok st s" "get_proc st s = Inr (p, s')"
  shows "if p = None then waiting s' = waiting s else waiting s = add_mset p (waiting s')"
proof -
  obtain r where "get_proc st s = Inr r" "get_spec st s r"
    using get_mlq_proc_spec [OF assms(1)] by (auto simp: get_proc_def)
  with assms(2) have r: "get_spec st s (p, s')" by simp
  show ?thesis
    using get_spec_conserves [OF assms(1) r] get_spec_null [OF assms(1)] r
    by (cases p) (auto simp: gives_up_def split: if_splits)
qed

theorem get_proc_conserves_witness:
  "\<exists>p s'. get_proc demo_store demo_sched = Inr (p, s') \<and>
     (if p = None then waiting s' = waiting demo_sched else waiting demo_sched = add_mset p (waiting s'))"
proof -
  obtain p s' where "get_proc demo_store demo_sched = Inr (p, s')"
    using get_mlq_proc_spec [OF demo_sched_ok] by (auto simp: get_proc_def)
  with get_proc_conserves [OF demo_sched_ok] show ?thesis by blast
qed

text \<open>While a process waits, a CPU that asks twice in a row gets one: \<open>get_proc\<close> may
  return NULL once, and then the next call returns a process.\<close>

theorem get_proc_twice_serves:
  assumes "sched_ok st s" "waiting s \<noteq> {#}"
  shows "(\<exists>a s'. get_proc st s = Inr (Some a, s')) \<or>
     (\<exists>s1 a s'. get_proc st s = Inr (None, s1) \<and> get_proc st s1 = Inr (Some a, s'))"
proof -
  have lv: "levels_ok st s" using assms(1) by (simp add: sched_ok_def)
  then obtain i where i: "lowest_waiting s = Some i" using assms(2) waiting_empty_iff by blast
  obtain p s1 where g: "get_proc st s = Inr (p, s1)" "get_spec st s (p, s1)"
    using get_mlq_proc_spec [OF assms(1)] by (auto simp: get_proc_def)
  show ?thesis
  proof (cases p)
    case None
    with g(2) have s1: "s1 = (new_round s)\<lparr>count := 140\<rparr>" using get_spec_null [OF assms(1)] by blast
    have "sched_ok st s1" using get_spec_ok [OF assms(1) g(2)] .
    then obtain p' s' where g': "get_proc st s1 = Inr (p', s')" "get_spec st s1 (p', s')"
      using get_mlq_proc_spec [of st s1] by (auto simp: get_proc_def)
    then have "served st (new_round s) i p' s'" using get_after_null [OF assms(1) i] s1 by blast
    then have "live st p'" using served_live [of st "new_round s"] lv by simp
    then show ?thesis using g(1) g'(1) None by (auto simp: live_def)
  next
    case (Some a)
    with g(1) show ?thesis by blast
  qed
qed

theorem get_proc_twice_serves_witness:
  "(\<exists>a s'. get_proc demo_store demo_sched = Inr (Some a, s')) \<or>
     (\<exists>s1 a s'. get_proc demo_store demo_sched = Inr (None, s1) \<and> get_proc demo_store s1 = Inr (Some a, s'))"
  by (rule get_proc_twice_serves [OF demo_sched_ok demo_waiting])

text \<open>C35. \<open>put_proc\<close> and \<open>add_proc\<close> set the queue pointers of the PCB, append the process to the
  ready queue of its level, change no other level, and keep the running list well formed. A
  level that already holds ten processes drops the process: it is on no ready queue and will
  never run again.\<close>

theorem put_proc_appends_or_drops:
  assumes "sched_ok st s" "list_ok (running_list s)" "st a = Some b" "uint (prio b) = int i" "i < 140"
  shows "\<exists>s'. put_proc st s (Some a) = Inr (st(a \<mapsto> link_queues b), s') \<and>
     add_proc st s (Some a) = Inr (st(a \<mapsto> link_queues b), s') \<and>
     sched_ok (st(a \<mapsto> link_queues b)) s' \<and> list_ok (running_list s') \<and>
     (\<forall>j < 140. j \<noteq> i \<longrightarrow> level s' j = level s j) \<and>
     level s' i = (if length (level s i) < 10 then level s i @ [Some a] else level s i) \<and>
     waiting s' = (if length (level s i) < 10 then add_mset (Some a) (waiting s) else waiting s)"
proof -
  obtain s' r where p: "put_proc st s (Some a) = Inr (st(a \<mapsto> link_queues b), s')"
    and app: "appended (s\<lparr>running_list := r\<rparr>) i (Some a) s'" and r: "list_ok r"
    and ok: "sched_ok (st(a \<mapsto> link_queues b)) s'"
    using put_proc_spec [OF assms] by blast
  have len: "length (mlq_ready_queue s) = 140" using assms(1) by (simp add: sched_ok_def levels_ok_def)
  obtain q where s': "s' = s\<lparr>running_list := r, mlq_ready_queue := (mlq_ready_queue s)[i := q]\<rparr>"
    and q: "q_list q = (if length (level s i) < 10 then level s i @ [Some a] else level s i)"
    using app by (auto simp: appended_def)
  have "waiting s' + mset (level s i) = waiting s + mset (q_list q)"
    using waiting_update [of i s q] len assms(5) by (simp add: s' waiting_def)
  then have "waiting s' = (if length (level s i) < 10 then add_mset (Some a) (waiting s) else waiting s)"
    unfolding q by auto
  with p r ok q len assms(5) show ?thesis
    by (intro exI [of _ s']) (simp add: s' add_proc_eq)
qed

theorem put_proc_appends_or_drops_witness:
  "\<exists>s'. put_proc demo_store demo_sched (Some 6) = Inr (demo_store(6 \<mapsto> link_queues (demo_pcb 2 7)), s') \<and>
     level s' 7 = [Some 6, Some 7, Some 6]"
proof -
  have "list_ok (running_list demo_sched)" "demo_store 6 = Some (demo_pcb 2 7)"
    "uint (prio (demo_pcb 2 7)) = int 7"
    by (simp_all add: list_ok_def demo_sched_def static_sched_def static_queue_def MAX_QUEUE_SIZE_def
        demo_store_def demo_pcb_def)
  from put_proc_appends_or_drops [OF demo_sched_ok this] show ?thesis
    by (auto simp: demo_levels)
qed

text \<open>C36. Right after \<open>init_scheduler\<close> every level counts as having used up its slots: the
  first \<open>get_proc\<close> returns NULL although a process waits, and only the second one returns
  that process.\<close>

theorem first_get_after_start_is_null:
  assumes "st a = Some b" "uint (prio b) = int i" "i < 140"
  shows "\<exists>st' s1 s2 s3. add_proc st (init_scheduler static_sched) (Some a) = Inr (st', s1) \<and>
     waiting s1 = {#Some a#} \<and> get_proc st' s1 = Inr (None, s2) \<and> get_proc st' s2 = Inr (Some a, s3) \<and>
     waiting s3 = {#}"
proof -
  let ?s0 = "init_scheduler static_sched" and ?st = "st(a \<mapsto> link_queues b)"
  have lv0: "level ?s0 j = []" if "j < 140" for j
    using that by (simp add: init_scheduler_def static_sched_def MAX_PRIO_def)
  then have l0: "length (level ?s0 i) < 10" using assms(3) by simp
  obtain s1 r where add: "add_proc st ?s0 (Some a) = Inr (?st, s1)"
    and app: "appended (?s0\<lparr>running_list := r\<rparr>) i (Some a) s1" and ok1: "sched_ok ?st s1"
    using put_proc_spec [of st ?s0 a b i, OF init_scheduler_ok assms] by (auto simp: add_proc_eq)
  have len0: "length (mlq_ready_queue ?s0) = 140"
    by (simp add: init_scheduler_def static_sched_def MAX_PRIO_def)
  have w0: "waiting ?s0 = {#}"
    using waiting_empty_iff [of st ?s0] init_scheduler_ok(1) [of st] lv0
    by (simp add: sched_ok_def lowest_waiting_def find_None_iff)
  have w1: "waiting s1 = {#Some a#}"
    using appended_waiting [OF app] len0 assms(3) l0 w0 by simp
  have slots: "slot s1 = map (\<lambda>i. 140 - i) [0..139]" "MarkedPrior s1 = 0" "count s1 = 0" "flag s1 = 1"
    using app by (auto simp: appended_def init_slots) (simp_all add: init_scheduler_def static_sched_def)
  have "\<not> eligible s1 j" if "j < 140" for j
    using slot_init_nth [OF that] slots(1) by (simp add: eligible_def)
  then have "first_choice s1 = None" by (simp add: first_choice_def slots find_None_iff)
  then have g1: "get_proc ?st s1 = Inr (None, (new_round s1)\<lparr>count := 140\<rparr>)"
    using get_mlq_proc_spec [OF ok1] by (auto simp: get_spec_def gives_up_def slots get_proc_def)
  let ?s2 = "(new_round s1)\<lparr>count := 140\<rparr>"
  have lv1: "levels_ok ?st s1" using ok1 by (simp add: sched_ok_def)
  then obtain k where k: "lowest_waiting s1 = Some k" using w1 waiting_empty_iff by force
  have ok2: "sched_ok ?st ?s2" using ok1 by (simp add: sched_ok_def) (simp add: new_round_def)
  obtain p s3 where g2: "get_proc ?st ?s2 = Inr (p, s3)" "get_spec ?st ?s2 (p, s3)"
    using get_mlq_proc_spec [OF ok2] by (auto simp: get_proc_def)
  have srv: "served ?st (new_round s1) k p s3" using get_after_null [OF ok1 k g2(2)] .
  then have "waiting s1 = add_mset p (waiting s3)"
    using served_conserves [of ?st "new_round s1"] lv1 by simp
  then have "p = Some a" "waiting s3 = {#}" using w1 by simp_all
  with add w1 g1 g2(1) show ?thesis by blast
qed

theorem first_get_after_start_is_null_witness:
  "\<exists>st' s1 s2 s3. add_proc demo_store (init_scheduler static_sched) (Some 5) = Inr (st', s1) \<and>
     waiting s1 = {#Some 5#} \<and> get_proc st' s1 = Inr (None, s2) \<and> get_proc st' s2 = Inr (Some 5, s3) \<and>
     waiting s3 = {#}"
proof -
  have "demo_store 5 = Some (demo_pcb 1 3)" "uint (prio (demo_pcb 1 3)) = int 3"
    by (simp_all add: demo_store_def demo_pcb_def)
  from first_get_after_start_is_null [of demo_store 5 "demo_pcb 1 3" 3, OF this] show ?thesis by simp
qed

end
