(* ===== verification/Flat.thy ===== *)
theory Flat
  imports Sched
begin

text \<open>
  The single-queue scheduler of \<open>src/sched.c\<close>, the code of a build without \<open>MLQ_SCHED\<close>
  (\<open>include/sched.h\<close> defines the macro whenever it is not defined, so no build selects this
  code). \<open>get_proc_flat\<close>, \<open>put_proc_flat\<close> and \<open>add_proc_flat\<close> are its \<open>get_proc\<close>, \<open>put_proc\<close>
  and \<open>add_proc\<close>. The call that would enter a process in the ready queue is commented out, so
  no process ever runs.
\<close>

section \<open>Operations\<close>

definition get_proc_flat :: "pcb_store \<Rightarrow> sched_t \<Rightarrow> (pcb_ptr \<times> sched_t) result" where
  "get_proc_flat st s =
     and_then (lock_queue s) (\<lambda>s.
     and_then (dequeue st (ready_queue s)) (\<lambda>(p, q).
       Inr (p, unlock_queue (s\<lparr>ready_queue := q\<rparr>))))"

definition put_proc_flat :: "pcb_store \<Rightarrow> sched_t \<Rightarrow> pcb_ptr \<Rightarrow> (pcb_store \<times> sched_t) result" where
  "put_proc_flat st s p =
     and_then (pcb_at st p) (\<lambda>b.
     and_then (deref p) (\<lambda>a.
     let st = st(a \<mapsto> b\<lparr>p_ready_queue := Some Ready_Queue, p_running_list := Some Running_List\<rparr>) in
     and_then (lock_queue s) (\<lambda>s.
     and_then (enqueue (running_list s) p) (\<lambda>q.
       Inr (st, unlock_queue (s\<lparr>running_list := q\<rparr>))))))"

definition add_proc_flat :: "pcb_store \<Rightarrow> sched_t \<Rightarrow> pcb_ptr \<Rightarrow> (pcb_store \<times> sched_t) result" where
  "add_proc_flat st s p =
     and_then (pcb_at st p) (\<lambda>b.
     and_then (deref p) (\<lambda>a.
     let st = st(a \<mapsto> b\<lparr>p_ready_queue := Some Ready_Queue, p_running_list := Some Running_List\<rparr>) in
     and_then (lock_queue s) (\<lambda>s.
     and_then (enqueue (running_list s) p) (\<lambda>q.
       Inr (st, unlock_queue (s\<lparr>running_list := q\<rparr>))))))"

section \<open>Runs\<close>

text \<open>Any sequence of calls, with any changes of the PCBs in between.\<close>

inductive flat_step :: "sched_t \<Rightarrow> sched_t \<Rightarrow> bool" where
  get: "get_proc_flat st s = Inr (p, s') \<Longrightarrow> flat_step s s'"
| put: "put_proc_flat st s p = Inr (st', s') \<Longrightarrow> flat_step s s'"
| add: "add_proc_flat st s p = Inr (st', s') \<Longrightarrow> flat_step s s'"

inductive flat_reachable :: "sched_t \<Rightarrow> bool" where
  start: "flat_reachable (init_scheduler static_sched)"
| more: "flat_reachable s \<Longrightarrow> flat_step s t \<Longrightarrow> flat_reachable t"

definition nobody_ready :: "sched_t \<Rightarrow> bool" where
  "nobody_ready s \<longleftrightarrow> qsize (ready_queue s) = 0 \<and> \<not> queue_lock s \<and> list_ok (running_list s)"

lemma add_proc_flat_eq: "add_proc_flat = put_proc_flat"
  by (simp add: fun_eq_iff add_proc_flat_def put_proc_flat_def)

lemma get_proc_flat_empty:
  assumes "nobody_ready s"
  shows "get_proc_flat st s = Inr (None, s)"
proof -
  have "dequeue st (ready_queue s) = Inr (None, ready_queue s)"
    using assms by (simp add: nobody_ready_def dequeue_def empty_queue_def)
  then show ?thesis using assms by (simp add: get_proc_flat_def nobody_ready_def lock_queue_def unlock_queue_def)
qed

lemma put_proc_flat_spec:
  assumes "nobody_ready s" "st a = Some b"
  shows "\<exists>q. put_proc_flat st s (Some a) =
       Inr (st(a \<mapsto> b\<lparr>p_ready_queue := Some Ready_Queue, p_running_list := Some Running_List\<rparr>), s\<lparr>running_list := q\<rparr>) \<and>
     list_ok q \<and> q_list q = (if qsize (running_list s) < 10 then q_list (running_list s) @ [Some a] else q_list (running_list s))"
proof -
  have s: "\<not> queue_lock s" "list_ok (running_list s)" using assms(1) by (simp_all add: nobody_ready_def)
  obtain q where "enqueue (running_list s) (Some a) = Inr q" "list_ok q"
    "q_list q = (if qsize (running_list s) < 10 then q_list (running_list s) @ [Some a] else q_list (running_list s))"
    using enqueue_list_ok [OF s(2), of "Some a"] by blast
  moreover have "s\<lparr>queue_lock := False, running_list := q\<rparr> = s\<lparr>running_list := q\<rparr>" using s(1) by simp
  ultimately show ?thesis using s(1) assms(2)
    by (intro exI [of _ q]) (simp add: put_proc_flat_def pcb_at_def lock_queue_def unlock_queue_def Let_def)
qed

lemma flat_step_keeps: "nobody_ready s \<Longrightarrow> flat_step s t \<Longrightarrow> nobody_ready t"
proof (erule flat_step.cases)
  fix st s' p s'' assume n: "nobody_ready s" and "s = s'" "t = s''" "get_proc_flat st s' = Inr (p, s'')"
  then show "nobody_ready t" using get_proc_flat_empty [OF n, of st] by simp
next
  have put: "nobody_ready t" if n: "nobody_ready s" and p: "put_proc_flat st s p = Inr (st', t)" for st p st'
  proof -
    obtain a b where "p = Some a" "st a = Some b" using p by (auto simp: put_proc_flat_def result_simps)
    then show ?thesis using put_proc_flat_spec [OF n, of st a b] n p by (auto simp: nobody_ready_def)
  qed
  fix st s' p st' s'' assume n: "nobody_ready s" and e: "s = s'" "t = s''"
  show "put_proc_flat st s' p = Inr (st', s'') \<Longrightarrow> nobody_ready t" using put n e by simp
  show "add_proc_flat st s' p = Inr (st', s'') \<Longrightarrow> nobody_ready t" using put n e by (simp add: add_proc_flat_eq)
qed

lemma flat_reachable_nobody: "flat_reachable s \<Longrightarrow> nobody_ready s"
proof (induction rule: flat_reachable.induct)
  case start
  show ?case by (simp add: nobody_ready_def init_scheduler_def static_sched_def static_queue_def list_ok_def MAX_QUEUE_SIZE_def)
next
  case (more s t)
  then show ?case using flat_step_keeps by blast
qed

text \<open>Whatever was added or put back, \<open>get_proc\<close> finds nothing and changes nothing.\<close>

lemma flat_never_dispatches: "flat_reachable s \<Longrightarrow> get_proc_flat st s = Inr (None, s)"
  using get_proc_flat_empty [OF flat_reachable_nobody] .

end
