(* ===== verification/Mem.thy ===== *)
theory Mem
  imports Common
begin

text \<open>
  The legacy memory of \<open>src/mem.c\<close>, which the paging build links but no longer calls: a
  RAM of one megabyte, a status record per page, and a two-level page table in the PCB.
  \<open>mem_lock\<close> is taken and given back inside \<open>alloc_mem\<close> only.
\<close>

section \<open>State and operations\<close>

definition ADDRESS_SIZE :: nat where "ADDRESS_SIZE = 20"
definition OFFSET_LEN :: nat where "OFFSET_LEN = 10"
definition FIRST_LV_LEN :: nat where "FIRST_LV_LEN = 5"
definition SECOND_LV_LEN :: nat where "SECOND_LV_LEN = 5"
definition PAGE_LEN :: nat where "PAGE_LEN = SECOND_LV_LEN"
definition NUM_PAGES :: nat where "NUM_PAGES = 2 ^ (ADDRESS_SIZE - OFFSET_LEN)"
definition PAGE_SIZE :: u32 where "PAGE_SIZE = push_bit OFFSET_LEN 1"
definition RAM_SIZE :: nat where "RAM_SIZE = 2 ^ ADDRESS_SIZE"

record mem_stat_t =
  ms_proc :: u32
  ms_index :: int
  ms_next :: int

record mem_t =
  m_ram :: "nat \<Rightarrow> BYTE"
  mem_stat :: "nat \<Rightarrow> mem_stat_t"
  mem_lock :: bool

definition init_mem :: "mem_t \<Rightarrow> mem_t" where
  "init_mem m = \<lparr>m_ram = (\<lambda>i. if i < RAM_SIZE then 0 else m_ram m i),
     mem_stat = (\<lambda>i. if i < NUM_PAGES then \<lparr>ms_proc = 0, ms_index = 0, ms_next = 0\<rparr> else mem_stat m i),
     mem_lock = False\<rparr>"

definition get_offset :: "u32 \<Rightarrow> u32" where
  "get_offset addr = addr AND NOT (push_bit OFFSET_LEN (NOT 0))"

definition get_first_lv :: "u32 \<Rightarrow> u32" where
  "get_first_lv addr = drop_bit (OFFSET_LEN + PAGE_LEN) addr"

definition get_second_lv :: "u32 \<Rightarrow> u32" where
  "get_second_lv addr = drop_bit OFFSET_LEN addr - push_bit PAGE_LEN (get_first_lv addr)"

text \<open>The search loops; \<open>n\<close> rows are left from \<open>i\<close> on.\<close>

primrec find_row :: "(u32 \<times> 'a) list \<Rightarrow> u32 \<Rightarrow> int \<Rightarrow> nat \<Rightarrow> 'a option result" where
  "find_row tbl idx i 0 = Inr None"
| "find_row tbl idx i (Suc n) =
     and_then (arr_get tbl i) (\<lambda>(v_index, x).
       if v_index = idx then Inr (Some x) else find_row tbl idx (i + 1) n)"

definition get_trans_table :: "u32 \<Rightarrow> page_table_t option \<Rightarrow> trans_table_t option result" where
  "get_trans_table index pt =
     and_then (deref pt) (\<lambda>pt.
     and_then (find_row (pt_table pt) index 0 (nat (pt_size pt))) (\<lambda>r.
       case r of None \<Rightarrow> Inr None | Some next_lv \<Rightarrow> Inr next_lv))"

text \<open>\<open>translate\<close>: its code, and what it stores in \<open>*physical_addr\<close>, which is nothing.\<close>

definition translate :: "u32 \<Rightarrow> pcb_t \<Rightarrow> (int \<times> u32 option) result" where
  "translate virtual_addr proc =
     and_then (get_trans_table (get_first_lv virtual_addr) (page_table proc)) (\<lambda>trans_table.
       case trans_table of
         None \<Rightarrow> Inr (0, None)
       | Some t \<Rightarrow>
           and_then (find_row (tt_table t) (get_second_lv virtual_addr) 0 (nat (tt_size t))) (\<lambda>r.
             case r of None \<Rightarrow> Inr (0, None) | Some _ \<Rightarrow> Inr (1, None)))"

definition alloc_mem :: "mem_t \<Rightarrow> u32 \<Rightarrow> pcb_t \<Rightarrow> (u32 \<times> mem_t \<times> pcb_t) result" where
  "alloc_mem m sz proc =
     (if mem_lock m then Inl Self_Deadlock
      else
        let num_pages = (if sz mod PAGE_SIZE \<noteq> 0 then sz div PAGE_SIZE else sz div PAGE_SIZE + 1);
            mem_avail = (0 :: int)
        in if mem_avail \<noteq> 0
           then Inr (bp proc, m\<lparr>mem_lock := False\<rparr>, proc\<lparr>bp := bp proc + num_pages * PAGE_SIZE\<rparr>)
           else Inr (0, m\<lparr>mem_lock := False\<rparr>, proc))"

definition free_mem :: "u32 \<Rightarrow> pcb_t \<Rightarrow> int" where
  "free_mem address proc = 0"

definition read_mem :: "mem_t \<Rightarrow> u32 \<Rightarrow> pcb_t \<Rightarrow> (int \<times> BYTE option) result" where
  "read_mem m address proc =
     and_then (translate address proc) (\<lambda>(valid, physical_addr).
       if valid \<noteq> 0 then
         and_then (initialised physical_addr) (\<lambda>pa.
           if unat pa < RAM_SIZE then Inr (0, Some (m_ram m (unat pa))) else Inl Out_Of_Bounds)
       else Inr (1, None))"

definition write_mem :: "mem_t \<Rightarrow> u32 \<Rightarrow> pcb_t \<Rightarrow> BYTE \<Rightarrow> (int \<times> mem_t) result" where
  "write_mem m address proc data =
     and_then (translate address proc) (\<lambda>(valid, physical_addr).
       if valid \<noteq> 0 then
         and_then (initialised physical_addr) (\<lambda>pa.
           if unat pa < RAM_SIZE then Inr (0, m\<lparr>m_ram := (m_ram m)(unat pa := data)\<rparr>) else Inl Out_Of_Bounds)
       else Inr (1, m))"

text \<open>\<open>dump\<close>: for every used page its number and status, and the non-zero bytes printed. The
  inner loop stops one byte before the end of the page.\<close>

definition dump :: "mem_t \<Rightarrow> (nat \<times> mem_stat_t \<times> (nat \<times> BYTE) list) list" where
  "dump m = map (\<lambda>i. (i, mem_stat m i,
       map (\<lambda>j. (j, m_ram m j))
         (filter (\<lambda>j. m_ram m j \<noteq> 0) [push_bit OFFSET_LEN i..<push_bit OFFSET_LEN (i + 1) - 1])))
     (filter (\<lambda>i. ms_proc (mem_stat m i) \<noteq> 0) [0..<NUM_PAGES])"

section \<open>Lemmas\<close>

lemmas mem_consts = ADDRESS_SIZE_def OFFSET_LEN_def FIRST_LV_LEN_def SECOND_LV_LEN_def PAGE_LEN_def
  NUM_PAGES_def PAGE_SIZE_def RAM_SIZE_def

lemma uint_get_offset: "uint (get_offset a) = uint a mod 1024"
proof -
  have "get_offset a = take_bit 10 a"
    by (rule bit_eqI) (auto simp: get_offset_def mem_consts bit_simps)
  then show ?thesis by (simp add: take_bit_eq_mod uint_mod)
qed

lemma uint_get_first_lv: "uint (get_first_lv a) = uint a div 32768"
  by (simp add: get_first_lv_def mem_consts drop_bit_eq_div uint_div)

lemma uint_get_second_lv: "uint (get_second_lv a) = uint a div 1024 mod 32"
proof -
  have "get_second_lv a = take_bit 5 (drop_bit 10 a)"
  proof -
    have "drop_bit 10 a = push_bit 5 (drop_bit 15 a) + take_bit 5 (drop_bit 10 a)"
      using bits_ident [of 5 "drop_bit 10 a"] by (simp add: drop_bit_drop_bit)
    then have "drop_bit 10 a - push_bit 5 (drop_bit 15 a) = take_bit 5 (drop_bit 10 a)"
      by (metis add_diff_cancel_left')
    then show ?thesis by (simp add: get_second_lv_def get_first_lv_def mem_consts)
  qed
  then show ?thesis
    by (simp add: take_bit_eq_mod drop_bit_eq_div uint_div uint_mod)
qed

lemma translate_physical: "translate a proc = Inr (valid, pa) \<Longrightarrow> pa = None"
  by (auto simp: translate_def result_simps split: option.splits)

section \<open>Properties\<close>

text \<open>The three index functions take an address apart without loss: first level, second
  level and offset recombine to it, and the last two stay below 32 and 1024.\<close>

theorem legacy_address_split:
  "uint (get_first_lv a) * 32768 + uint (get_second_lv a) * 1024 + uint (get_offset a) = uint a \<and>
   uint (get_second_lv a) < 32 \<and> uint (get_offset a) < 1024"
proof -
  let ?b = "uint a div 1024"
  have "uint a div 32768 = ?b div 32" using zdiv_zmult2_eq [of 32 "uint a" 1024] by simp
  then have "uint a div 32768 * 32768 + ?b mod 32 * 1024 + uint a mod 1024 = uint a"
    using div_mult_mod_eq [of ?b 32] div_mult_mod_eq [of "uint a" 1024] by linarith
  then show ?thesis by (simp add: uint_get_first_lv uint_get_second_lv uint_get_offset)
qed

text \<open>The legacy allocator never allocates: whatever the size, \<open>alloc_mem\<close> returns 0,
  changes neither the process nor the page status, and releases its lock. An address that
  does translate cannot be used either: reading or writing it uses a physical address that
  was never set.\<close>

theorem legacy_memory_is_dead:
  assumes "\<not> mem_lock m"
  shows "alloc_mem m sz proc = Inr (0, m, proc) \<and>
     (\<forall>addr pa. translate addr proc = Inr (1, pa) \<longrightarrow>
        read_mem m addr proc = Inl Uninit_Read \<and> write_mem m addr proc b = Inl Uninit_Read)"
  using assms by (auto simp: alloc_mem_def read_mem_def write_mem_def dest!: translate_physical)

text \<open>A process with one valid page, number 0, for the witness.\<close>

definition legacy_pcb :: pcb_t where
  "legacy_pcb = (demo_pcb 1 3)\<lparr>page_table := Some \<lparr>pt_table =
     [(0, Some \<lparr>tt_table = [(0, 5)], tt_size = 1\<rparr>)], pt_size = 1\<rparr>\<rparr>"

definition blank_mem :: mem_t where
  "blank_mem = init_mem \<lparr>m_ram = (\<lambda>_. 1), mem_stat = (\<lambda>_. \<lparr>ms_proc = 1, ms_index = 0, ms_next = 0\<rparr>), mem_lock = False\<rparr>"

theorem legacy_memory_is_dead_witness:
  "alloc_mem blank_mem 100 legacy_pcb = Inr (0, blank_mem, legacy_pcb) \<and>
   translate 7 legacy_pcb = Inr (1, None) \<and> read_mem blank_mem 7 legacy_pcb = Inl Uninit_Read"
proof -
  have "get_first_lv 7 = 0" "get_second_lv 7 = 0" by code_simp+
  then have "translate 7 legacy_pcb = Inr (1, None)"
    by (simp add: translate_def get_trans_table_def legacy_pcb_def arr_get_def)
  moreover have "\<not> mem_lock blank_mem" by (simp add: blank_mem_def init_mem_def)
  ultimately show ?thesis using legacy_memory_is_dead [of blank_mem 100 legacy_pcb] by blast
qed

end
