(* ===== verification/Machine.thy ===== *)
theory Machine
  imports Sched
begin

text \<open>
  The state the threads of the simulator share: the PCBs, the scheduler, the RAM and swap
  devices that \<open>main\<close> sets up in \<open>src/os.c\<close>, and the mutex \<open>mmvm_lock\<close> of \<open>src/libmem.c\<close>.
  The memory functions work on a \<open>caller_t\<close>: \<open>view\<close> builds it from a PCB and the devices
  the PCB points to, \<open>unview\<close> writes it back. Both are what following the pointers
  \<open>caller->mm\<close>, \<open>caller->mram\<close> and \<open>caller->active_mswp\<close> amounts to.
\<close>

section \<open>State\<close>

record machine =
  pcbs :: pcb_store
  sched :: sched_t
  dev_ram :: memphy_struct
  dev_swp :: "memphy_struct list"
  vm_lock :: bool

fun device :: "machine \<Rightarrow> device_ref \<Rightarrow> memphy_struct option" where
  "device mc Mram = Some (dev_ram mc)"
| "device mc (Mswp i) = (if i < length (dev_swp mc) then Some (dev_swp mc ! i) else None)"

fun set_device :: "machine \<Rightarrow> device_ref \<Rightarrow> memphy_struct \<Rightarrow> machine" where
  "set_device mc Mram d = mc\<lparr>dev_ram := d\<rparr>"
| "set_device mc (Mswp i) d = mc\<lparr>dev_swp := (dev_swp mc)[i := d]\<rparr>"

definition point_at :: "machine \<Rightarrow> device_ref option \<Rightarrow> memphy_struct option" where
  "point_at mc r = (case r of None \<Rightarrow> None | Some d \<Rightarrow> device mc d)"

definition store_at :: "machine \<Rightarrow> device_ref option \<Rightarrow> memphy_struct option \<Rightarrow> machine" where
  "store_at mc r d = (case (r, d) of (Some r, Some d) \<Rightarrow> set_device mc r d | _ \<Rightarrow> mc)"

definition view :: "machine \<Rightarrow> pcb_t \<Rightarrow> caller_t" where
  "view mc b = \<lparr>mm = p_mm b, mram = point_at mc (p_mram b), active_mswp = point_at mc (p_active_mswp b),
     mmvm_lock = vm_lock mc\<rparr>"

definition unview :: "machine \<Rightarrow> nat \<Rightarrow> pcb_t \<Rightarrow> caller_t \<Rightarrow> machine" where
  "unview mc a b c =
     (let mc = store_at (store_at mc (p_mram b) (mram c)) (p_active_mswp b) (active_mswp c)
      in mc\<lparr>pcbs := (pcbs mc)(a \<mapsto> b\<lparr>p_mm := mm c\<rparr>), vm_lock := mmvm_lock c\<rparr>)"

text \<open>Calling a memory function for the process at \<open>p\<close>.\<close>

definition on_caller :: "machine \<Rightarrow> pcb_ptr \<Rightarrow> (caller_t \<Rightarrow> ('r \<times> caller_t) result) \<Rightarrow> ('r \<times> machine) result" where
  "on_caller mc p f =
     and_then (deref p) (\<lambda>a.
     and_then (pcb_at (pcbs mc) p) (\<lambda>b.
     and_then (f (view mc b)) (\<lambda>(r, c). Inr (r, unview mc a b c))))"

section \<open>Lemmas\<close>

lemma device_frame [simp]:
  "device (mc\<lparr>pcbs := st\<rparr>) r = device mc r" "device (mc\<lparr>sched := s\<rparr>) r = device mc r"
  "device (mc\<lparr>vm_lock := l\<rparr>) r = device mc r"
  by (cases r; simp)+

lemma point_at_frame [simp]:
  "point_at (mc\<lparr>pcbs := st\<rparr>) r = point_at mc r" "point_at (mc\<lparr>sched := s\<rparr>) r = point_at mc r"
  "point_at (mc\<lparr>vm_lock := l\<rparr>) r = point_at mc r"
  by (cases r; simp add: point_at_def)+

lemma point_at_ram [simp]:
  "point_at mc (Some Mram) = Some (dev_ram mc)"
  "r \<noteq> Some Mram \<Longrightarrow> point_at (mc\<lparr>dev_ram := d\<rparr>) r = point_at mc r"
proof -
  show "point_at mc (Some Mram) = Some (dev_ram mc)" by (simp add: point_at_def)
  assume r: "r \<noteq> Some Mram"
  show "point_at (mc\<lparr>dev_ram := d\<rparr>) r = point_at mc r"
  proof (cases r)
    case (Some x)
    with r show ?thesis by (cases x) (simp_all add: point_at_def)
  qed (simp add: point_at_def)
qed

text \<open>The RAM device and a swap device are different objects, so nothing is lost in between.\<close>

lemma device_set [simp]: "device mc r = Some d0 \<Longrightarrow> device (set_device mc r d) r = Some d"
  by (cases r) (auto split: if_splits)

lemma device_set_other [simp]: "r \<noteq> r' \<Longrightarrow> device (set_device mc r d) r' = device mc r'"
  by (cases r; cases r') auto

lemma set_device_same: "device mc r = Some d \<Longrightarrow> set_device mc r d = mc"
  by (cases r) (auto split: if_splits)

lemma store_at_same [simp]: "store_at mc r (point_at mc r) = mc"
  by (auto simp: store_at_def point_at_def set_device_same split: option.splits)

lemma set_device_frame [simp]:
  "pcbs (set_device mc r d) = pcbs mc" "sched (set_device mc r d) = sched mc" "vm_lock (set_device mc r d) = vm_lock mc"
  by (cases r; simp)+

lemma store_at_frame [simp]:
  "pcbs (store_at mc r d) = pcbs mc" "sched (store_at mc r d) = sched mc" "vm_lock (store_at mc r d) = vm_lock mc"
  by (auto simp: store_at_def split: option.splits)

lemma unview_frame [simp]:
  "pcbs (unview mc a b c) = (pcbs mc)(a \<mapsto> b\<lparr>p_mm := mm c\<rparr>)" "sched (unview mc a b c) = sched mc"
  "vm_lock (unview mc a b c) = mmvm_lock c"
  by (simp_all add: unview_def Let_def)

lemma unview_view [simp]: "pcbs mc a = Some b \<Longrightarrow> unview mc a b (view mc b) = mc"
  by (simp add: unview_def view_def Let_def fun_upd_idem)

text \<open>A process whose pointers lead to two different devices that exist.\<close>

definition wired :: "machine \<Rightarrow> pcb_t \<Rightarrow> bool" where
  "wired mc b \<longleftrightarrow> p_mram b \<noteq> p_active_mswp b \<and> point_at mc (p_mram b) \<noteq> None \<and> point_at mc (p_active_mswp b) \<noteq> None"

lemma point_at_unview:
  assumes "wired mc b" "mram c \<noteq> None" "active_mswp c \<noteq> None"
  shows "point_at (unview mc a b c) (p_mram b) = mram c"
    and "point_at (unview mc a b c) (p_active_mswp b) = active_mswp c"
proof -
  obtain r s d e where "p_mram b = Some r" "p_active_mswp b = Some s" "r \<noteq> s" "device mc r = Some d" "device mc s = Some e"
    using assms(1) by (auto simp: wired_def point_at_def split: option.splits)
  moreover have "device (mc\<lparr>pcbs := x, vm_lock := l\<rparr>) q = device mc q" for mc x l q
    by (cases q) simp_all
  ultimately show "point_at (unview mc a b c) (p_mram b) = mram c"
      "point_at (unview mc a b c) (p_active_mswp b) = active_mswp c"
    using assms(2,3) by (auto simp: unview_def point_at_def store_at_def Let_def)
qed

lemma view_unview:
  assumes "wired mc b" "mram c \<noteq> None" "active_mswp c \<noteq> None"
  shows "view (unview mc a b c) (b\<lparr>p_mm := mm c\<rparr>) = c"
  using point_at_unview [OF assms] by (simp add: view_def)

end
