(* ===== verification/Stdio.thy ===== *)
theory Stdio
  imports Prelude
begin

text \<open>
  The part of the C input functions that \<open>src/loader.c\<close> and \<open>src/os.c\<close> use. A stream is the
  text not read yet. A \<open>scanf\<close> directive that fails ends the call and leaves the later
  arguments as they were; what it consumed stays consumed. Numbers follow \<open>strtoul\<close> and
  \<open>strtol\<close>: 64 bits wide with saturation, then truncated to the type of the argument.
\<close>

section \<open>Characters\<close>

definition is_space :: "char \<Rightarrow> bool" where
  "is_space c \<longleftrightarrow> c = CHR '' '' \<or> c \<in> {CHR 0x09, CHR 0x0A, CHR 0x0B, CHR 0x0C, CHR 0x0D}"

definition is_digit :: "char \<Rightarrow> bool" where
  "is_digit c \<longleftrightarrow> 48 \<le> (of_char c :: nat) \<and> (of_char c :: nat) \<le> 57"

definition is_alpha :: "char \<Rightarrow> bool" where
  "is_alpha c \<longleftrightarrow> 65 \<le> (of_char c :: nat) \<and> (of_char c :: nat) \<le> 90 \<or> 97 \<le> (of_char c :: nat) \<and> (of_char c :: nat) \<le> 122"

definition newline :: char where "newline = CHR 0x0A"

definition skip_ws :: "string \<Rightarrow> string" where
  "skip_ws = dropWhile is_space"

section \<open>Numbers and words\<close>

definition num_of :: "string \<Rightarrow> nat" where
  "num_of ds = foldl (\<lambda>n c. 10 * n + (of_char c - 48)) 0 ds"

definition scan_sign :: "string \<Rightarrow> bool \<times> string" where
  "scan_sign s = (case s of [] \<Rightarrow> (False, [])
     | c # r \<Rightarrow> if c = CHR ''-'' then (True, r) else if c = CHR ''+'' then (False, r) else (False, s))"

definition scan_num :: "string \<Rightarrow> (bool \<times> nat) option \<times> string" where
  "scan_num s =
     (let (neg, s) = scan_sign (skip_ws s); ds = takeWhile is_digit s
      in if ds = [] then (None, s) else (Some (neg, num_of ds), dropWhile is_digit s))"

definition strtoul :: "bool \<times> nat \<Rightarrow> 64 word" where
  "strtoul v = (case v of (neg, n) \<Rightarrow>
     if int n \<ge> 2 ^ 64 then -1 else if neg then - word_of_nat n else word_of_nat n)"

definition strtol :: "bool \<times> nat \<Rightarrow> int" where
  "strtol v = (case v of (neg, n) \<Rightarrow>
     if neg then max (- (2 ^ 63)) (- int n) else min (2 ^ 63 - 1) (int n))"

text \<open>The conversions \<open>%u\<close> and \<open>%d\<close> as they are stored in 32 bits.\<close>

definition conv_u :: "bool \<times> nat \<Rightarrow> u32" where "conv_u v = ucast (strtoul v)"
definition conv_d :: "bool \<times> nat \<Rightarrow> u32" where "conv_d v = word_of_int (strtol v)"

text \<open>At most \<open>k\<close> numbers in a row: those that were stored, and the rest of the stream.\<close>

primrec scan_nums :: "((bool \<times> nat) \<Rightarrow> 'a) \<Rightarrow> nat \<Rightarrow> string \<Rightarrow> 'a list \<times> string" where
  "scan_nums conv 0 s = ([], s)"
| "scan_nums conv (Suc k) s =
     (case scan_num s of
        (None, r) \<Rightarrow> ([], r)
      | (Some v, r) \<Rightarrow> let (vs, r) = scan_nums conv k r in (conv v # vs, r))"

text \<open>The same with a trailing white space directive in the format.\<close>

definition scan_nums_ws :: "((bool \<times> nat) \<Rightarrow> 'a) \<Rightarrow> nat \<Rightarrow> string \<Rightarrow> 'a list \<times> string" where
  "scan_nums_ws conv k s = (let (vs, r) = scan_nums conv k s in (vs, if length vs = k then skip_ws r else r))"

definition scan_word :: "string \<Rightarrow> string option \<times> string" where
  "scan_word s =
     (let s = skip_ws s; w = takeWhile (\<lambda>c. \<not> is_space c) s
      in if w = [] then (None, s) else (Some w, dropWhile (\<lambda>c. \<not> is_space c) s))"

section \<open>Lines\<close>

fun get_line :: "nat \<Rightarrow> string \<Rightarrow> string \<times> string" where
  "get_line 0 s = ([], s)"
| "get_line (Suc k) [] = ([], [])"
| "get_line (Suc k) (c # s) =
     (if c = newline then ([c], s) else let (l, r) = get_line k s in (c # l, r))"

definition fgets :: "nat \<Rightarrow> string \<Rightarrow> string option \<times> string" where
  "fgets n s = (if s = [] then (None, s) else let (l, r) = get_line (n - 1) s in (Some l, r))"

text \<open>A buffer as \<open>sscanf\<close> sees it.\<close>

definition c_str :: "string \<Rightarrow> string" where
  "c_str = takeWhile (\<lambda>c. c \<noteq> CHR 0x00)"

section \<open>Printing numbers\<close>

fun dec :: "nat \<Rightarrow> string" where
  "dec n = (if n < 10 then [char_of (48 + n)] else dec (n div 10) @ [char_of (48 + n mod 10)])"

declare dec.simps [simp del]

lemma of_char_digit [simp]: "n < 10 \<Longrightarrow> of_char (char_of (48 + n :: nat) :: char) = (48 + n :: nat)"
  by simp

lemma is_digit_char [simp]: "n < 10 \<Longrightarrow> is_digit (char_of (48 + n :: nat))"
  by (simp add: is_digit_def)

lemma dec_digits: "\<forall>c \<in> set (dec n). is_digit c"
  by (induction n rule: dec.induct) (subst dec.simps, auto)

lemma dec_not_Nil [simp]: "dec n \<noteq> []"
  by (subst dec.simps) simp

lemma num_of_snoc: "num_of (ds @ [c]) = 10 * num_of ds + (of_char c - 48)"
  by (simp add: num_of_def)

lemma num_of_dec [simp]: "num_of (dec n) = n"
proof (induction n rule: dec.induct)
  case (1 n)
  show ?case
  proof (cases "n < 10")
    case True
    then show ?thesis by (subst dec.simps) (simp add: num_of_def)
  next
    case False
    with 1 show ?thesis by (subst dec.simps) (simp add: num_of_snoc)
  qed
qed

text \<open>A digit is neither a sign nor white space.\<close>

lemma digit_not_space: "is_digit c \<Longrightarrow> \<not> is_space c"
  by (auto simp: is_digit_def is_space_def)

lemma digit_not_sign: "is_digit c \<Longrightarrow> c \<noteq> CHR ''-'' \<and> c \<noteq> CHR ''+''"
  by (auto simp: is_digit_def)

lemma scan_num_dec:
  assumes "\<forall>c \<in> set ws. is_space c" "r = [] \<or> \<not> is_digit (hd r)"
  shows "scan_num (ws @ dec n @ r) = (Some (False, n), r)"
proof -
  obtain c cs where d: "dec n = c # cs" by (cases "dec n") auto
  then have c: "is_digit c" using dec_digits [of n] by simp
  have ws: "skip_ws (ws @ dec n @ r) = dec n @ r"
    using assms(1) c d digit_not_space by (simp add: skip_ws_def)
  have sign: "scan_sign (dec n @ r) = (False, dec n @ r)"
    using c d digit_not_sign by (simp add: scan_sign_def)
  have "takeWhile is_digit (dec n @ r) = dec n" "dropWhile is_digit (dec n @ r) = r"
    using dec_digits [of n] assms(2) by (cases r; simp add: takeWhile_append2 dropWhile_append2)+
  then show ?thesis using ws sign by (simp add: scan_num_def)
qed

lemma conv_word: "conv_u (False, unat w) = w" "conv_d (False, unat w) = w"
proof -
  have lt: "unat w < 2 ^ 32" using unsigned_less [of w, where ?'a = nat] by simp
  have up: "ucast (ucast w :: 64 word) = w" by (rule bit_word_eqI) (simp add: bit_simps)
  from lt show "conv_u (False, unat w) = w" by (simp add: conv_u_def strtoul_def up)
  have "unat w < 4294967296" using lt by simp
  then have "int (unat w) < 4294967296" by linarith
  then have "strtol (False, unat w) = int (unat w)" by (simp add: strtol_def)
  then show "conv_d (False, unat w) = w" by (simp add: conv_d_def)
qed

section \<open>Reading back what was printed\<close>

text \<open>Numbers separated by blanks.\<close>

primrec spaced :: "nat list \<Rightarrow> string" where
  "spaced [] = []"
| "spaced (n # ns) = '' '' @ dec n @ spaced ns"

definition starts :: "(char \<Rightarrow> bool) \<Rightarrow> string \<Rightarrow> bool" where
  "starts P r \<longleftrightarrow> r = [] \<or> P (hd r)"

lemma starts_Nil [simp]: "starts P []"
  and starts_Cons [simp]: "starts P (c # r) = P c"
  by (simp_all add: starts_def)

lemma space_chars [simp]: "is_space CHR '' ''" "is_space newline" "\<not> is_digit CHR '' ''" "\<not> is_digit newline"
  by (simp_all add: is_space_def newline_def is_digit_def)

lemma scan_nums_spaced:
  assumes "starts (\<lambda>c. \<not> is_digit c) r"
  shows "scan_nums conv (length ns) (spaced ns @ r) = (map (\<lambda>n. conv (False, n)) ns, r)"
proof (induction ns)
  case (Cons n ns)
  have "starts (\<lambda>c. \<not> is_digit c) (spaced ns @ r)" using assms by (cases ns) simp_all
  then have "scan_num ('' '' @ dec n @ (spaced ns @ r)) = (Some (False, n), spaced ns @ r)"
    by (intro scan_num_dec) (auto simp: starts_def)
  with Cons show ?case by simp
qed simp

lemma skip_ws_spaces: "\<forall>c \<in> set ws. is_space c \<Longrightarrow> starts (\<lambda>c. \<not> is_space c) r \<Longrightarrow> skip_ws (ws @ r) = r"
  by (cases r) (simp_all add: skip_ws_def)

lemma scan_word_print:
  assumes "\<forall>c \<in> set ws. is_space c" "\<forall>c \<in> set w. \<not> is_space c" "w \<noteq> []" "starts is_space r"
  shows "scan_word (ws @ w @ r) = (Some w, r)"
proof -
  have "starts (\<lambda>c. \<not> is_space c) (w @ r)" using assms(2,3) by (cases w) simp_all
  with assms(1) have s: "skip_ws (ws @ w @ r) = w @ r" by (rule skip_ws_spaces)
  have "takeWhile (\<lambda>c. \<not> is_space c) (w @ r) = w" "dropWhile (\<lambda>c. \<not> is_space c) (w @ r) = r"
    using assms(2,4) by (cases r; simp add: takeWhile_append2 dropWhile_append2)+
  then show ?thesis using s assms(3) by (simp add: scan_word_def)
qed

lemma length_dec: "n < 10 ^ Suc k \<Longrightarrow> length (dec n) \<le> Suc k"
proof (induction k arbitrary: n)
  case 0
  then show ?case by (subst dec.simps) simp
next
  case (Suc k)
  then have "n div 10 < 10 ^ Suc k" by (simp add: less_mult_imp_div_less mult.commute)
  then show ?case using Suc.IH by (subst dec.simps) simp
qed

lemma length_spaced: "\<forall>n \<in> set ns. n < 10 ^ Suc k \<Longrightarrow> length (spaced ns) \<le> (k + 2) * length ns"
proof (induction ns)
  case (Cons n ns)
  then show ?case using length_dec [of n k] by simp
qed simp

lemma get_line_print: "newline \<notin> set l \<Longrightarrow> length l < n \<Longrightarrow> get_line n (l @ newline # r) = (l @ [newline], r)"
proof (induction l arbitrary: n)
  case Nil
  then show ?case by (cases n) auto
next
  case (Cons c l)
  then show ?case by (cases n) auto
qed

lemma spaced_chars: "c \<in> set (spaced ns) \<Longrightarrow> c \<noteq> newline \<and> c \<noteq> CHR 0x00"
proof -
  assume "c \<in> set (spaced ns)"
  then have "c = CHR '' '' \<or> is_digit c" using dec_digits by (induction ns) auto
  then show ?thesis by (auto simp: is_digit_def newline_def)
qed

lemma fgets_line:
  assumes "newline \<notin> set l" "length l + 1 < n"
  shows "fgets n (l @ newline # r) = (Some (l @ [newline]), r)"
  using get_line_print [of l "n - 1" r] assms by (simp add: fgets_def)

end
