(* ===== verification/Syscall.thy ===== *)
theory Syscall
  imports Machine Stdio
begin

text \<open>
  System calls: the dispatch of \<open>src/syscall.c\<close> over the table \<open>src/syscall.tbl\<close>, the
  handlers \<open>src/sys_listsyscall.c\<close>, \<open>src/sys_mem.c\<close> and \<open>src/sys_killall.c\<close>, and
  \<open>libsyscall\<close> of \<open>src/libstd.c\<close>. Only the three registers that are ever set are kept.
\<close>

section \<open>Registers and the table\<close>

record sc_regs =
  a1 :: u32
  a2 :: u32
  a3 :: u32

datatype handler = sys_listsyscall | sys_memmap | sys_killall

definition syscalltbl :: "(u32 \<times> handler) list" where
  "syscalltbl = [(0, sys_listsyscall), (17, sys_memmap), (101, sys_killall)]"

primrec handler_name :: "handler \<Rightarrow> string" where
  "handler_name sys_listsyscall = ''sys_listsyscall''"
| "handler_name sys_memmap = ''sys_memmap''"
| "handler_name sys_killall = ''sys_killall''"

text \<open>\<open>sys_call_table\<close>: the number, a dash and the entry point, as the preprocessor pastes them.
  \<open>list_syscall\<close> gives what is printed, line by line, beside the result.\<close>

definition sys_call_table :: "string list" where
  "sys_call_table = map (\<lambda>(nr, sym). dec (unat nr) @ ''-'' @ handler_name sym) syscalltbl"

definition list_syscall :: "machine \<Rightarrow> (int \<times> machine) \<times> string list" where
  "list_syscall mc = ((0, mc), sys_call_table)"

section \<open>Memory operations\<close>

definition SYSMEM_MAP_OP :: int where "SYSMEM_MAP_OP = 1"
definition SYSMEM_INC_OP :: int where "SYSMEM_INC_OP = 2"
definition SYSMEM_SWP_OP :: int where "SYSMEM_SWP_OP = 3"
definition SYSMEM_IO_READ :: int where "SYSMEM_IO_READ = 4"
definition SYSMEM_IO_WRITE :: int where "SYSMEM_IO_WRITE = 5"

text \<open>\<open>__sys_memmap\<close>: the code is 0 whatever the operation did; an \<open>IO_READ\<close> that fails stores
  the uninitialised \<open>value\<close> in the register.\<close>

definition memmap_call :: "host \<Rightarrow> machine \<Rightarrow> pcb_ptr \<Rightarrow> sc_regs \<Rightarrow> (int \<times> machine \<times> sc_regs) result" where
  "memmap_call h mc caller rs =
     (let memop = int_of_u32 (a1 rs) in
      if memop = SYSMEM_MAP_OP then Inr (0, mc, rs)
      else if memop = SYSMEM_INC_OP then
        and_then (on_caller mc caller (\<lambda>c.
            inc_vma_limit (fp_junk h) c (int_of_u32 (a2 rs)) (int_of_u32 (a3 rs)))) (\<lambda>(_, mc). Inr (0, mc, rs))
      else if memop = SYSMEM_SWP_OP then
        and_then (on_caller mc caller (\<lambda>c.
            mm_swap_page c (int_of_u32 (a2 rs)) (int_of_u32 (a3 rs)))) (\<lambda>(_, mc). Inr (0, mc, rs))
      else if memop = SYSMEM_IO_READ then
        and_then (on_caller mc caller (\<lambda>c.
            and_then (MEMPHY_read (mram c) (int_of_u32 (a2 rs))) (\<lambda>(_, ram, val). Inr (val, c\<lparr>mram := ram\<rparr>))))
          (\<lambda>(val, mc). and_then (initialised val) (\<lambda>v. Inr (0, mc, rs\<lparr>a3 := u32_of_byte v\<rparr>)))
      else if memop = SYSMEM_IO_WRITE then
        and_then (on_caller mc caller (\<lambda>c.
            and_then (MEMPHY_write (mram c) (int_of_u32 (a2 rs)) (byte_of_u32 (a3 rs)))
              (\<lambda>(code, ram). Inr (code, c\<lparr>mram := ram\<rparr>)))) (\<lambda>(_, mc). Inr (0, mc, rs))
      else Inr (0, mc, rs))"

section \<open>Killing processes by name\<close>

text \<open>
  The loop that reads the name byte by byte into \<open>proc_name[100]\<close> until \<open>libread\<close> gives -1
  (an error, or a byte that sign-extends to it). The result is the C string that is left.
\<close>

function read_name :: "machine \<Rightarrow> pcb_ptr \<Rightarrow> u32 \<Rightarrow> nat \<Rightarrow> BYTE list \<Rightarrow> (BYTE list \<times> machine) result" where
  "read_name mc caller memrg i name =
     and_then (on_caller mc caller (\<lambda>c.
         and_then (libread c memrg (word_of_nat i) True) (\<lambda>(_, c, data). Inr (data, c)))) (\<lambda>(data, mc).
       if i \<ge> 100 then Inl Out_Of_Bounds
       else if data = -1 then Inr (takeWhile (\<lambda>b. b \<noteq> 0) name, mc)
       else read_name mc caller memrg (Suc i) (name @ [byte_of_u32 data]))"
  by pat_completeness auto
termination
  by (relation "measure (\<lambda>(_, _, _, i, _). 100 - i)") auto

declare read_name.simps [simp del]

text \<open>\<open>strrchr(path, '/') + 1\<close>, and the comparison with the name.\<close>

definition base_name :: "string \<Rightarrow> string option" where
  "base_name p = (if CHR ''/'' \<in> set p then Some (rev (takeWhile (\<lambda>ch. ch \<noteq> CHR ''/'') (rev p))) else None)"

definition c_chars :: "string \<Rightarrow> BYTE list" where
  "c_chars s = map (\<lambda>ch. word_of_nat (of_char ch)) s"

definition has_name :: "BYTE list \<Rightarrow> pcb_t \<Rightarrow> bool" where
  "has_name name b = (case base_name (path b) of None \<Rightarrow> False | Some n \<Rightarrow> c_chars n = name)"

definition finish :: "pcb_t \<Rightarrow> pcb_t" where
  "finish b = b\<lparr>pc := code_size (code b)\<rparr>"

text \<open>\<open>kill_process[index++] = p\<close>, with the size of the array.\<close>

definition push_kill :: "pcb_ptr list \<Rightarrow> pcb_ptr \<Rightarrow> pcb_ptr list result" where
  "push_kill ks p = (if int (length ks) < MAX_PRIO then Inr (ks @ [p]) else Inl Out_Of_Bounds)"

text \<open>The scan of the running list: a match is marked, noted and removed.\<close>

function kill_running :: "BYTE list \<Rightarrow> pcb_store \<Rightarrow> queue_t \<Rightarrow> int \<Rightarrow> pcb_ptr list \<Rightarrow>
    (pcb_store \<times> queue_t \<times> pcb_ptr list) result" where
  "kill_running name st q i ks =
     (if i < qsize q then
        and_then (arr_get (procs q) i) (\<lambda>p.
        and_then (deref p) (\<lambda>a.
        and_then (pcb_at st p) (\<lambda>b.
          if has_name name b then
            and_then (push_kill ks p) (\<lambda>ks.
            and_then (shift_down (procs q) i (nat (qsize q - 1 - i))) (\<lambda>ps.
              kill_running name (st(a \<mapsto> finish b)) (q\<lparr>procs := ps, qsize := qsize q - 1\<rparr>) i ks))
          else kill_running name st q (i + 1) ks)))
      else Inr (st, q, ks))"
  by pat_completeness auto
termination
  by (relation "measure (\<lambda>(_, _, q, i, _). nat (qsize q - i))") auto

declare kill_running.simps [simp del]

text \<open>The scan of a ready queue: the same, except that the shift always starts at 0.\<close>

function kill_ready :: "BYTE list \<Rightarrow> pcb_store \<Rightarrow> queue_t \<Rightarrow> int \<Rightarrow> pcb_ptr list \<Rightarrow>
    (pcb_store \<times> queue_t \<times> pcb_ptr list) result" where
  "kill_ready name st q j ks =
     (if j < qsize q then
        and_then (arr_get (procs q) j) (\<lambda>p.
        and_then (deref p) (\<lambda>a.
        and_then (pcb_at st p) (\<lambda>b.
          if has_name name b then
            and_then (push_kill ks p) (\<lambda>ks.
            and_then (shift_down (procs q) 0 (nat (qsize q - 1))) (\<lambda>ps.
              kill_ready name (st(a \<mapsto> finish b)) (q\<lparr>procs := ps, qsize := qsize q - 1\<rparr>) j ks))
          else kill_ready name st q (j + 1) ks)))
      else Inr (st, q, ks))"
  by pat_completeness auto
termination
  by (relation "measure (\<lambda>(_, _, q, j, _). nat (qsize q - j))") auto

declare kill_ready.simps [simp del]

primrec kill_levels :: "BYTE list \<Rightarrow> pcb_store \<Rightarrow> queue_t list \<Rightarrow> pcb_ptr list \<Rightarrow>
    (pcb_store \<times> queue_t list \<times> pcb_ptr list) result" where
  "kill_levels name st [] ks = Inr (st, [], ks)"
| "kill_levels name st (q # qs) ks =
     and_then (kill_ready name st q 0 ks) (\<lambda>(st, q, ks).
     and_then (kill_levels name st qs ks) (\<lambda>(st, qs, ks). Inr (st, q # qs, ks)))"

text \<open>Freeing: \<open>__free\<close> for every \<open>ALLOC\<close> instruction of a killed process, with the first
  argument of the instruction as the region; \<open>n\<close> instructions are left from \<open>j\<close> on.\<close>

primrec free_allocs :: "host \<Rightarrow> machine \<Rightarrow> pcb_ptr \<Rightarrow> int \<Rightarrow> nat \<Rightarrow> machine result" where
  "free_allocs h mc p j 0 = Inr mc"
| "free_allocs h mc p j (Suc n) =
     and_then (pcb_at (pcbs mc) p) (\<lambda>b.
     and_then (arr_get (code_text (code b)) j) (\<lambda>ins.
       if opcode ins = ALLOC then
         and_then (deref (p_mm b)) (\<lambda>m.
         and_then (chain_nth (mmap m) 0) (\<lambda>v.
         and_then (on_caller mc p (\<lambda>c. mm_free h c (int_of_ulong (vm_id v)) (int_of_u32 (arg_0 ins)))) (\<lambda>(_, mc).
           free_allocs h mc p (j + 1) n)))
       else free_allocs h mc p (j + 1) n))"

primrec free_killed :: "host \<Rightarrow> machine \<Rightarrow> pcb_ptr list \<Rightarrow> machine result" where
  "free_killed h mc [] = Inr mc"
| "free_killed h mc (p # ps) =
     and_then (pcb_at (pcbs mc) p) (\<lambda>b.
     and_then (free_allocs h mc p 0 (unat (code_size (code b)))) (\<lambda>mc. free_killed h mc ps))"

text \<open>\<open>__sys_killall\<close>. It takes no lock. The queue pointers are those of the caller's PCB.\<close>

definition killall_call :: "host \<Rightarrow> machine \<Rightarrow> pcb_ptr \<Rightarrow> sc_regs \<Rightarrow> (int \<times> machine) result" where
  "killall_call h mc caller rs =
     and_then (read_name mc caller (a1 rs) 0 []) (\<lambda>(name, mc).
     and_then (pcb_at (pcbs mc) caller) (\<lambda>b.
     and_then (deref (p_running_list b)) (\<lambda>_.
     and_then (kill_running name (pcbs mc) (running_list (sched mc)) 0 []) (\<lambda>(st, rl, ks).
     and_then (deref (p_mlq_ready_queue b)) (\<lambda>_.
     and_then (kill_levels name st (mlq_ready_queue (sched mc)) ks) (\<lambda>(st, mlq, ks).
     let mc = mc\<lparr>pcbs := st, sched := (sched mc)\<lparr>running_list := rl, mlq_ready_queue := mlq\<rparr>\<rparr> in
     and_then (free_killed h mc ks) (\<lambda>mc. Inr (0, mc))))))))"

section \<open>Dispatch\<close>

definition syscall :: "host \<Rightarrow> machine \<Rightarrow> pcb_ptr \<Rightarrow> u32 \<Rightarrow> sc_regs \<Rightarrow> (int \<times> machine) result" where
  "syscall h mc caller nr rs =
     (case map_of syscalltbl nr of
        Some sys_listsyscall \<Rightarrow> Inr (fst (list_syscall mc))
      | Some sys_memmap \<Rightarrow> and_then (memmap_call h mc caller rs) (\<lambda>(code, mc, _). Inr (code, mc))
      | Some sys_killall \<Rightarrow> killall_call h mc caller rs
      | None \<Rightarrow> Inr (0, mc))"

definition libsyscall :: "host \<Rightarrow> machine \<Rightarrow> pcb_ptr \<Rightarrow> u32 \<Rightarrow> u32 \<Rightarrow> u32 \<Rightarrow> u32 \<Rightarrow> (int \<times> machine) result" where
  "libsyscall h mc caller syscall_idx x1 x2 x3 = syscall h mc caller syscall_idx \<lparr>a1 = x1, a2 = x2, a3 = x3\<rparr>"

section \<open>Lemmas on the scans\<close>

text \<open>A pointer to a live PCB of that name; the PCBs after marking those among \<open>ps\<close>.\<close>

definition named :: "BYTE list \<Rightarrow> pcb_store \<Rightarrow> pcb_ptr \<Rightarrow> bool" where
  "named name st p \<longleftrightarrow> (\<exists>a b. p = Some a \<and> st a = Some b \<and> has_name name b)"

definition mark :: "BYTE list \<Rightarrow> pcb_store \<Rightarrow> pcb_ptr list \<Rightarrow> pcb_store" where
  "mark name st ps = (\<lambda>a. if Some a \<in> set ps \<and> named name st (Some a) then map_option finish (st a) else st a)"

lemma finish_simps [simp]: "has_name name (finish b) = has_name name b" "finish (finish b) = finish b"
  "prio (finish b) = prio b" "path (finish b) = path b" "code (finish b) = code b"
  by (simp_all add: has_name_def finish_def)

lemma named_finish [simp]: "st a = Some b \<Longrightarrow> named name (st(a \<mapsto> finish b)) = named name st"
  by (auto simp: named_def fun_eq_iff)

lemma mark_finish:
  assumes "st a = Some b" "has_name name b"
  shows "mark name (st(a \<mapsto> finish b)) ps = mark name st (Some a # ps)"
  using assms by (auto simp: mark_def fun_eq_iff named_def)

lemma mark_other: "\<not> named name st p \<Longrightarrow> mark name st (p # ps) = mark name st ps"
  by (auto simp: mark_def fun_eq_iff)

lemma mark_Nil [simp]: "mark name st [] = st"
  by (simp add: mark_def)

lemma named_mark [simp]: "named name (mark name st ps) = named name st"
  by (auto simp: named_def mark_def fun_eq_iff split: if_splits)

lemma mark_append: "mark name (mark name st ps) qs = mark name st (ps @ qs)"
  by (auto simp: fun_eq_iff mark_def [of name _ qs]) (auto simp: mark_def option.map_comp comp_def)

lemma live_mark [simp]: "live (mark name st ps) p = live st p"
  by (auto simp: live_def mark_def)

lemma shift_down_queue:
  assumes "list_ok q" "k < length (q_list q)" "j \<le> k"
  shows "\<exists>ps. shift_down (procs q) (int j) (nat (qsize q - 1 - int j)) = Inr ps \<and>
     list_ok (q\<lparr>procs := ps, qsize := qsize q - 1\<rparr>) \<and>
     q_list (q\<lparr>procs := ps, qsize := qsize q - 1\<rparr>) = take j (q_list q) @ drop (Suc j) (q_list q)"
proof -
  define n where "n = nat (qsize q)"
  have n: "length (procs q) = 10" "int n = qsize q" "n \<le> 10" "j < n" "nat (qsize q - 1) = n - 1"
    using assms by (auto simp: list_ok_def q_list_def n_def)
  have m: "nat (qsize q - 1 - int j) = n - 1 - j" using n by linarith
  let ?ps = "take j (procs q) @ take (n - 1 - j) (drop (Suc j) (procs q)) @ drop (j + (n - 1 - j)) (procs q)"
  have "shift_down (procs q) (int j) (n - 1 - j) = Inr ?ps" using n by (intro shift_down_spec) linarith
  moreover have "length ?ps = 10" using n by simp
  moreover have "q_list (q\<lparr>procs := ?ps, qsize := qsize q - 1\<rparr>) = take j (q_list q) @ drop (Suc j) (q_list q)"
  proof -
    have "n - Suc 0 \<le> j \<Longrightarrow> n - Suc 0 = j" using n by simp
    then show ?thesis using n by (auto simp: q_list_def n_def [symmetric] drop_take min_def)
  qed
  ultimately show ?thesis using n m by (simp add: list_ok_def)
qed

lemma push_kill_room: "length ks < 140 \<Longrightarrow> push_kill ks p = Inr (ks @ [p])"
  by (simp add: push_kill_def MAX_PRIO_def)

text \<open>
  What the two scans do from position \<open>k\<close> on. Both note and mark exactly the processes of
  that name. The running list keeps the others; a ready queue loses as many processes from
  its front as were noted.
\<close>

lemma scan_position:
  assumes "list_ok q" "k < length (q_list q)" "\<forall>p \<in> set (q_list q). live st p"
  obtains a b where "int k < qsize q" "arr_get (procs q) (int k) = Inr (q_list q ! k)"
    "drop k (q_list q) = q_list q ! k # drop (Suc k) (q_list q)" "q_list q ! k = Some a" "st a = Some b"
proof -
  obtain a b where p: "q_list q ! k = Some a" "st a = Some b"
    using assms(2,3) nth_mem unfolding live_def by blast
  have "int k < qsize q" using assms(2) by (auto simp: q_list_def)
  moreover have "arr_get (procs q) (int k) = Inr (q_list q ! k)"
    using calculation assms(1,2) by (auto simp: arr_get_def list_ok_def q_list_def)
  moreover have "drop k (q_list q) = q_list q ! k # drop (Suc k) (q_list q)"
    using assms(2) by (simp add: Cons_nth_drop_Suc)
  ultimately show ?thesis using p by (rule that)
qed

lemma kill_running_spec:
  assumes "list_ok q" "k \<le> length (q_list q)" "\<forall>p \<in> set (q_list q). live st p"
    and "length ks + length (filter (named name st) (drop k (q_list q))) \<le> 140"
  shows "\<exists>q'. kill_running name st q (int k) ks =
       Inr (mark name st (drop k (q_list q)), q', ks @ filter (named name st) (drop k (q_list q))) \<and>
     list_ok q' \<and>
     q_list q' = take k (q_list q) @ filter (\<lambda>p. \<not> named name st p) (drop k (q_list q))"
  using assms
proof (induction "length (q_list q) - k" arbitrary: q k st ks)
  case 0
  then have "\<not> int k < qsize q" by (auto simp: list_ok_def q_list_def)
  with 0 show ?case by (subst kill_running.simps) simp
next
  case (Suc n)
  let ?l = "q_list q"
  have k: "k < length ?l" using Suc.hyps(2) by simp
  from scan_position [OF Suc.prems(1) this Suc.prems(3)] obtain a b
    where get: "int k < qsize q" "arr_get (procs q) (int k) = Inr (?l ! k)"
    and split: "drop k ?l = ?l ! k # drop (Suc k) ?l" and p: "?l ! k = Some a" "st a = Some b" .
  show ?case
  proof (cases "has_name name b")
    case True
    then have nm: "named name st (?l ! k)" using p by (auto simp: named_def)
    let ?st = "st(a \<mapsto> finish b)"
    from shift_down_queue [OF Suc.prems(1) k order_refl] obtain ps where
      ps: "shift_down (procs q) (int k) (nat (qsize q - 1 - int k)) = Inr ps"
      and ok: "list_ok (q\<lparr>procs := ps, qsize := qsize q - 1\<rparr>)"
      and l': "q_list (q\<lparr>procs := ps, qsize := qsize q - 1\<rparr>) = take k ?l @ drop (Suc k) ?l" by blast
    let ?q = "q\<lparr>procs := ps, qsize := qsize q - 1\<rparr>"
    have "length ks < 140" using Suc.prems(4) nm split by simp
    then have step: "kill_running name st q (int k) ks = kill_running name ?st ?q (int k) (ks @ [?l ! k])"
      using k get p True ps by (subst kill_running.simps) (simp add: pcb_at_def push_kill_room)
    have "\<forall>p \<in> set (q_list ?q). live ?st p"
      using Suc.prems(3) p(2) unfolding l' by (auto dest: in_set_takeD in_set_dropD)
    moreover have "n = length (q_list ?q) - k" "k \<le> length (q_list ?q)"
      using Suc.hyps(2) k unfolding l' by auto
    moreover have "length (ks @ [?l ! k]) + length (filter (named name ?st) (drop k (q_list ?q))) \<le> 140"
      using Suc.prems(4) nm k p(2) unfolding l' split by simp
    ultimately show ?thesis
      using Suc.hyps(1) [of ?q k ?st "ks @ [?l ! k]"] ok k p nm True
      unfolding step l' split by (simp add: mark_finish)
  next
    case False
    then have nm: "\<not> named name st (?l ! k)" using p by (auto simp: named_def)
    have "kill_running name st q (int k) ks = kill_running name st q (int (Suc k)) ks"
      using k get p False by (subst kill_running.simps) (simp add: pcb_at_def ac_simps)
    with Suc.hyps(1) [of q "Suc k" st ks] Suc.hyps(2) Suc.prems k nm show ?thesis
      unfolding split by (simp add: mark_other take_Suc_conv_app_nth)
  qed
qed

lemma kill_ready_spec:
  assumes "list_ok q" "k \<le> length (q_list q)" "\<forall>p \<in> set (q_list q). live st p"
    and "length ks + length (filter (named name st) (drop k (q_list q))) \<le> 140"
  shows "\<exists>q'. kill_ready name st q (int k) ks =
       Inr (mark name st (drop k (q_list q)), q', ks @ filter (named name st) (drop k (q_list q))) \<and>
     list_ok q' \<and>
     q_list q' = drop (length (filter (named name st) (drop k (q_list q)))) (q_list q)"
  using assms
proof (induction "length (q_list q) - k" arbitrary: q k st ks)
  case 0
  then have "\<not> int k < qsize q" by (auto simp: list_ok_def q_list_def)
  with 0 show ?case by (subst kill_ready.simps) simp
next
  case (Suc n)
  let ?l = "q_list q"
  have k: "k < length ?l" using Suc.hyps(2) by simp
  from scan_position [OF Suc.prems(1) this Suc.prems(3)] obtain a b
    where get: "int k < qsize q" "arr_get (procs q) (int k) = Inr (?l ! k)"
    and split: "drop k ?l = ?l ! k # drop (Suc k) ?l" and p: "?l ! k = Some a" "st a = Some b" .
  show ?case
  proof (cases "has_name name b")
    case True
    then have nm: "named name st (?l ! k)" using p by (auto simp: named_def)
    let ?st = "st(a \<mapsto> finish b)"
    from shift_down_queue [OF Suc.prems(1) k, of 0] obtain ps where
      ps: "shift_down (procs q) 0 (nat (qsize q - 1)) = Inr ps"
      and ok: "list_ok (q\<lparr>procs := ps, qsize := qsize q - 1\<rparr>)"
      and l': "q_list (q\<lparr>procs := ps, qsize := qsize q - 1\<rparr>) = drop (Suc 0) ?l" by auto
    let ?q = "q\<lparr>procs := ps, qsize := qsize q - 1\<rparr>"
    have "length ks < 140" using Suc.prems(4) nm split by simp
    then have step: "kill_ready name st q (int k) ks = kill_ready name ?st ?q (int k) (ks @ [?l ! k])"
      using k get p True ps by (subst kill_ready.simps) (simp add: pcb_at_def push_kill_room)
    have "\<forall>p \<in> set (q_list ?q). live ?st p"
      using Suc.prems(3) p(2) unfolding l' by (auto dest: in_set_dropD)
    moreover have "n = length (q_list ?q) - k" "k \<le> length (q_list ?q)"
      using Suc.hyps(2) k unfolding l' by auto
    moreover have "length (ks @ [?l ! k]) + length (filter (named name ?st) (drop k (q_list ?q))) \<le> 140"
      using Suc.prems(4) nm p(2) unfolding l' split by simp
    ultimately show ?thesis
      using Suc.hyps(1) [of ?q k ?st "ks @ [?l ! k]"] ok p nm True
      unfolding step l' split by (simp add: mark_finish)
  next
    case False
    then have nm: "\<not> named name st (?l ! k)" using p by (auto simp: named_def)
    have "kill_ready name st q (int k) ks = kill_ready name st q (int (Suc k)) ks"
      using k get p False by (subst kill_ready.simps) (simp add: pcb_at_def ac_simps)
    with Suc.hyps(1) [of q "Suc k" st ks] Suc.hyps(2) Suc.prems k nm show ?thesis
      unfolding split by (simp add: mark_other)
  qed
qed

text \<open>All levels: what each of them loses, and the processes noted in order.\<close>

definition level_after :: "BYTE list \<Rightarrow> pcb_store \<Rightarrow> pcb_ptr list \<Rightarrow> pcb_ptr list" where
  "level_after name st l = drop (length (filter (named name st) l)) l"

lemma kill_levels_spec:
  assumes "\<forall>q \<in> set qs. list_ok q \<and> (\<forall>p \<in> set (q_list q). live st p)"
    and "length ks + length (filter (named name st) (concat (map q_list qs))) \<le> 140"
  shows "\<exists>qs'. kill_levels name st qs ks =
       Inr (mark name st (concat (map q_list qs)), qs', ks @ filter (named name st) (concat (map q_list qs))) \<and>
     map q_list qs' = map (\<lambda>q. level_after name st (q_list q)) qs \<and> list_all list_ok qs'"
  using assms
proof (induction qs arbitrary: st ks)
  case (Cons q qs)
  let ?l = "q_list q"
  have "length ks + length (filter (named name st) (drop 0 ?l)) \<le> 140" using Cons.prems(2) by simp
  then obtain q' where q': "kill_ready name st q 0 ks = Inr (mark name st ?l, q', ks @ filter (named name st) ?l)"
    "list_ok q'" "q_list q' = level_after name st ?l"
    using kill_ready_spec [of q 0 st ks name] Cons.prems(1) by (auto simp: level_after_def)
  let ?st = "mark name st ?l"
  have live: "\<forall>q \<in> set qs. list_ok q \<and> (\<forall>p \<in> set (q_list q). live ?st p)" using Cons.prems(1) by simp
  have room: "length (ks @ filter (named name st) ?l) + length (filter (named name ?st) (concat (map q_list qs))) \<le> 140"
    using Cons.prems(2) by simp
  from Cons.IH [OF live room] obtain qs' where
    "kill_levels name ?st qs (ks @ filter (named name st) ?l) =
       Inr (mark name ?st (concat (map q_list qs)), qs',
            (ks @ filter (named name st) ?l) @ filter (named name ?st) (concat (map q_list qs)))"
    "map q_list qs' = map (\<lambda>q. level_after name ?st (q_list q)) qs" "list_all list_ok qs'" by blast
  with q' show ?case
    by (intro exI [of _ "q' # qs'"]) (simp add: mark_append level_after_def)
qed simp

section \<open>Freeing the regions of the killed processes\<close>

text \<open>A process whose memory can be freed without a fault.\<close>

definition freeable :: "pcb_t \<Rightarrow> bool" where
  "freeable b \<longleftrightarrow> unat (code_size (code b)) \<le> length (code_text (code b)) \<and>
     (\<exists>m v. p_mm b = Some m \<and> one_area m v \<and> length (symrgtbl m) = 30)"

lemma mm_free_total:
  assumes "\<not> mmvm_lock c" "mm c = Some m" "one_area m v" "length (symrgtbl m) = 30" "vmaid \<le> 0"
  shows "\<exists>code m' v'. mm_free h c vmaid rgid = Inr (code, c\<lparr>mm := Some m'\<rparr>) \<and> one_area m' v' \<and>
     length (symrgtbl m') = 30"
proof -
  have same: "c\<lparr>mm := Some m\<rparr> = c" "c\<lparr>mmvm_lock := False\<rparr> = c" using assms(1,2) by simp_all
  have mv: "mmap m = Node v NULL" "vm_id v = 0" using assms(3) by (simp_all add: one_area_def)
  show ?thesis
  proof (cases "0 \<le> rgid \<and> rgid < 30 \<and> rg_start (symrgtbl m ! nat rgid) < rg_end (symrgtbl m ! nat rgid) \<and> malloc_ok h")
    case True
    let ?v = "v\<lparr>vm_freerg_list := Node (symrgtbl m ! nat rgid) (vm_freerg_list v)\<rparr>"
    let ?m = "m\<lparr>mmap := Node ?v NULL, symrgtbl := (symrgtbl m)[nat rgid := \<lparr>rg_start = 0, rg_end = 0\<rparr>]\<rparr>"
    have "mm_free h c vmaid rgid = Inr (0, c\<lparr>mm := Some ?m\<rparr>)"
      using True assms same
      by (auto simp: mm_free_def PAGING_MAX_SYMTBL_SZ_def pthread_mutex_lock_def pthread_mutex_unlock_def
          arr_get_def arr_set_def area_simps enlist_vm_freerg_list_def mv set_symrg_def set_vma_def)
    moreover have "one_area ?m ?v" using mv by (simp add: one_area_def)
    ultimately show ?thesis using assms(4) by fastforce
  next
    case False
    then have "mm_free h c vmaid rgid = Inr (-1, c)"
      using assms same
      by (auto simp: mm_free_def PAGING_MAX_SYMTBL_SZ_def pthread_mutex_lock_def pthread_mutex_unlock_def
          arr_get_def area_simps not_less)
    then show ?thesis using assms(3,4) same(1) by metis
  qed
qed

lemma unview_mm: "unview mc a b ((view mc b)\<lparr>mm := x\<rparr>) = mc\<lparr>pcbs := (pcbs mc)(a \<mapsto> b\<lparr>p_mm := x\<rparr>)\<rparr>"
  by (simp add: unview_def view_def Let_def)

text \<open>PCBs that differ in their memory descriptors at most.\<close>

definition only_mm :: "pcb_store \<Rightarrow> pcb_store \<Rightarrow> bool" where
  "only_mm st st' \<longleftrightarrow> (\<forall>a. rel_option (\<lambda>b b'. \<exists>m. b' = b\<lparr>p_mm := m\<rparr>) (st a) (st' a))"

lemma only_mm_refl: "only_mm st st"
  unfolding only_mm_def
proof
  fix a
  have "\<exists>m. b = b\<lparr>p_mm := m\<rparr>" for b :: pcb_t by (rule exI [of _ "p_mm b"]) simp
  then show "rel_option (\<lambda>b b'. \<exists>m. b' = b\<lparr>p_mm := m\<rparr>) (st a) (st a)"
    by (cases "st a") auto
qed

lemma only_mm_step: "only_mm st st' \<Longrightarrow> st' a = Some b \<Longrightarrow> only_mm st (st'(a \<mapsto> b\<lparr>p_mm := m\<rparr>))"
  unfolding only_mm_def
proof (intro allI)
  fix x assume st: "\<forall>a. rel_option (\<lambda>b b'. \<exists>m. b' = b\<lparr>p_mm := m\<rparr>) (st a) (st' a)" "st' a = Some b"
  from st(1) have r: "rel_option (\<lambda>b b'. \<exists>m. b' = b\<lparr>p_mm := m\<rparr>) (st x) (st' x)" ..
  show "rel_option (\<lambda>b b'. \<exists>m. b' = b\<lparr>p_mm := m\<rparr>) (st x) ((st'(a \<mapsto> b\<lparr>p_mm := m\<rparr>)) x)"
  proof (cases "x = a")
    case True
    with r st(2) obtain b0 m0 where "st x = Some b0" "b = b0\<lparr>p_mm := m0\<rparr>" by (cases "st x") auto
    with True show ?thesis by auto
  qed (use r in simp)
qed

lemma free_allocs_total:
  assumes "\<not> vm_lock mc" "pcbs mc a = Some b" "freeable b" "j + n \<le> unat (code_size (code b))"
  shows "\<exists>m. free_allocs h mc (Some a) (int j) n = Inr (mc\<lparr>pcbs := (pcbs mc)(a \<mapsto> b\<lparr>p_mm := m\<rparr>)\<rparr>) \<and>
     freeable (b\<lparr>p_mm := m\<rparr>)"
  using assms
proof (induction n arbitrary: j mc b)
  case 0
  have "mc\<lparr>pcbs := (pcbs mc)(a \<mapsto> b\<lparr>p_mm := p_mm b\<rparr>)\<rparr> = mc" "b\<lparr>p_mm := p_mm b\<rparr> = b"
    using 0 by (simp_all add: fun_upd_idem)
  with 0(3) show ?case by (intro exI [of _ "p_mm b"]) (simp only: free_allocs.simps)
next
  case (Suc n)
  obtain m v where m: "p_mm b = Some m" "one_area m v" "length (symrgtbl m) = 30"
    using Suc.prems(3) by (auto simp: freeable_def)
  have get: "arr_get (code_text (code b)) (int j) = Inr (code_text (code b) ! j)"
    using Suc.prems(3,4) by (auto simp: arr_get_def freeable_def)
  show ?case
  proof (cases "opcode (code_text (code b) ! j) = ALLOC")
    case False
    with get Suc.prems(2) have "free_allocs h mc (Some a) (int j) (Suc n) = free_allocs h mc (Some a) (int (Suc j)) n"
      by (simp add: pcb_at_def ac_simps)
    with Suc.IH [of mc b "Suc j"] Suc.prems show ?thesis by simp
  next
    case True
    have v: "chain_nth (mmap m) 0 = Inr v" "int_of_ulong (vm_id v) \<le> 0"
      using m(2) by (simp_all add: one_area_def int_of_ulong_def)
    have "\<not> mmvm_lock (view mc b)" "mm (view mc b) = Some m" using Suc.prems(1) m(1) by (simp_all add: view_def)
    from mm_free_total [OF this m(2,3) v(2), of h "int_of_u32 (arg_0 (code_text (code b) ! j))"]
    obtain rc m' v' where f: "mm_free h (view mc b) (int_of_ulong (vm_id v)) (int_of_u32 (arg_0 (code_text (code b) ! j))) =
        Inr (rc, (view mc b)\<lparr>mm := Some m'\<rparr>)" "one_area m' v'" "length (symrgtbl m') = 30" by blast
    let ?b = "b\<lparr>p_mm := Some m'\<rparr>"
    let ?mc = "mc\<lparr>pcbs := (pcbs mc)(a \<mapsto> ?b)\<rparr>"
    have "free_allocs h mc (Some a) (int j) (Suc n) = free_allocs h ?mc (Some a) (int (Suc j)) n"
      using get Suc.prems(2) True m(1) v(1) f(1) by (simp add: pcb_at_def on_caller_def unview_mm ac_simps)
    moreover have "freeable ?b" using Suc.prems(3) f(2,3) by (auto simp: freeable_def)
    moreover have "\<not> vm_lock ?mc" "pcbs ?mc a = Some ?b" "Suc j + n \<le> unat (code_size (code ?b))"
      using Suc.prems(1,4) by simp_all
    ultimately obtain x where "free_allocs h mc (Some a) (int j) (Suc n) = Inr (?mc\<lparr>pcbs := (pcbs ?mc)(a \<mapsto> ?b\<lparr>p_mm := x\<rparr>)\<rparr>)"
      "freeable (?b\<lparr>p_mm := x\<rparr>)"
      using Suc.IH [of ?mc ?b "Suc j"] by metis
    moreover have "?mc\<lparr>pcbs := (pcbs ?mc)(a \<mapsto> ?b\<lparr>p_mm := x\<rparr>)\<rparr> = mc\<lparr>pcbs := (pcbs mc)(a \<mapsto> b\<lparr>p_mm := x\<rparr>)\<rparr>"
      "?b\<lparr>p_mm := x\<rparr> = b\<lparr>p_mm := x\<rparr>" by simp_all
    ultimately show ?thesis by (intro exI [of _ x]) (simp only:)
  qed
qed

lemma free_killed_total:
  assumes "\<not> vm_lock mc" "\<forall>p \<in> set ks. \<exists>a b. p = Some a \<and> pcbs mc a = Some b \<and> freeable b"
  shows "\<exists>st'. free_killed h mc ks = Inr (mc\<lparr>pcbs := st'\<rparr>) \<and> only_mm (pcbs mc) st'"
proof -
  have "\<exists>st'. free_killed h (mc\<lparr>pcbs := st\<rparr>) ks = Inr (mc\<lparr>pcbs := st'\<rparr>) \<and> only_mm (pcbs mc) st'"
    if "\<forall>p \<in> set ks. \<exists>a b. p = Some a \<and> st a = Some b \<and> freeable b" "only_mm (pcbs mc) st" for st
    using that
  proof (induction ks arbitrary: st)
    case (Cons p ks)
    then obtain a b where p: "p = Some a" "st a = Some b" "freeable b" by auto
    obtain m where f: "free_allocs h (mc\<lparr>pcbs := st\<rparr>) (Some a) (int 0) (unat (code_size (code b))) =
        Inr (mc\<lparr>pcbs := st(a \<mapsto> b\<lparr>p_mm := m\<rparr>)\<rparr>)" "freeable (b\<lparr>p_mm := m\<rparr>)"
      using free_allocs_total [of "mc\<lparr>pcbs := st\<rparr>" a b 0 "unat (code_size (code b))"] assms(1) p by auto
    have "\<forall>p \<in> set ks. \<exists>x y. p = Some x \<and> (st(a \<mapsto> b\<lparr>p_mm := m\<rparr>)) x = Some y \<and> freeable y"
      using Cons.prems(1) f(2) by fastforce
    from Cons.IH [OF this only_mm_step [OF Cons.prems(2) p(2)]] obtain st' where
      "free_killed h (mc\<lparr>pcbs := st(a \<mapsto> b\<lparr>p_mm := m\<rparr>)\<rparr>) ks = Inr (mc\<lparr>pcbs := st'\<rparr>)" "only_mm (pcbs mc) st'" by blast
    moreover have "free_killed h (mc\<lparr>pcbs := st\<rparr>) (p # ks) = free_killed h (mc\<lparr>pcbs := st(a \<mapsto> b\<lparr>p_mm := m\<rparr>)\<rparr>) ks"
      using f(1) p by (simp add: pcb_at_def)
    ultimately show ?case by metis
  qed auto
  from this [of "pcbs mc"] assms(2) only_mm_refl show ?thesis by simp
qed

section \<open>Properties\<close>

lemma queue_list_ok: "queue_ok st q \<Longrightarrow> list_ok q \<and> (\<forall>p \<in> set (q_list q). live st p)"
  by (simp add: queue_ok_def list_ok_def)

lemma levels_ok_queues:
  "levels_ok st s \<Longrightarrow> \<forall>q \<in> set (mlq_ready_queue s). list_ok q \<and> (\<forall>p \<in> set (q_list q). live st p)"
proof
  fix q assume "levels_ok st s" "q \<in> set (mlq_ready_queue s)"
  then have "queue_ok st q" by (auto simp: levels_ok_def in_set_conv_nth)
  then show "list_ok q \<and> (\<forall>p \<in> set (q_list q). live st p)" by (rule queue_list_ok)
qed

lemma mark_freeable:
  assumes "named name st p" "\<forall>a b. st a = Some b \<longrightarrow> has_name name b \<longrightarrow> freeable b"
  shows "\<exists>a b. p = Some a \<and> mark name st ps a = Some b \<and> freeable b"
proof -
  have fin: "freeable (finish b) = freeable b" for b by (simp add: freeable_def) (simp add: finish_def)
  from assms(1) obtain a b where p: "p = Some a" "st a = Some b" "has_name name b" by (auto simp: named_def)
  with assms(2) have "freeable b" by blast
  with p fin show ?thesis by (auto simp: mark_def)
qed

text \<open>C19. What \<open>killall\<close> does when no other thread touches the queues meanwhile. Assume that the name
  has been read; that the lock is free; that the queues are well formed and no pointer on the
  running list is stale; that at most 140 entries of the lists match; and that the PCBs of the
  name have a memory descriptor \<open>__free\<close> can work on. Then it returns 0. The processes of the name
  that are on the running list or in a ready queue are marked as finished (not one that only a
  CPU holds and the running list, full at ten, has no entry for), and nothing else of any PCB
  but memory descriptors changes. The running list keeps exactly the other processes. But a
  ready queue that holds \<open>n\<close> processes of the name loses its first \<open>n\<close> processes, whatever their
  names: a process of another name in front of them is lost, and killed ones may stay.\<close>

theorem killall_effect:
  assumes "read_name mc (Some a) (a1 rs) 0 [] = Inr (name, mc1)"
    and "pcbs mc1 a = Some b" "p_running_list b \<noteq> None" "p_mlq_ready_queue b \<noteq> None" "\<not> vm_lock mc1"
    and "levels_ok (pcbs mc1) (sched mc1)" "list_ok (running_list (sched mc1))"
    and "\<forall>p \<in> set (q_list (running_list (sched mc1))). live (pcbs mc1) p"
    and "length (filter (named name (pcbs mc1)) (q_list (running_list (sched mc1)) @
           concat (map q_list (mlq_ready_queue (sched mc1))))) \<le> 140"
    and "\<forall>x y. pcbs mc1 x = Some y \<longrightarrow> has_name name y \<longrightarrow> freeable y"
  shows "\<exists>mc'. killall_call h mc (Some a) rs = Inr (0, mc') \<and>
     q_list (running_list (sched mc')) =
       filter (\<lambda>p. \<not> named name (pcbs mc1) p) (q_list (running_list (sched mc1))) \<and>
     (\<forall>i < 140. level (sched mc') i =
        drop (length (filter (named name (pcbs mc1)) (level (sched mc1) i))) (level (sched mc1) i)) \<and>
     only_mm (mark name (pcbs mc1) (q_list (running_list (sched mc1)) @
        concat (map q_list (mlq_ready_queue (sched mc1))))) (pcbs mc')"
proof -
  let ?st = "pcbs mc1" and ?s = "sched mc1"
  let ?rl = "q_list (running_list ?s)" and ?w = "concat (map q_list (mlq_ready_queue ?s))"
  let ?st1 = "mark name ?st ?rl" and ?ks = "filter (named name ?st) (?rl @ ?w)"
  obtain rl where rl: "kill_running name ?st (running_list ?s) 0 [] = Inr (?st1, rl, filter (named name ?st) ?rl)"
    "q_list rl = filter (\<lambda>p. \<not> named name ?st p) ?rl"
    using kill_running_spec [of "running_list ?s" 0 ?st "[]" name] assms(7,8,9) by auto
  have live1: "\<forall>q \<in> set (mlq_ready_queue ?s). list_ok q \<and> (\<forall>p \<in> set (q_list q). live ?st1 p)"
    using levels_ok_queues [OF assms(6)] by simp
  then obtain qs where qs: "kill_levels name ?st1 (mlq_ready_queue ?s) (filter (named name ?st) ?rl) =
      Inr (mark name ?st (?rl @ ?w), qs, ?ks)"
    "map q_list qs = map (\<lambda>q. level_after name ?st1 (q_list q)) (mlq_ready_queue ?s)"
    using kill_levels_spec [OF live1, of "filter (named name ?st) ?rl" name] assms(9) by (auto simp: mark_append)
  have lv: "level_after name ?st1 = level_after name ?st" by (simp add: level_after_def fun_eq_iff)
  have "length (mlq_ready_queue ?s) = 140" using assms(6) by (simp add: levels_ok_def)
  moreover from this have "length qs = 140" using arg_cong [OF qs(2), of length] by simp
  ultimately have levels: "q_list (qs ! i) = level_after name ?st (level ?s i)" if "i < 140" for i
    using that arg_cong [OF qs(2), of "\<lambda>l. l ! i"] by (simp add: lv)
  let ?mc = "mc1\<lparr>pcbs := mark name ?st (?rl @ ?w), sched := ?s\<lparr>running_list := rl, mlq_ready_queue := qs\<rparr>\<rparr>"
  have "\<exists>x y. p = Some x \<and> pcbs ?mc x = Some y \<and> freeable y" if "p \<in> set ?ks" for p
    using that mark_freeable [OF _ assms(10), of p "?rl @ ?w"] by auto
  then have "\<forall>p \<in> set ?ks. \<exists>x y. p = Some x \<and> pcbs ?mc x = Some y \<and> freeable y" by blast
  moreover have "\<not> vm_lock ?mc" using assms(5) by simp
  ultimately obtain st' where f: "free_killed h ?mc ?ks = Inr (?mc\<lparr>pcbs := st'\<rparr>)" "only_mm (pcbs ?mc) st'"
    using free_killed_total [of ?mc ?ks h] by blast
  have run: "killall_call h mc (Some a) rs = Inr (0, ?mc\<lparr>pcbs := st'\<rparr>)"
    using assms(1-4) rl(1) qs(1) f(1) by (auto simp: killall_call_def pcb_at_def Let_def)
  show ?thesis
    using run rl(2) levels f(2) by (intro exI [of _ "?mc\<lparr>pcbs := st'\<rparr>"]) (simp add: level_after_def)
qed

text \<open>For the witness: process 5 holds the name \<open>x\<close> in its region 1 and calls \<open>killall\<close>; on
  level 7 a process \<open>y\<close> waits in front of a process \<open>x\<close>.\<close>

definition kill_machine :: machine where
  "kill_machine = \<lparr>pcbs = [
       5 \<mapsto> (demo_pcb 1 3)\<lparr>p_mm := Some demo_mapped_mm, p_mram := Some Mram, p_active_mswp := Some (Mswp 0),
              p_running_list := Some Running_List, p_mlq_ready_queue := Some Mlq_Ready_Queue\<rparr>,
       6 \<mapsto> (demo_pcb 2 7)\<lparr>path := ''input/proc/y''\<rparr>,
       7 \<mapsto> (demo_pcb 3 7)\<lparr>path := ''input/proc/x'', p_mm := Some demo_mm\<rparr>],
     sched = demo_sched, dev_ram = small_device\<lparr>storage := (\<lambda>i. if i = 256 then 120 else 255)\<rparr>,
     dev_swp = [small_device], vm_lock = False\<rparr>"

lemma kill_machine_names:
  "has_name [120] ((demo_pcb 2 7)\<lparr>path := ''input/proc/y''\<rparr>) = False"
  "has_name [120] ((demo_pcb 3 7)\<lparr>path := ''input/proc/x'', p_mm := Some demo_mm\<rparr>) = True"
  "has_name [120] (b\<lparr>path := ''p0s''\<rparr>) = False"
proof -
  have "base_name ''input/proc/y'' = Some ''y''" "base_name ''input/proc/x'' = Some ''x''" "base_name ''p0s'' = None"
    "c_chars ''x'' = [120]" "c_chars ''y'' = [121]" by code_simp+
  then show "has_name [120] ((demo_pcb 2 7)\<lparr>path := ''input/proc/y''\<rparr>) = False"
    "has_name [120] ((demo_pcb 3 7)\<lparr>path := ''input/proc/x'', p_mm := Some demo_mm\<rparr>) = True"
    "has_name [120] (b\<lparr>path := ''p0s''\<rparr>) = False"
    by (simp_all add: has_name_def)
qed

lemma kill_machine_read: "read_name kill_machine (Some 5) 1 0 [] = Inr ([120], kill_machine)"
proof -
  let ?b = "(demo_pcb 1 3)\<lparr>p_mm := Some demo_mapped_mm, p_mram := Some Mram, p_active_mswp := Some (Mswp 0),
              p_running_list := Some Running_List, p_mlq_ready_queue := Some Mlq_Ready_Queue\<rparr>"
  let ?c = "view kill_machine ?b"
  have c: "?c = demo_mapped\<lparr>mram := Some (dev_ram kill_machine)\<rparr>"
    by (simp add: view_def kill_machine_def demo_pcb_def point_at_def demo_mapped_def demo_caller_def)
  have b: "pcbs kill_machine 5 = Some ?b" by (simp add: kill_machine_def)
  have reg: "region_byte ?c 1 0 0" "region_byte ?c 1 1 1"
    unfolding c
    by (simp_all add: region_byte_def demo_mapped_def demo_mapped_mm_def demo_caller_def demo_mm_def one_area_def
        int_of_u32_def ulong_of_int_def int_of_ulong_def)
  have res: "resident ?c 0 256" "resident ?c 1 257"
    unfolding c by (simp_all add: resident_def demo_mapped_def demo_mapped_mm_def demo_mapped_ptes)
  have ran: "random_cell (mram ?c) 256" "random_cell (mram ?c) 257"
    unfolding c by (simp_all add: random_cell_def kill_machine_def small_device_def)
  have cells: "cell (mram ?c) 256 = 120" "cell (mram ?c) 257 = 255"
    unfolding c by (simp_all add: cell_def kill_machine_def)
  have sx: "u32_of_byte 120 = 120" "u32_of_byte 255 = -1" by code_simp+
  have 0: "libread ?c 1 0 True = Inr (0, ?c, 120)"
    using libread_resident [OF reg(1) res(1) ran(1)] cells sx by simp
  have 1: "libread ?c 1 1 True = Inr (0, ?c, -1)"
    using libread_resident [OF reg(2) res(2) ran(2)] cells sx by simp
  have on: "on_caller kill_machine (Some 5) (\<lambda>c. and_then (libread c 1 off True) (\<lambda>(_, c, data). Inr (data, c))) =
      Inr (d, kill_machine)" if "libread ?c 1 off True = Inr (0, ?c, d)" for off d
    using that b by (simp add: on_caller_def pcb_at_def)
  show ?thesis
    by (subst read_name.simps, simp add: on [OF 0] byte_of_u32_def)
      (subst read_name.simps, simp add: on [OF 1])
qed

theorem killall_effect_witness:
  "\<exists>mc'. killall_call \<lparr>malloc_ok = True, fp_junk = NULL\<rparr> kill_machine (Some 5) \<lparr>a1 = 1, a2 = 0, a3 = 0\<rparr> = Inr (0, mc') \<and>
     level (sched kill_machine) 7 = [Some 6, Some 7] \<and> level (sched mc') 7 = [Some 7]"
proof -
  let ?st = "pcbs kill_machine" and ?h = "\<lparr>malloc_ok = True, fp_junk = NULL\<rparr> :: host"
  have path5: "(demo_pcb 1 3)\<lparr>path := ''p0s''\<rparr> = demo_pcb 1 3" by (simp add: demo_pcb_def)
  have hn5: "has_name [120] ((demo_pcb 1 3)\<lparr>p_mm := x, p_mram := y, p_active_mswp := z, p_running_list := u, p_mlq_ready_queue := w\<rparr>) = False"
    for x y z u w using kill_machine_names(3) [of "demo_pcb 1 3"] path5 by (simp add: has_name_def)
  have nm: "named [120] ?st (Some x) = (x = 7)" for x
    using kill_machine_names(1,2) hn5 by (auto simp: named_def kill_machine_def split: if_splits)
  have s: "sched kill_machine = demo_sched" by (simp add: kill_machine_def)
  have lp: "live ?st p = live demo_store p" "prio_of ?st p = prio_of demo_store p" for p
    by (cases p; auto simp: live_def prio_of_def pcb_at_def kill_machine_def demo_store_def demo_pcb_def)+
  have lv: "levels_ok ?st demo_sched"
    using demo_sched_ok by (simp add: sched_ok_def levels_ok_def queue_ok_def lp)
  have rl: "q_list (running_list demo_sched) = []" "list_ok (running_list demo_sched)"
    by (simp_all add: demo_sched_def static_sched_def static_queue_def q_list_def list_ok_def MAX_QUEUE_SIZE_def)
  have wq: "concat (map q_list (mlq_ready_queue demo_sched)) = [Some 5, Some 6, Some 7]"
    by code_simp
  have fr: "\<forall>x y. ?st x = Some y \<longrightarrow> has_name [120] y \<longrightarrow> freeable y"
    using kill_machine_names(1) hn5
    by (auto simp: kill_machine_def freeable_def demo_pcb_def demo_mm_def one_area_def split: if_splits)
  have "\<exists>mc'. killall_call ?h kill_machine (Some 5) \<lparr>a1 = 1, a2 = 0, a3 = 0\<rparr> = Inr (0, mc') \<and>
     (\<forall>i < 140. level (sched mc') i = drop (length (filter (named [120] ?st) (level demo_sched i))) (level demo_sched i))"
    using killall_effect [of kill_machine 5 "\<lparr>a1 = 1, a2 = 0, a3 = 0\<rparr>" "[120]" kill_machine _ ?h] kill_machine_read lv rl wq fr
    by (auto simp: s nm) (auto simp: kill_machine_def)
  then show ?thesis by (force simp: s demo_levels nm)
qed

lemma on_caller_read:
  assumes "pcbs mc a = Some b" "region_byte (view mc b) r off ad" "resident (view mc b) ad pa"
    "random_cell (mram (view mc b)) pa"
  shows "on_caller mc (Some a) (\<lambda>c. and_then (libread c r off True) (\<lambda>(_, c, data). Inr (data, c))) =
     Inr (u32_of_byte (cell (mram (view mc b)) pa), mc)"
  using assms(1) libread_resident [OF assms(2-4)] by (simp add: on_caller_def pcb_at_def)

lemma u32_of_byte_m1: "u32_of_byte b = -1 \<longleftrightarrow> b = 255"
proof
  assume "u32_of_byte b = -1"
  then have "ucast (u32_of_byte b) = (ucast (-1 :: u32) :: BYTE)" by simp
  moreover have "ucast (u32_of_byte b) = b"
    by (rule bit_eqI) (auto simp: u32_of_byte_def bit_simps)
  moreover have "(ucast (-1 :: u32) :: BYTE) = 255" by code_simp
  ultimately show "b = 255" by simp
qed (simp add: u32_of_byte_def)

text \<open>C31. The buffer for the process name has 100 bytes and the loop that fills it no bound:
  when the region holds 101 readable bytes and none of them is \<open>0xFF\<close>, the loop writes past
  the end of the buffer, NUL bytes notwithstanding.\<close>

theorem read_name_overflows:
  assumes "pcbs mc a = Some b"
    and "\<forall>i \<le> 100. region_byte (view mc b) r (word_of_nat i) (ad + int i) \<and>
       resident (view mc b) (ad + int i) (pa + int i) \<and>
       random_cell (mram (view mc b)) (pa + int i) \<and> cell (mram (view mc b)) (pa + int i) \<noteq> 255"
  shows "read_name mc (Some a) r 0 [] = Inl Out_Of_Bounds"
proof -
  have get: "on_caller mc (Some a) (\<lambda>c. and_then (libread c r (word_of_nat i) True) (\<lambda>(_, c, data). Inr (data, c))) =
      Inr (u32_of_byte (cell (mram (view mc b)) (pa + int i)), mc)"
    "u32_of_byte (cell (mram (view mc b)) (pa + int i)) \<noteq> -1" if "i \<le> 100" for i
    using on_caller_read [OF assms(1)] assms(2) [rule_format, OF that] by (auto simp: u32_of_byte_m1)
  have "read_name mc (Some a) r i name = Inl Out_Of_Bounds" if "i \<le> 100" for i name
    using that
  proof (induction "100 - i" arbitrary: i name)
    case 0
    then have "i \<ge> 100" by simp
    with get(1) [OF 0(2)] show ?case by (subst read_name.simps) simp
  next
    case (Suc n)
    with get [OF Suc.prems] show ?case by (subst read_name.simps) simp
  qed
  then show ?thesis by simp
qed

theorem read_name_overflows_witness:
  "\<exists>mc. read_name mc (Some 5) 1 0 [] = Inl Out_Of_Bounds"
proof -
  let ?mc = "kill_machine\<lparr>dev_ram := small_device\<rparr>"
  let ?b = "(demo_pcb 1 3)\<lparr>p_mm := Some demo_mapped_mm, p_mram := Some Mram, p_active_mswp := Some (Mswp 0),
              p_running_list := Some Running_List, p_mlq_ready_queue := Some Mlq_Ready_Queue\<rparr>"
  have c: "view ?mc ?b = demo_mapped"
    by (simp add: view_def kill_machine_def demo_pcb_def point_at_def demo_mapped_def demo_caller_def)
  have b: "pcbs ?mc 5 = Some ?b" by (simp add: kill_machine_def)
  have "region_byte demo_mapped 1 (word_of_nat i) (0 + int i) \<and> resident demo_mapped (0 + int i) (256 + int i) \<and>
      random_cell (mram demo_mapped) (256 + int i) \<and> cell (mram demo_mapped) (256 + int i) \<noteq> 255" if i: "i \<le> 100" for i
  proof (intro conjI)
    have "uint (word_of_nat i :: u32) = int i"
      using i by (simp add: unsigned_of_nat take_bit_eq_mod)
    then have u: "int_of_u32 (word_of_nat i) = int i" using i by (simp add: int_of_u32_small)
    have "int_of_ulong (ulong_of_int (int i)) = int i"
      using i by (simp add: int_of_ulong_small uint_ulong_of_int)
    then show "region_byte demo_mapped 1 (word_of_nat i) (0 + int i)"
      using u by (simp add: region_byte_def demo_mapped_def demo_mapped_mm_def demo_caller_def demo_mm_def one_area_def)
        (simp add: int_of_u32_def)
    show "resident demo_mapped (0 + int i) (256 + int i)"
      using i by (simp add: resident_def demo_mapped_def demo_mapped_mm_def demo_mapped_ptes)
    show "random_cell (mram demo_mapped) (256 + int i)"
      using i by (simp add: random_cell_def demo_mapped_def demo_caller_def small_device_def)
    have "unat (word_of_nat (256 + i) :: BYTE) = i"
      using i by (simp only: unsigned_of_nat) (simp add: take_bit_eq_mod mod_add_self1)
    then have "unat (word_of_nat (256 + i) :: BYTE) \<noteq> unat (255 :: BYTE)" using i by (simp only:) simp
    then have "(word_of_nat (256 + i) :: BYTE) \<noteq> 255" by metis
    then show "cell (mram demo_mapped) (256 + int i) \<noteq> 255"
      by (simp add: cell_def demo_mapped_def demo_caller_def small_device_def nat_add_distrib)
  qed
  then have "read_name ?mc (Some 5) 1 0 [] = Inl Out_Of_Bounds"
    by (intro read_name_overflows [OF b, of 1 0 256]) (simp add: c)
  then show ?thesis by blast
qed

text \<open>C32. Through \<open>memmap\<close> processes read and write RAM by physical address: after an \<open>IO_WRITE\<close>
  of one process at \<open>a\<close>, an \<open>IO_READ\<close> of any process at \<open>x\<close>, the same or another one, at the
  same address gives the byte back, for any cell of RAM, whether or not a page of either
  process lies there. The write changes no other cell, no swap device and no PCB, and the read
  changes nothing.\<close>

theorem memmap_io_round_trip:
  assumes "pcbs mc a = Some b" "p_mram b = Some Mram" "p_active_mswp b = Some (Mswp k)"
    and "pcbs mc x = Some y" "p_mram y = Some Mram"
    and "a1 rs = 5" "random_cell (Some (dev_ram mc)) (int_of_u32 (a2 rs))" "a1 rs' = 4" "a2 rs' = a2 rs"
  shows "\<exists>mc'. memmap_call h mc (Some a) rs = Inr (0, mc', rs) \<and> pcbs mc' = pcbs mc \<and> dev_swp mc' = dev_swp mc \<and>
     memmap_call h mc' (Some x) rs' = Inr (0, mc', rs'\<lparr>a3 := u32_of_byte (byte_of_u32 (a3 rs))\<rparr>) \<and>
     (\<forall>i. i \<noteq> int_of_u32 (a2 rs) \<longrightarrow> random_cell (Some (dev_ram mc)) i \<longrightarrow>
        cell (Some (dev_ram mc')) i = cell (Some (dev_ram mc)) i)"
proof -
  let ?pa = "int_of_u32 (a2 rs)" and ?v = "byte_of_u32 (a3 rs)"
  have op: "int_of_u32 5 = 5" "int_of_u32 4 = 4" by (simp_all add: int_of_u32_def)
  obtain r where w: "MEMPHY_write (Some (dev_ram mc)) ?pa ?v = Inr (0, r)" using ram.wr_valid assms(7) by blast
  have keep: "random_cell r x = random_cell (Some (dev_ram mc)) x" for x
    using ram.wr_keeps_valid [OF assms(7) w] by simp
  then obtain d where d: "r = Some d" using assms(7) by (cases r) (auto simp: random_cell_def)
  let ?mc = "mc\<lparr>dev_ram := d\<rparr>"
  have v: "mram (view mc b) = Some (dev_ram mc)" "mram (view ?mc y) = Some d" using assms(2,5) by (simp_all add: view_def)
  have un: "unview mc a b ((view mc b)\<lparr>mram := Some d\<rparr>) = ?mc"
    using assms(1-3) store_at_same [of ?mc "Some (Mswp k)"]
    by (simp add: unview_def view_def Let_def store_at_def [of mc] fun_upd_idem)
  have first: "memmap_call h mc (Some a) rs = Inr (0, ?mc, rs)"
    using assms(1,6) w d v(1) un
    by (simp add: memmap_call_def op SYSMEM_MAP_OP_def SYSMEM_INC_OP_def SYSMEM_SWP_OP_def SYSMEM_IO_READ_def
        SYSMEM_IO_WRITE_def on_caller_def pcb_at_def)
  have rd: "MEMPHY_read (Some d) ?pa = Inr (0, Some d, Some ?v)"
    using ram.rd_valid [of "Some d" ?pa] keep [of ?pa] assms(7) ram.wr_peek [OF assms(7) w assms(7)] d by simp
  have same: "(view ?mc y)\<lparr>mram := Some d\<rparr> = view ?mc y" using v(2) by simp
  have y: "pcbs ?mc x = Some y" using assms(4) by simp
  have "memmap_call h ?mc (Some x) rs' = Inr (0, ?mc, rs'\<lparr>a3 := u32_of_byte ?v\<rparr>)"
    using rd v(2) unview_view [OF y] assms(8,9)
    by (simp add: memmap_call_def op SYSMEM_MAP_OP_def SYSMEM_INC_OP_def SYSMEM_SWP_OP_def SYSMEM_IO_READ_def
        on_caller_def pcb_at_def assms(4) same)
  moreover have "cell (Some d) x = cell (Some (dev_ram mc)) x" if "x \<noteq> ?pa" "random_cell (Some (dev_ram mc)) x" for x
    using ram.wr_peek [OF assms(7) w that(2)] that(1) d by simp
  ultimately show ?thesis using first by (intro exI [of _ ?mc]) simp
qed

text \<open>Process 7 reads what process 5 wrote.\<close>

theorem memmap_io_round_trip_witness:
  "\<exists>mc'. memmap_call \<lparr>malloc_ok = True, fp_junk = NULL\<rparr> (kill_machine\<lparr>pcbs := (pcbs kill_machine)(7 \<mapsto>
         (demo_pcb 3 7)\<lparr>p_mram := Some Mram, p_active_mswp := Some (Mswp 0)\<rparr>)\<rparr>)
       (Some 5) \<lparr>a1 = 5, a2 = 3, a3 = 77\<rparr> = Inr (0, mc', \<lparr>a1 = 5, a2 = 3, a3 = 77\<rparr>) \<and>
     memmap_call \<lparr>malloc_ok = True, fp_junk = NULL\<rparr> mc' (Some 7) \<lparr>a1 = 4, a2 = 3, a3 = 0\<rparr> =
       Inr (0, mc', \<lparr>a1 = 4, a2 = 3, a3 = 77\<rparr>)"
proof -
  let ?b = "(demo_pcb 1 3)\<lparr>p_mm := Some demo_mapped_mm, p_mram := Some Mram, p_active_mswp := Some (Mswp 0),
              p_running_list := Some Running_List, p_mlq_ready_queue := Some Mlq_Ready_Queue\<rparr>"
  let ?y = "(demo_pcb 3 7)\<lparr>p_mram := Some Mram, p_active_mswp := Some (Mswp 0)\<rparr>"
  let ?mc = "kill_machine\<lparr>pcbs := (pcbs kill_machine)(7 \<mapsto> ?y)\<rparr>"
  have b: "pcbs ?mc 5 = Some ?b" "p_mram ?b = Some Mram" "p_active_mswp ?b = Some (Mswp 0)"
    "pcbs ?mc 7 = Some ?y" "p_mram ?y = Some Mram" "random_cell (Some (dev_ram ?mc)) (int_of_u32 3)"
    by (simp_all add: kill_machine_def random_cell_def small_device_def int_of_u32_def)
  have "u32_of_byte (byte_of_u32 77) = 77" by code_simp
  with memmap_io_round_trip [OF b(1-5), of "\<lparr>a1 = 5, a2 = 3, a3 = 77\<rparr>" "\<lparr>a1 = 4, a2 = 3, a3 = 0\<rparr>"] b(6)
  show ?thesis by auto
qed

end
