(* ===== verification/Cpu.thy ===== *)
theory Cpu
  imports Mem Syscall
begin

text \<open>
  The instruction interpreter of \<open>src/cpu.c\<close>. \<open>run\<close> is the paging build; \<open>alloc\<close>,
  \<open>free_data\<close>, \<open>cpu_read\<close> and \<open>cpu_write\<close> (\<open>read\<close>, \<open>write\<close>) are the legacy operations on \<open>src/mem.c\<close> that the
  paging build leaves unused.
\<close>

section \<open>Operations\<close>

definition calc :: "pcb_ptr \<Rightarrow> int" where
  "calc proc = 0"

definition alloc :: "mem_t \<Rightarrow> pcb_t \<Rightarrow> u32 \<Rightarrow> u32 \<Rightarrow> (int \<times> mem_t \<times> pcb_t) result" where
  "alloc m proc sz reg_index =
     and_then (alloc_mem m sz proc) (\<lambda>(addr, m, proc).
       if addr = 0 then Inr (1, m, proc)
       else and_then (arr_set (regs proc) (uint reg_index) addr) (\<lambda>rs. Inr (0, m, proc\<lparr>regs := rs\<rparr>)))"

definition free_data :: "pcb_t \<Rightarrow> u32 \<Rightarrow> int result" where
  "free_data proc reg_index =
     and_then (arr_get (regs proc) (uint reg_index)) (\<lambda>r. Inr (free_mem r proc))"

definition cpu_read :: "mem_t \<Rightarrow> pcb_t \<Rightarrow> u32 \<Rightarrow> u32 \<Rightarrow> u32 \<Rightarrow> (int \<times> pcb_t) result" where
  "cpu_read m proc source offset destination =
     and_then (arr_get (regs proc) (uint source)) (\<lambda>r.
     and_then (read_mem m (r + offset) proc) (\<lambda>(code, data).
       if code \<noteq> 0 then
         and_then (initialised data) (\<lambda>d.
         and_then (arr_set (regs proc) (uint destination) (u32_of_byte d)) (\<lambda>rs. Inr (0, proc\<lparr>regs := rs\<rparr>)))
       else Inr (1, proc)))"

definition cpu_write :: "mem_t \<Rightarrow> pcb_t \<Rightarrow> BYTE \<Rightarrow> u32 \<Rightarrow> u32 \<Rightarrow> (int \<times> mem_t) result" where
  "cpu_write m proc data destination offset =
     and_then (arr_get (regs proc) (uint destination)) (\<lambda>r. write_mem m (r + offset) proc data)"

text \<open>The instruction is copied to a local variable; \<open>READ\<close> stores its result in that copy.\<close>

definition exec_ins :: "host \<Rightarrow> machine \<Rightarrow> pcb_ptr \<Rightarrow> inst_t \<Rightarrow> (int \<times> machine) result" where
  "exec_ins h mc proc ins =
     (case opcode ins of
        CALC \<Rightarrow> Inr (calc proc, mc)
      | ALLOC \<Rightarrow> on_caller mc proc (\<lambda>c. liballoc h c (arg_0 ins) (arg_1 ins))
      | FREE \<Rightarrow> on_caller mc proc (\<lambda>c. libfree h c (arg_0 ins))
      | READ \<Rightarrow> on_caller mc proc (\<lambda>c.
          and_then (libread c (arg_0 ins) (arg_1 ins) True) (\<lambda>(stat, c, _). Inr (stat, c)))
      | WRITE \<Rightarrow> on_caller mc proc (\<lambda>c. libwrite c (byte_of_u32 (arg_0 ins)) (arg_1 ins) (arg_2 ins))
      | SYSCALL \<Rightarrow> libsyscall h mc proc (arg_0 ins) (arg_1 ins) (arg_2 ins) (arg_3 ins))"

definition run :: "host \<Rightarrow> machine \<Rightarrow> pcb_ptr \<Rightarrow> (int \<times> machine) result" where
  "run h mc proc =
     and_then (deref proc) (\<lambda>a.
     and_then (pcb_at (pcbs mc) proc) (\<lambda>b.
       if pc b \<ge> code_size (code b) then Inr (1, mc)
       else
         and_then (arr_get (code_text (code b)) (uint (pc b))) (\<lambda>ins.
           exec_ins h (mc\<lparr>pcbs := (pcbs mc)(a \<mapsto> b\<lparr>pc := pc b + 1\<rparr>)\<rparr>) proc ins)))"

section \<open>Lemmas\<close>

lemma on_caller_InrE:
  assumes "on_caller mc (Some a) f = Inr (r, mc')"
  obtains b c where "pcbs mc a = Some b" "f (view mc b) = Inr (r, c)" "mc' = unview mc a b c"
  using assms by (auto simp: on_caller_def result_simps)

text \<open>What a memory operation of the process at \<open>a\<close>, with PCB \<open>b\<close>, may change.\<close>

definition own_memory :: "nat \<Rightarrow> pcb_t \<Rightarrow> machine \<Rightarrow> machine \<Rightarrow> bool" where
  "own_memory a b mc mc' \<longleftrightarrow> sched mc' = sched mc \<and> (\<forall>x. x \<noteq> a \<longrightarrow> pcbs mc' x = pcbs mc x) \<and>
     (\<exists>m. pcbs mc' a = Some (b\<lparr>p_mm := m\<rparr>))"

lemma own_memory_refl: "pcbs mc a = Some b \<Longrightarrow> own_memory a b mc mc"
proof -
  assume "pcbs mc a = Some b"
  then have "pcbs mc a = Some (b\<lparr>p_mm := p_mm b\<rparr>)" by simp
  then show ?thesis unfolding own_memory_def by blast
qed

lemma on_caller_frame:
  assumes "on_caller mc (Some a) f = Inr (r, mc')" "pcbs mc a = Some b"
  shows "own_memory a b mc mc'"
  using assms(1) by (rule on_caller_InrE) (auto simp: assms(2) own_memory_def)

lemma memmap_frame:
  assumes "memmap_call h mc (Some a) rs = Inr (r, mc', rs')" "pcbs mc a = Some b"
  shows "own_memory a b mc mc'"
proof (cases "mc' = mc")
  case False
  with assms(1) have "\<exists>f r. on_caller mc (Some a) f = Inr (r :: int, mc') \<or> (\<exists>g r. on_caller mc (Some a) g = Inr (r :: BYTE option, mc'))"
    by (auto simp: memmap_call_def Let_def result_simps split: if_splits)
  then show ?thesis by (elim exE disjE) (erule on_caller_frame [OF _ assms(2)])+
qed (use own_memory_refl assms(2) in blast)

text \<open>Every instruction but the system call \<open>killall\<close> leaves the scheduler and the other processes alone.\<close>

definition no_killall :: "inst_t \<Rightarrow> bool" where
  "no_killall x \<longleftrightarrow> \<not> (opcode x = SYSCALL \<and> arg_0 x = 101)"

text \<open>The system calls that change shared data without a lock: \<open>killall\<close>, whose calls on \<open>queue_lock\<close>
  are commented out, and \<open>memmap\<close> with \<open>SYSMEM_INC_OP\<close>, which takes frames from the free list of
  RAM outside of \<open>mmvm_lock\<close>. An instruction that keeps the locks makes neither call.\<close>

definition keeps_locks :: "inst_t \<Rightarrow> bool" where
  "keeps_locks x \<longleftrightarrow> no_killall x \<and> \<not> (opcode x = SYSCALL \<and> arg_0 x = 17 \<and> arg_1 x = 2)"

lemma exec_ins_frame:
  assumes "exec_ins h mc (Some a) ins = Inr (r, mc')" "pcbs mc a = Some b" "no_killall ins"
  shows "own_memory a b mc mc'"
proof (cases "opcode ins = SYSCALL")
  case True
  with assms(1,3) have "mc' = mc \<or> (\<exists>rs r rs'. memmap_call h mc (Some a) rs = Inr (r, mc', rs'))"
    by (auto simp: exec_ins_def no_killall_def libsyscall_def syscall_def syscalltbl_def list_syscall_def result_simps
        split: if_splits)
  then show ?thesis using memmap_frame own_memory_refl assms(2) by blast
next
  case False
  show ?thesis
  proof (cases "opcode ins = CALC")
    case True
    with assms(1) have "mc' = mc" by (simp add: exec_ins_def)
    then show ?thesis using own_memory_refl assms(2) by simp
  next
    case nc: False
    with False assms(1) obtain f where "on_caller mc (Some a) f = Inr (r, mc')"
      by (cases "opcode ins") (auto simp: exec_ins_def)
    then show ?thesis using assms(2) by (rule on_caller_frame)
  qed
qed

text \<open>The mutex of the memory library is free again after every instruction but \<open>SYSCALL\<close>.\<close>

lemma on_caller_unlocks:
  assumes "on_caller mc (Some a) f = Inr (r, mc')" "\<And>c. \<not> mmvm_lock c \<Longrightarrow> safe (\<lambda>(_, c'). \<not> mmvm_lock c') (f c)"
    and "\<not> vm_lock mc"
  shows "\<not> vm_lock mc'"
  using assms(1)
proof (rule on_caller_InrE)
  fix b c assume f: "f (view mc b) = Inr (r, c)" and mc': "mc' = unview mc a b c"
  have "\<not> mmvm_lock (view mc b)" using assms(3) by (simp add: view_def)
  from assms(2) [OF this] f mc' show ?thesis by simp
qed

lemma exec_ins_unlocks:
  assumes "exec_ins h mc (Some a) ins = Inr (r, mc')" "opcode ins \<noteq> SYSCALL" "\<not> vm_lock mc"
  shows "\<not> vm_lock mc'"
proof (cases "opcode ins")
  case READ
  have "safe (\<lambda>(_, c'). \<not> mmvm_lock c')
      (and_then (libread c (arg_0 ins) (arg_1 ins) True) (\<lambda>(stat, c, _). Inr (stat, c)))"
    if "\<not> mmvm_lock c" for c
    by (rule safe_and_then [OF safe_lib(3) [OF that]]) auto
  with READ assms(1,3) show ?thesis by (intro on_caller_unlocks [OF _ _ assms(3)]) (auto simp: exec_ins_def)
next
  case ALLOC
  with assms(1) have "on_caller mc (Some a) (\<lambda>c. liballoc h c (arg_0 ins) (arg_1 ins)) = Inr (r, mc')"
    by (simp add: exec_ins_def)
  then show ?thesis by (rule on_caller_unlocks) (rule safe_lib(1), assumption, rule assms(3))
next
  case FREE
  with assms(1) have "on_caller mc (Some a) (\<lambda>c. libfree h c (arg_0 ins)) = Inr (r, mc')"
    by (simp add: exec_ins_def)
  then show ?thesis by (rule on_caller_unlocks) (rule safe_lib(2), assumption, rule assms(3))
next
  case WRITE
  with assms(1) have "on_caller mc (Some a)
      (\<lambda>c. libwrite c (byte_of_u32 (arg_0 ins)) (arg_1 ins) (arg_2 ins)) = Inr (r, mc')"
    by (simp add: exec_ins_def)
  then show ?thesis by (rule on_caller_unlocks) (rule safe_lib(4), assumption, rule assms(3))
qed (use assms in \<open>auto simp: exec_ins_def\<close>)

lemma run_step:
  assumes "pcbs mc a = Some b" "pc b < code_size (code b)" "unat (pc b) < length (code_text (code b))"
  shows "run h mc (Some a) =
     exec_ins h (mc\<lparr>pcbs := (pcbs mc)(a \<mapsto> b\<lparr>pc := pc b + 1\<rparr>)\<rparr>) (Some a) (code_text (code b) ! unat (pc b))"
proof -
  have "uint (pc b) < int (length (code_text (code b)))"
    using assms(3) uint_nat [of "pc b"] by linarith
  then have "arr_get (code_text (code b)) (uint (pc b)) = Inr (code_text (code b) ! unat (pc b))"
    by (simp add: arr_get_def)
  moreover have "\<not> code_size (code b) \<le> pc b" using assms(2) by simp
  ultimately show ?thesis using assms(1) by (simp add: run_def pcb_at_def)
qed

lemma arr_get_mem: "arr_get xs i = Inr x \<Longrightarrow> x \<in> set xs"
  by (auto simp: arr_get_def split: if_splits)

lemma view_pc [simp]: "view (mc\<lparr>pcbs := st\<rparr>) (b\<lparr>pc := n\<rparr>) = view mc b"
  by (simp add: view_def)

section \<open>Properties\<close>

text \<open>C20. Running one instruction other than a system call: the program counter moves to the
  next instruction, the process changes in its memory descriptor only (so the value a
  \<open>READ\<close> gets is lost, registers included), no other process and no scheduler queue
  changes, and the memory mutex is free again.\<close>

theorem run_changes_own_process_only:
  assumes "pcbs mc a = Some b" "pc b < code_size (code b)" "unat (pc b) < length (code_text (code b))"
    and "opcode (code_text (code b) ! unat (pc b)) \<noteq> SYSCALL" "\<not> vm_lock mc"
    and "run h mc (Some a) = Inr (stat, mc')"
  shows "sched mc' = sched mc \<and> (\<forall>x. x \<noteq> a \<longrightarrow> pcbs mc' x = pcbs mc x) \<and>
     (\<exists>m. pcbs mc' a = Some (b\<lparr>pc := pc b + 1, p_mm := m\<rparr>)) \<and> \<not> vm_lock mc'"
proof -
  let ?mc = "mc\<lparr>pcbs := (pcbs mc)(a \<mapsto> b\<lparr>pc := pc b + 1\<rparr>)\<rparr>"
  have e: "exec_ins h ?mc (Some a) (code_text (code b) ! unat (pc b)) = Inr (stat, mc')"
    using run_step [OF assms(1-3)] assms(6) by simp
  have "pcbs ?mc a = Some (b\<lparr>pc := pc b + 1\<rparr>)" by simp
  moreover have "no_killall (code_text (code b) ! unat (pc b))" using assms(4) by (simp add: no_killall_def)
  ultimately have "own_memory a (b\<lparr>pc := pc b + 1\<rparr>) ?mc mc'" by (rule exec_ins_frame [OF e])
  with exec_ins_unlocks [OF e assms(4)] assms(5) show ?thesis by (simp add: own_memory_def)
qed

text \<open>A machine with one process that holds region 1 in RAM, for the witnesses.\<close>

definition demo_proc :: "inst_t list \<Rightarrow> pcb_t" where
  "demo_proc is = (demo_pcb 1 3)\<lparr>code := \<lparr>code_text = is, code_size = word_of_nat (length is)\<rparr>,
     p_mm := Some demo_mapped_mm, p_mram := Some Mram, p_active_mswp := Some (Mswp 0)\<rparr>"

definition demo_machine :: "inst_t list \<Rightarrow> machine" where
  "demo_machine is = \<lparr>pcbs = [5 \<mapsto> demo_proc is], sched = static_sched, dev_ram = small_device,
     dev_swp = [small_device], vm_lock = False\<rparr>"

definition demo_host :: host where
  "demo_host = \<lparr>malloc_ok = True, fp_junk = NULL\<rparr>"

definition ins :: "ins_opcode_t \<Rightarrow> u32 \<Rightarrow> u32 \<Rightarrow> u32 \<Rightarrow> inst_t" where
  "ins op x y z = \<lparr>opcode = op, arg_0 = x, arg_1 = y, arg_2 = z, arg_3 = 0\<rparr>"

lemma demo_view [simp]: "view (demo_machine is) (demo_proc is) = demo_mapped"
  by (simp add: view_def demo_machine_def demo_proc_def demo_pcb_def point_at_def demo_mapped_def
      demo_caller_def)

theorem run_changes_own_process_only_witness:
  "\<exists>mc'. run demo_host (demo_machine [ins FREE 1 0 0]) (Some 5) = Inr (0, mc') \<and> sched mc' = static_sched"
proof -
  let ?is = "[ins FREE 1 0 0]"
  let ?mc = "demo_machine ?is" and ?b = "demo_proc ?is"
  have b: "pcbs ?mc 5 = Some ?b" "pc ?b < code_size (code ?b)" "unat (pc ?b) < length (code_text (code ?b))"
    "opcode (code_text (code ?b) ! unat (pc ?b)) \<noteq> SYSCALL" "\<not> vm_lock ?mc" "sched ?mc = static_sched"
    by (simp_all add: demo_machine_def demo_proc_def demo_pcb_def ins_def)
  have i: "code_text (code ?b) ! unat (pc ?b) = ins FREE 1 0 0"
    by (simp add: demo_proc_def demo_pcb_def)
  have f: "\<exists>c. libfree demo_host demo_mapped 1 = Inr (0, c)"
    by (simp add: libfree_def mm_free_def int_of_u32_def PAGING_MAX_SYMTBL_SZ_def pthread_mutex_lock_def
        demo_mapped_def demo_mapped_mm_def demo_caller_def demo_mm_def arr_get_def arr_set_def get_vma_by_num_def
        int_of_ulong_def demo_host_def enlist_vm_freerg_list_def set_symrg_def set_vma_def)
  have "\<exists>mc'. run demo_host ?mc (Some 5) = Inr (0, mc')"
    using f unfolding run_step [OF b(1-3)] i
    by (auto simp: exec_ins_def ins_def on_caller_def pcb_at_def)
  then show ?thesis using run_changes_own_process_only [OF b(1-5), of demo_host 0] b(6) by metis
qed

lemma view_other:
  assumes "p_mram b = Some Mram" "p_mram b' = Some Mram" "p_active_mswp b \<noteq> Some Mram"
    "active_mswp c = point_at mc (p_active_mswp b)" "mram c = Some d"
    "\<not> mmvm_lock c" "\<not> vm_lock mc" "p_active_mswp b' \<noteq> Some Mram"
  shows "view (unview mc a b c) b' = (view mc b')\<lparr>mram := Some d\<rparr>"
proof -
  have st: "store_at (mc\<lparr>dev_ram := d\<rparr>) (p_active_mswp b) (point_at mc (p_active_mswp b)) = mc\<lparr>dev_ram := d\<rparr>"
  proof -
    have "point_at (mc\<lparr>dev_ram := d\<rparr>) (p_active_mswp b) = point_at mc (p_active_mswp b)"
      using assms(3) by simp
    then show ?thesis using store_at_same [of "mc\<lparr>dev_ram := d\<rparr>" "p_active_mswp b"] by simp
  qed
  have u: "unview mc a b c = mc\<lparr>dev_ram := d, pcbs := (pcbs mc)(a \<mapsto> b\<lparr>p_mm := mm c\<rparr>), vm_lock := False\<rparr>"
    using assms(1,4,5,6) st by (simp add: unview_def Let_def) (simp add: store_at_def st [unfolded store_at_def])
  have "point_at (unview mc a b c) (p_active_mswp b') = point_at mc (p_active_mswp b')"
    unfolding u using assms(8) by simp
  then show ?thesis using assms(2,7) by (simp add: view_def u point_at_def)
qed

text \<open>C28. Memory of different processes is kept apart as far as their pages are: when a process
  executes a \<open>WRITE\<close> to a byte that lies in RAM cell \<open>pa\<close>, another process whose byte lies
  in a different cell reads the same value as before, and its PCB is unchanged.\<close>

theorem write_keeps_other_process:
  assumes "pcbs mc a = Some b" "pcbs mc a' = Some b'" "a \<noteq> a'" "\<not> vm_lock mc"
    and "p_mram b = Some Mram" "p_mram b' = Some Mram"
    and "p_active_mswp b \<noteq> Some Mram" "p_active_mswp b' \<noteq> Some Mram"
    and "pc b < code_size (code b)" "unat (pc b) < length (code_text (code b))"
    and "code_text (code b) ! unat (pc b) = i" "opcode i = WRITE"
    and "region_byte (view mc b) (arg_1 i) (arg_2 i) ad" "resident (view mc b) ad pa" "random_cell (Some (dev_ram mc)) pa"
    and "region_byte (view mc b') r' o' ad'" "resident (view mc b') ad' pa'" "random_cell (Some (dev_ram mc)) pa'"
    and "pa' \<noteq> pa"
  shows "\<exists>mc' w. run h mc (Some a) = Inr (0, mc') \<and> pcbs mc' a' = Some b' \<and>
     libread (view mc b') r' o' True = Inr (0, view mc b', w) \<and>
     libread (view mc' b') r' o' True = Inr (0, view mc' b', w)"
proof -
  let ?b = "b\<lparr>pc := pc b + 1\<rparr>"
  let ?mc = "mc\<lparr>pcbs := (pcbs mc)(a \<mapsto> ?b)\<rparr>"
  let ?c = "view mc b" and ?c' = "view mc b'"
  have ram: "mram ?c = Some (dev_ram mc)" "mram ?c' = Some (dev_ram mc)"
    using assms(5,6) by (simp_all add: view_def point_at_def)
  obtain r where w: "MEMPHY_write (mram ?c) pa (byte_of_u32 (arg_0 i)) = Inr (0, r)"
    and l: "libwrite ?c (byte_of_u32 (arg_0 i)) (arg_1 i) (arg_2 i) = Inr (0, ?c\<lparr>mram := r\<rparr>)"
    using libwrite_resident [OF assms(13,14)] assms(15) ram(1) by auto
  have keep: "random_cell r pa'" "cell r pa' = cell (mram ?c') pa'"
    using ram.wr_keeps_valid [OF _ w] ram.wr_peek [OF _ w] assms(15,18,19) ram by simp_all
  then obtain d where d: "r = Some d" by (cases r) (auto simp: random_cell_def)
  let ?c1 = "?c\<lparr>mram := Some d\<rparr>"
  let ?mc' = "unview ?mc a ?b ?c1"
  have "run h mc (Some a) = Inr (0, ?mc')"
    using run_step [OF assms(1,9,10)] assms(11,12) l d by (simp add: exec_ins_def on_caller_def pcb_at_def)
  moreover have "pcbs ?mc' a' = Some b'" using assms(2,3) by simp
  moreover have "libread ?c' r' o' True = Inr (0, ?c', u32_of_byte (cell (mram ?c') pa'))"
    using libread_resident [OF assms(16,17)] assms(18) ram(2) by simp
  moreover have "view ?mc' b' = ?c'\<lparr>mram := Some d\<rparr>"
  proof -
    have "view ?mc b' = view mc b'" by (simp add: view_def)
    then show ?thesis
      using view_other [of ?b b' ?c1 ?mc d a] assms(4-8) by (simp add: view_def)
  qed
  moreover have "libread (?c'\<lparr>mram := Some d\<rparr>) r' o' True =
      Inr (0, ?c'\<lparr>mram := Some d\<rparr>, u32_of_byte (cell (mram ?c') pa'))"
    using libread_resident [of "?c'\<lparr>mram := Some d\<rparr>" r' o' ad' pa'] assms(16,17) keep d by simp
  ultimately show ?thesis by metis
qed

theorem write_keeps_other_process_witness:
  "\<exists>mc mc' b' w. run demo_host mc (Some 5) = Inr (0, mc') \<and> pcbs mc 6 = Some b' \<and>
     libread (view mc b') 1 10 True = Inr (0, view mc b', w) \<and> libread (view mc' b') 1 10 True = Inr (0, view mc' b', w)"
proof -
  let ?m' = "demo_mapped_mm\<lparr>pgd := Some (\<lambda>_. snd (pte_set_fpn 0 0))\<rparr>"
  let ?b = "demo_proc [ins WRITE 42 1 10]" and ?b' = "(demo_proc [])\<lparr>p_mm := Some ?m'\<rparr>"
  let ?mc = "(demo_machine [])\<lparr>pcbs := [5 \<mapsto> ?b, 6 \<mapsto> ?b']\<rparr>"
  have fpn0: "PAGING_PAGE_PRESENT (snd (pte_set_fpn 0 0))" "uint (PAGING_FPN (snd (pte_set_fpn 0 0))) = 0"
    using pte_set_fpn_fields [where pte = 0 and fpn = 0] by (simp_all add: u32_of_int_def)
  have v: "view ?mc ?b = demo_mapped" "view ?mc ?b' = demo_mapped\<lparr>mm := Some ?m'\<rparr>"
    by (simp_all add: view_def demo_machine_def demo_proc_def demo_pcb_def point_at_def demo_mapped_def demo_caller_def)
  have addr: "region_byte demo_mapped 1 10 10" "region_byte (demo_mapped\<lparr>mm := Some ?m'\<rparr>) 1 10 10"
    by (simp_all add: region_byte_def demo_mapped_def demo_mapped_mm_def demo_caller_def demo_mm_def one_area_def
        int_of_u32_def ulong_of_int_def int_of_ulong_def)
  have res: "resident demo_mapped 10 266" "resident (demo_mapped\<lparr>mm := Some ?m'\<rparr>) 10 10"
    by (simp_all add: resident_def demo_mapped_def demo_mapped_mm_def demo_mapped_ptes fpn0)
  have "\<exists>mc' w. run demo_host ?mc (Some 5) = Inr (0, mc') \<and> pcbs mc' 6 = Some ?b' \<and>
     libread (view ?mc ?b') 1 10 True = Inr (0, view ?mc ?b', w) \<and>
     libread (view mc' ?b') 1 10 True = Inr (0, view mc' ?b', w)"
    by (rule write_keeps_other_process [where b = ?b and i = "ins WRITE 42 1 10" and ad = 10 and pa = 266
          and ad' = 10 and pa' = 10])
      (use v addr res in \<open>simp_all add: ins_def demo_machine_def demo_proc_def demo_pcb_def random_cell_def small_device_def\<close>)
  moreover have "pcbs ?mc 6 = Some ?b'" by simp
  ultimately show ?thesis by blast
qed

end
