(* ===== verification/Timer.thy ===== *)
theory Timer
  imports Prelude
begin

text \<open>
  The slot timer of \<open>src/timer.c\<close>. Devices (the CPUs and the loader) attach before the
  timer starts; in every slot the timer waits for each device to report that it is done
  or has detached, advances the time, and releases the devices. A critical section (a
  locked region) is one step of its thread, and waiting on a condition variable is a step
  that is not enabled. A device is named by a number; \<open>dev_list\<close> has the order of the C list.
  \<open>ticks\<close> and \<open>slots\<close> count, for the proofs only, the time and how often a device has
  returned from \<open>next_slot\<close>.
\<close>

section \<open>State\<close>

record timer_id_t =
  t_done :: int
  t_fsh :: int

text \<open>Where the timer thread is: \<open>Wait\<close> and \<open>Release\<close> carry the rest of the list that the
  loop has not visited, and the counters \<open>fsh\<close> and \<open>event\<close>.\<close>

datatype timer_pc = Not_Started | Check | Wait "nat list" int int | Tick int int
  | Release "nat list" int int | Decide int int | Exited

datatype device_pc = Working | In_Next_Slot | Detached

record timer_t =
  dev_list :: "nat list"
  ids :: "nat \<Rightarrow> timer_id_t"
  tm :: "64 word"
  timer_started :: int
  timer_stop :: int
  tpc :: timer_pc
  dpc :: "nat \<Rightarrow> device_pc"
  ticks :: nat
  slots :: "nat \<Rightarrow> nat"

definition static_timer :: timer_t where
  "static_timer = \<lparr>dev_list = [], ids = (\<lambda>_. \<lparr>t_done = 0, t_fsh = 0\<rparr>), tm = 0, timer_started = 0, timer_stop = 0,
     tpc = Not_Started, dpc = (\<lambda>_. Working), ticks = 0, slots = (\<lambda>_. 0)\<rparr>"

section \<open>Operations\<close>

text \<open>\<open>attach_event\<close>: NULL once the timer runs, else a new node at the front. The new device
  gets the next free number.\<close>

definition attach_event :: "timer_t \<Rightarrow> nat option \<times> timer_t" where
  "attach_event s =
     (if timer_started s \<noteq> 0 then (None, s)
      else let d = length (dev_list s) in
        (Some d, s\<lparr>dev_list := d # dev_list s, ids := (ids s)(d := \<lparr>t_done = 0, t_fsh = 0\<rparr>),
           dpc := (dpc s)(d := Working), slots := (slots s)(d := 0)\<rparr>))"

definition start_timer :: "timer_t \<Rightarrow> timer_t" where
  "start_timer s = s\<lparr>timer_started := 1, tpc := Check\<rparr>"

definition current_time :: "timer_t \<Rightarrow> 64 word" where
  "current_time s = tm s"

definition detach_event :: "timer_t \<Rightarrow> nat \<Rightarrow> timer_t" where
  "detach_event s d = s\<lparr>ids := (ids s)(d := (ids s d)\<lparr>t_fsh := 1\<rparr>), dpc := (dpc s)(d := Detached)\<rparr>"

text \<open>The two critical sections of \<open>next_slot\<close>; the second one waits while \<open>done\<close> is set.\<close>

definition next_slot_begin :: "timer_t \<Rightarrow> nat \<Rightarrow> timer_t" where
  "next_slot_begin s d = s\<lparr>ids := (ids s)(d := (ids s d)\<lparr>t_done := 1\<rparr>), dpc := (dpc s)(d := In_Next_Slot)\<rparr>"

definition next_slot_end :: "timer_t \<Rightarrow> nat \<Rightarrow> timer_t option" where
  "next_slot_end s d =
     (if t_done (ids s d) \<noteq> 0 then None
      else Some (s\<lparr>dpc := (dpc s)(d := Working), slots := (slots s)(d := Suc (slots s d))\<rparr>))"

text \<open>\<open>timer_routine\<close>, one step; \<open>None\<close> while it waits, and when it has ended.\<close>

definition timer_step :: "timer_t \<Rightarrow> timer_t option" where
  "timer_step s =
     (case tpc s of
        Not_Started \<Rightarrow> None
      | Check \<Rightarrow> Some (s\<lparr>tpc := if timer_stop s = 0 then Wait (dev_list s) 0 0 else Exited\<rparr>)
      | Wait [] f e \<Rightarrow> Some (s\<lparr>tpc := Tick f e\<rparr>)
      | Wait (d # ds) f e \<Rightarrow>
          if t_done (ids s d) = 0 \<and> t_fsh (ids s d) = 0 then None
          else Some (s\<lparr>tpc := Wait ds (if t_fsh (ids s d) \<noteq> 0 then f + 1 else f) (e + 1)\<rparr>)
      | Tick f e \<Rightarrow> Some (s\<lparr>tm := tm s + 1, ticks := Suc (ticks s), tpc := Release (dev_list s) f e\<rparr>)
      | Release [] f e \<Rightarrow> Some (s\<lparr>tpc := Decide f e\<rparr>)
      | Release (d # ds) f e \<Rightarrow>
          Some (s\<lparr>ids := (ids s)(d := (ids s d)\<lparr>t_done := 0\<rparr>), tpc := Release ds f e\<rparr>)
      | Decide f e \<Rightarrow> Some (s\<lparr>tpc := if f = e then Exited else Check\<rparr>)
      | Exited \<Rightarrow> None)"

text \<open>\<open>stop_timer\<close>: the request, and after the join the release of the list.\<close>

definition stop_request :: "timer_t \<Rightarrow> timer_t" where
  "stop_request s = s\<lparr>timer_stop := 1\<rparr>"

definition stop_join :: "timer_t \<Rightarrow> timer_t option" where
  "stop_join s = (if tpc s = Exited then Some (s\<lparr>dev_list := []\<rparr>) else None)"

section \<open>Interleavings\<close>

inductive tstep :: "timer_t \<Rightarrow> timer_t \<Rightarrow> bool" where
  attach: "attach_event s = (Some d, t) \<Longrightarrow> tstep s t"
| start: "timer_started s = 0 \<Longrightarrow> tstep s (start_timer s)"
| slot_begin: "d \<in> set (dev_list s) \<Longrightarrow> dpc s d = Working \<Longrightarrow> tstep s (next_slot_begin s d)"
| slot_end: "d \<in> set (dev_list s) \<Longrightarrow> dpc s d = In_Next_Slot \<Longrightarrow> next_slot_end s d = Some t \<Longrightarrow> tstep s t"
| detach: "d \<in> set (dev_list s) \<Longrightarrow> dpc s d = Working \<Longrightarrow> tstep s (detach_event s d)"
| timer: "timer_step s = Some t \<Longrightarrow> tstep s t"
| stop: "tstep s (stop_request s)"
| join: "stop_join s = Some t \<Longrightarrow> tstep s t"

inductive timer_reachable :: "timer_t \<Rightarrow> bool" where
  init: "timer_reachable static_timer"
| more: "timer_reachable s \<Longrightarrow> tstep s t \<Longrightarrow> timer_reachable t"

section \<open>Invariant\<close>

text \<open>
  \<open>behind s d\<close>: the time has advanced and the timer has not released \<open>d\<close> yet.
  \<open>awaited s d\<close>: the timer still has to see \<open>d\<close> done before it can advance the time.
\<close>

definition behind :: "timer_t \<Rightarrow> nat \<Rightarrow> bool" where
  "behind s d = (case tpc s of Release ds f e \<Rightarrow> d \<in> set ds | _ \<Rightarrow> False)"

definition awaited :: "timer_t \<Rightarrow> nat \<Rightarrow> bool" where
  "awaited s d = (case tpc s of Wait ds f e \<Rightarrow> d \<in> set ds | Tick f e \<Rightarrow> False
     | Release ds f e \<Rightarrow> d \<notin> set ds | _ \<Rightarrow> True)"

definition device_ok :: "timer_t \<Rightarrow> nat \<Rightarrow> bool" where
  "device_ok s d = (case dpc s d of
      Working \<Rightarrow> t_done (ids s d) = 0 \<and> t_fsh (ids s d) = 0 \<and> slots s d = ticks s \<and> awaited s d
    | In_Next_Slot \<Rightarrow> t_fsh (ids s d) = 0 \<and>
        (if t_done (ids s d) = 0 then Suc (slots s d) = ticks s \<and> awaited s d
         else t_done (ids s d) = 1 \<and> (if behind s d then Suc (slots s d) = ticks s else slots s d = ticks s))
    | Detached \<Rightarrow> t_fsh (ids s d) = 1)"

definition visiting :: "timer_t \<Rightarrow> bool" where
  "visiting s = (case tpc s of Wait ds f e \<Rightarrow> distinct ds \<and> set ds \<subseteq> set (dev_list s)
     | Release ds f e \<Rightarrow> distinct ds \<and> set ds \<subseteq> set (dev_list s) | _ \<Rightarrow> True)"

definition timer_inv :: "timer_t \<Rightarrow> bool" where
  "timer_inv s \<longleftrightarrow> tm s = word_of_nat (ticks s) \<and> visiting s \<and> distinct (dev_list s) \<and>
     (timer_started s = 0 \<longrightarrow> ticks s = 0 \<and> tpc s = Not_Started \<and> set (dev_list s) = {..<length (dev_list s)}) \<and>
     (\<forall>d \<in> set (dev_list s). device_ok s d)"

lemmas timer_defs = timer_inv_def device_ok_def awaited_def behind_def visiting_def

lemma inv_static: "timer_inv static_timer"
  by (simp add: timer_defs static_timer_def)

lemma device_ok_cong:
  assumes "ids t x = ids s x" "dpc t x = dpc s x" "slots t x = slots s x" "tpc t = tpc s" "ticks t = ticks s"
  shows "device_ok t x = device_ok s x"
proof -
  have "awaited t x = awaited s x" "behind t x = behind s x" using assms(4) by (simp_all add: awaited_def behind_def)
  with assms show ?thesis by (cases "dpc s x") (simp_all add: device_ok_def)
qed

lemma visiting_cong: "tpc t = tpc s \<Longrightarrow> dev_list t = dev_list s \<Longrightarrow> visiting t = visiting s"
  by (cases "tpc s") (simp_all add: visiting_def)

lemma inv_attach:
  assumes "timer_inv s" "attach_event s = (Some d, t)"
  shows "timer_inv t"
proof -
  have st: "timer_started s = 0" and t: "t = s\<lparr>dev_list := d # dev_list s, ids := (ids s)(d := \<lparr>t_done = 0, t_fsh = 0\<rparr>),
           dpc := (dpc s)(d := Working), slots := (slots s)(d := 0)\<rparr>" and d: "d = length (dev_list s)"
    using assms(2) by (auto simp: attach_event_def Let_def split: if_splits)
  with assms(1) have old: "ticks s = 0" "tpc s = Not_Started" "set (dev_list s) = {..<d}" "distinct (dev_list s)"
    "tm s = word_of_nat (ticks s)" "\<And>x. x \<in> set (dev_list s) \<Longrightarrow> device_ok s x" by (auto simp: timer_inv_def)
  have "device_ok t x" if "x \<in> set (dev_list t)" for x
  proof (cases "x = d")
    case True
    then show ?thesis using old by (simp add: t device_ok_def awaited_def)
  next
    case False
    with that have "x \<in> set (dev_list s)" by (simp add: t)
    moreover have "ids t x = ids s x" "dpc t x = dpc s x" "slots t x = slots s x" "tpc t = tpc s" "ticks t = ticks s"
      using False by (simp_all add: t)
    ultimately show ?thesis using device_ok_cong old(6) by blast
  qed
  moreover have "set (dev_list t) = {..<length (dev_list t)}" using old(3) d [symmetric] by (simp add: t lessThan_Suc)
  moreover have "distinct (dev_list t)" using old(3,4) by (simp add: t)
  moreover have "visiting t" "tm t = word_of_nat (ticks t)" "ticks t = 0" "tpc t = Not_Started"
    using old(1,2,5) by (simp_all add: t visiting_def)
  ultimately show ?thesis unfolding timer_inv_def by blast
qed

text \<open>A step of device \<open>d\<close> leaves the other devices as they are.\<close>

lemma inv_device:
  assumes "timer_inv s" "device_ok t d"
    and "\<And>x. x \<noteq> d \<Longrightarrow> ids t x = ids s x \<and> dpc t x = dpc s x \<and> slots t x = slots s x"
    and "dev_list t = dev_list s" "tpc t = tpc s" "ticks t = ticks s" "tm t = tm s" "timer_started t = timer_started s"
  shows "timer_inv t"
proof -
  have "device_ok t x" if "device_ok s x" for x
    using that assms device_ok_cong [of t x s] by (cases "x = d") auto
  then show ?thesis using assms visiting_cong [of t s] by (simp add: timer_inv_def)
qed

lemma awaited_not_behind: "awaited s d \<Longrightarrow> \<not> behind s d"
  by (auto simp: awaited_def behind_def split: timer_pc.splits)

lemma inv_slot_begin:
  assumes "timer_inv s" "d \<in> set (dev_list s)" "dpc s d = Working"
  shows "timer_inv (next_slot_begin s d)"
proof (rule inv_device [OF assms(1)])
  have "device_ok s d" using assms(1,2) by (simp add: timer_inv_def)
  then show "device_ok (next_slot_begin s d) d"
    using assms(3) awaited_not_behind [of s d] by (auto simp: device_ok_def next_slot_begin_def behind_def)
qed (simp_all add: next_slot_begin_def)

lemma inv_slot_end:
  assumes "timer_inv s" "d \<in> set (dev_list s)" "dpc s d = In_Next_Slot" "next_slot_end s d = Some t"
  shows "timer_inv t"
proof (rule inv_device [OF assms(1)])
  have "device_ok s d" using assms(1,2) by (simp add: timer_inv_def)
  then show "device_ok t d"
    using assms(3,4) by (auto simp: device_ok_def next_slot_end_def awaited_def split: if_splits)
qed (use assms(4) in \<open>auto simp: next_slot_end_def split: if_splits\<close>)

lemma inv_detach:
  assumes "timer_inv s"
  shows "timer_inv (detach_event s d)"
  by (rule inv_device [OF assms, where d = d]) (simp_all add: detach_event_def device_ok_def)

text \<open>A step of the timer that changes its position and the time at most.\<close>

lemma inv_position:
  assumes "timer_inv s" "t = s\<lparr>tm := word_of_nat n, ticks := n, tpc := p\<rparr>" "visiting t" "timer_started s \<noteq> 0"
    and "\<And>d. d \<in> set (dev_list s) \<Longrightarrow> device_ok s d \<Longrightarrow> device_ok t d"
  shows "timer_inv t"
  using assms by (auto simp: timer_inv_def)

lemma inv_move:
  assumes "timer_inv s" "visiting (s\<lparr>tpc := p\<rparr>)" "timer_started s \<noteq> 0"
    and "\<And>d. d \<in> set (dev_list s) \<Longrightarrow> device_ok s d \<Longrightarrow> device_ok (s\<lparr>tpc := p\<rparr>) d"
  shows "timer_inv (s\<lparr>tpc := p\<rparr>)"
  using assms by (auto simp: timer_inv_def visiting_def)

lemma inv_timer:
  assumes inv: "timer_inv s" and run: "timer_step s = Some t"
  shows "timer_inv t"
proof -
  have on: "timer_started s \<noteq> 0" using inv run by (auto simp: timer_inv_def timer_step_def)
  have dist: "distinct (dev_list s)" using inv by (simp add: timer_inv_def)
  note ok = device_ok_def awaited_def behind_def visiting_def
  show ?thesis
  proof (cases "tpc s")
    case Check
    with run have t: "t = s\<lparr>tpc := if timer_stop s = 0 then Wait (dev_list s) 0 0 else Exited\<rparr>"
      by (simp add: timer_step_def)
    show ?thesis unfolding t
      by (rule inv_move [OF inv _ on]) (auto simp: ok Check dist split: device_pc.splits)
  next
    case (Wait ds f e)
    show ?thesis
    proof (cases ds)
      case Nil
      with run Wait have t: "t = s\<lparr>tpc := Tick f e\<rparr>" by (simp add: timer_step_def)
      show ?thesis unfolding t
        by (rule inv_move [OF inv _ on]) (auto simp: ok Wait Nil split: device_pc.splits if_splits)
    next
      case (Cons d ds')
      with run Wait have seen: "\<not> (t_done (ids s d) = 0 \<and> t_fsh (ids s d) = 0)"
        and t: "t = s\<lparr>tpc := Wait ds' (if t_fsh (ids s d) \<noteq> 0 then f + 1 else f) (e + 1)\<rparr>"
        by (auto simp: timer_step_def split: if_splits)
      have "visiting s" using inv by (simp add: timer_inv_def)
      then show ?thesis unfolding t
        by (intro inv_move [OF inv _ on]) (use seen in \<open>auto simp: ok Wait Cons split: device_pc.splits if_splits\<close>)
    qed
  next
    case (Tick f e)
    with run have t: "t = s\<lparr>tm := tm s + 1, ticks := Suc (ticks s), tpc := Release (dev_list s) f e\<rparr>"
      by (simp add: timer_step_def)
    have "tm s = word_of_nat (ticks s)" using inv by (simp add: timer_inv_def)
    then have t': "t = s\<lparr>tm := word_of_nat (Suc (ticks s)), ticks := Suc (ticks s), tpc := Release (dev_list s) f e\<rparr>"
      by (simp add: t)
    show ?thesis
      by (rule inv_position [OF inv t' _ on]) (auto simp: t ok Tick dist split: device_pc.splits if_splits)
  next
    case (Release ds f e)
    show ?thesis
    proof (cases ds)
      case Nil
      with run Release have t: "t = s\<lparr>tpc := Decide f e\<rparr>" by (simp add: timer_step_def)
      show ?thesis unfolding t
        by (rule inv_move [OF inv _ on]) (auto simp: ok Release Nil split: device_pc.splits if_splits)
    next
      case (Cons d ds')
      with run Release have t: "t = s\<lparr>ids := (ids s)(d := (ids s d)\<lparr>t_done := 0\<rparr>), tpc := Release ds' f e\<rparr>"
        by (simp add: timer_step_def)
      have v: "d \<notin> set ds'" "distinct ds'" "set ds' \<subseteq> set (dev_list s)"
        using inv Release Cons by (simp_all add: timer_inv_def visiting_def)
      have "device_ok t x" if "device_ok s x" for x
        using that v by (cases "x = d") (auto simp: t ok Release Cons split: device_pc.splits if_splits)
      with inv v on show ?thesis by (auto simp: t timer_inv_def visiting_def)
    qed
  next
    case (Decide f e)
    with run have t: "t = s\<lparr>tpc := if f = e then Exited else Check\<rparr>" by (simp add: timer_step_def)
    show ?thesis unfolding t
      by (rule inv_move [OF inv _ on]) (auto simp: ok Decide split: device_pc.splits if_splits)
  qed (use run in \<open>auto simp: timer_step_def\<close>)
qed

lemma step_inv: "tstep s t \<Longrightarrow> timer_inv s \<Longrightarrow> timer_inv t"
proof (induction rule: tstep.induct)
  case (start s)
  then show ?case by (auto simp: timer_defs start_timer_def split: device_pc.splits)
next
  case (stop s)
  have "device_ok (stop_request s) d = device_ok s d" for d
    by (rule device_ok_cong) (simp_all add: stop_request_def)
  moreover have "visiting (stop_request s) = visiting s"
    by (rule visiting_cong) (simp_all add: stop_request_def)
  ultimately show ?case using stop by (simp add: timer_inv_def) (simp add: stop_request_def)
next
  case (join s t)
  then show ?case by (auto simp: timer_inv_def visiting_def stop_join_def split: if_splits)
qed (auto intro: inv_attach inv_slot_begin inv_slot_end inv_detach inv_timer)

lemma reachable_inv: "timer_reachable s \<Longrightarrow> timer_inv s"
  by (induction rule: timer_reachable.induct) (auto intro: inv_static step_inv)

text \<open>The time does not advance while a device is at work.\<close>

lemma time_stands:
  assumes "device_ok s d" "timer_step s = Some t" "current_time t \<noteq> current_time s"
  shows "dpc s d \<noteq> Working"
proof
  assume "dpc s d = Working"
  with assms(1) have "awaited s d" by (simp add: device_ok_def)
  moreover have "\<exists>f e. tpc s = Tick f e"
    using assms(2,3) by (auto simp: timer_step_def current_time_def split: timer_pc.splits list.splits if_splits)
  ultimately show False by (auto simp: awaited_def)
qed

section \<open>A round of the timer\<close>

primrec timer_run :: "nat \<Rightarrow> timer_t \<Rightarrow> timer_t option" where
  "timer_run 0 s = Some s"
| "timer_run (Suc n) s = (case timer_step s of None \<Rightarrow> None | Some t \<Rightarrow> timer_run n t)"

lemma timer_run_add: "timer_run (m + n) s = (case timer_run m s of None \<Rightarrow> None | Some t \<Rightarrow> timer_run n t)"
  by (induction m arbitrary: s) (auto split: option.splits)

definition finished :: "timer_t \<Rightarrow> nat list \<Rightarrow> int" where
  "finished s ds = int (length (filter (\<lambda>d. t_fsh (ids s d) \<noteq> 0) ds))"

lemma run_wait:
  assumes "\<forall>d \<in> set ds. t_done (ids s d) \<noteq> 0 \<or> t_fsh (ids s d) \<noteq> 0" "tpc s = Wait ds f e"
  shows "timer_run (Suc (length ds)) s = Some (s\<lparr>tpc := Tick (f + finished s ds) (e + int (length ds))\<rparr>)"
  using assms
proof (induction ds arbitrary: s f e)
  case (Cons d ds)
  let ?s = "s\<lparr>tpc := Wait ds (if t_fsh (ids s d) \<noteq> 0 then f + 1 else f) (e + 1)\<rparr>"
  have "timer_step s = Some ?s" using Cons.prems by (auto simp: timer_step_def)
  then have "timer_run (Suc (length (d # ds))) s = timer_run (Suc (length ds)) ?s"
    by (simp del: timer_run.simps(2) add: timer_run.simps(2) [of "Suc (length ds)"])
  also have "\<dots> = Some (?s\<lparr>tpc := Tick ((if t_fsh (ids s d) \<noteq> 0 then f + 1 else f) + finished ?s ds) (e + 1 + int (length ds))\<rparr>)"
    using Cons.prems(1) by (intro Cons.IH) auto
  finally show ?case by (simp add: finished_def add.assoc)
qed (simp add: timer_step_def finished_def)

definition cleared :: "timer_t \<Rightarrow> nat list \<Rightarrow> nat \<Rightarrow> timer_id_t" where
  "cleared s ds = (\<lambda>d. if d \<in> set ds then (ids s d)\<lparr>t_done := 0\<rparr> else ids s d)"

lemma run_release:
  assumes "tpc s = Release ds f e"
  shows "timer_run (Suc (length ds)) s = Some (s\<lparr>ids := cleared s ds, tpc := Decide f e\<rparr>)"
  using assms
proof (induction ds arbitrary: s)
  case Nil
  moreover have "cleared s [] = ids s" by (simp add: cleared_def)
  ultimately show ?case by (simp add: timer_step_def)
next
  case (Cons d ds)
  let ?s = "s\<lparr>ids := (ids s)(d := (ids s d)\<lparr>t_done := 0\<rparr>), tpc := Release ds f e\<rparr>"
  have "timer_step s = Some ?s" using Cons.prems by (simp add: timer_step_def)
  then have "timer_run (Suc (length (d # ds))) s = timer_run (Suc (length ds)) ?s"
    by (simp del: timer_run.simps(2) add: timer_run.simps(2) [of "Suc (length ds)"])
  also have "\<dots> = Some (?s\<lparr>ids := cleared ?s ds, tpc := Decide f e\<rparr>)" by (rule Cons.IH) simp
  also have "cleared ?s ds = cleared s (d # ds)" by (auto simp: cleared_def)
  finally show ?case by simp
qed

lemma length_filter_all: "length (filter P xs) = length xs \<longleftrightarrow> (\<forall>x \<in> set xs. P x)"
proof (induction xs)
  case (Cons x xs)
  have "length (filter P xs) \<noteq> Suc (length xs)" using length_filter_le [of P xs] by linarith
  with Cons show ?case by auto
qed simp

lemma finished_all: "finished s ds = int (length ds) \<longleftrightarrow> (\<forall>d \<in> set ds. t_fsh (ids s d) \<noteq> 0)"
  by (simp add: finished_def length_filter_all)

lemma timer_alive:
  assumes "timer_inv s" "tpc s \<noteq> Not_Started" "tpc s \<noteq> Exited"
  shows "(\<exists>t. timer_step s = Some t) \<or>
     (\<exists>d \<in> set (dev_list s). dpc s d = Working \<or> (dpc s d = In_Next_Slot \<and> (\<exists>t. next_slot_end s d = Some t)))"
proof (cases "timer_step s")
  case None
  then obtain d ds f e where w: "tpc s = Wait (d # ds) f e" "t_done (ids s d) = 0" "t_fsh (ids s d) = 0"
    using assms(2,3) by (auto simp: timer_step_def split: timer_pc.splits list.splits if_splits)
  note inv = assms(1)
  then have d: "d \<in> set (dev_list s)" using w(1) by (simp add: timer_inv_def visiting_def)
  with inv have "device_ok s d" by (simp add: timer_inv_def)
  with w have "dpc s d = Working \<or> dpc s d = In_Next_Slot" by (cases "dpc s d") (auto simp: device_ok_def)
  with d w(2) show ?thesis by (auto simp: next_slot_end_def)
qed auto

section \<open>Properties\<close>

text \<open>C18. The slots are a barrier. In every reachable state a device that is at work has
  returned from \<open>next_slot\<close> exactly as often as the time has advanced, so all devices at work
  are in the same slot; no attached device is more than one slot behind; and the time does
  not advance while any device is at work.\<close>

theorem slots_are_a_barrier:
  assumes "timer_reachable s" "d \<in> set (dev_list s)"
  shows "current_time s = word_of_nat (ticks s) \<and> (dpc s d = Working \<longrightarrow> slots s d = ticks s) \<and>
     (dpc s d = In_Next_Slot \<longrightarrow> slots s d = ticks s \<or> Suc (slots s d) = ticks s) \<and>
     (\<forall>t. timer_step s = Some t \<and> current_time t \<noteq> current_time s \<longrightarrow> dpc s d \<noteq> Working)"
proof -
  have inv: "timer_inv s" using assms(1) by (rule reachable_inv)
  then have ok: "device_ok s d" using assms(2) by (simp add: timer_inv_def)
  show ?thesis
    using inv ok time_stands [OF ok]
    by (auto simp: timer_inv_def device_ok_def current_time_def split: if_splits)
qed

text \<open>The timer and its devices never deadlock: while the timer thread has not ended, it
  can take a step, or some attached device can (it is at work, or it has been released and
  can return from \<open>next_slot\<close>).\<close>

theorem timer_never_deadlocks:
  assumes "timer_reachable s" "tpc s \<noteq> Not_Started" "tpc s \<noteq> Exited"
  shows "(\<exists>t. timer_step s = Some t) \<or>
     (\<exists>d \<in> set (dev_list s). dpc s d = Working \<or> (dpc s d = In_Next_Slot \<and> (\<exists>t. next_slot_end s d = Some t)))"
  using timer_alive [OF reachable_inv [OF assms(1)] assms(2,3)] .

text \<open>C29. When every device has reported or detached, the timer completes the slot on its own:
  after \<open>2 n + 5\<close> steps for \<open>n\<close> devices the time is one higher, every device is released, and
  the timer thread has ended exactly when all devices have detached.\<close>

theorem timer_completes_slot:
  assumes "tpc s = Check" "timer_stop s = 0"
    and "\<forall>d \<in> set (dev_list s). t_done (ids s d) \<noteq> 0 \<or> t_fsh (ids s d) \<noteq> 0"
  shows "\<exists>t. timer_run (2 * length (dev_list s) + 5) s = Some t \<and> current_time t = current_time s + 1 \<and>
     (\<forall>d \<in> set (dev_list s). t_fsh (ids t d) = t_fsh (ids s d) \<and> (\<exists>u. next_slot_end t d = Some u)) \<and>
     tpc t = (if \<forall>d \<in> set (dev_list s). t_fsh (ids s d) \<noteq> 0 then Exited else Check)"
proof -
  let ?n = "length (dev_list s)" and ?f = "finished s (dev_list s)"
  let ?s1 = "s\<lparr>tpc := Wait (dev_list s) 0 0\<rparr>"
  let ?s2 = "?s1\<lparr>tpc := Tick (0 + ?f) (0 + int ?n)\<rparr>"
  let ?s3 = "?s2\<lparr>tm := tm s + 1, ticks := Suc (ticks s), tpc := Release (dev_list s) ?f (int ?n)\<rparr>"
  let ?s4 = "?s3\<lparr>ids := cleared ?s3 (dev_list s), tpc := Decide ?f (int ?n)\<rparr>"
  let ?t = "?s4\<lparr>tpc := if ?f = int ?n then Exited else Check\<rparr>"
  have 1: "timer_run 1 s = Some ?s1" using assms(1,2) by (simp add: timer_step_def)
  have 2: "timer_run (Suc ?n) ?s1 = Some ?s2"
    using run_wait [of "dev_list s" ?s1 0 0] assms(3) by (simp add: finished_def del: timer_run.simps)
  have 3: "timer_run 1 ?s2 = Some ?s3" by (simp add: timer_step_def)
  have 4: "timer_run (Suc ?n) ?s3 = Some ?s4" by (rule run_release) simp
  have 5: "timer_run 1 ?s4 = Some ?t" by (simp add: timer_step_def)
  have "timer_run (1 + (Suc ?n + (1 + (Suc ?n + 1)))) s = Some ?t"
    by (simp only: timer_run_add 1 2 3 4 5 option.case)
  moreover have "1 + (Suc ?n + (1 + (Suc ?n + 1))) = 2 * ?n + 5" by simp
  ultimately have "timer_run (2 * ?n + 5) s = Some ?t" by (simp only:)
  then show ?thesis
    by (intro exI [of _ ?t]) (simp add: current_time_def next_slot_end_def cleared_def finished_all)
qed

text \<open>A run for the witnesses: two devices attach, the timer starts, both report.\<close>

definition demo_timer :: "device_pc \<Rightarrow> int \<Rightarrow> timer_pc \<Rightarrow> timer_t" where
  "demo_timer p d q = static_timer\<lparr>dev_list := [1, 0], ids := (\<lambda>i. \<lparr>t_done = if i < 2 then d else 0, t_fsh = 0\<rparr>),
     timer_started := 1, dpc := (\<lambda>i. if i < 2 then p else Working), tpc := q\<rparr>"

lemma demo_timer_reachable:
  "timer_reachable (demo_timer Working 0 Check)" "timer_reachable (demo_timer Working 0 (Wait [1, 0] 0 0))"
proof -
  let ?s1 = "static_timer\<lparr>dev_list := [0]\<rparr>" and ?s2 = "static_timer\<lparr>dev_list := [1, 0]\<rparr>"
  have same: "(\<lambda>_. x)(d := x) = (\<lambda>_. x)" for x :: 'a and d :: nat by auto
  have "attach_event static_timer = (Some 0, ?s1)" "attach_event ?s1 = (Some 1, ?s2)"
    by (simp_all add: attach_event_def static_timer_def same)
  then have "timer_reachable ?s2" by (meson timer_reachable.intros tstep.attach)
  moreover have "start_timer ?s2 = demo_timer Working 0 Check"
    by (simp add: start_timer_def demo_timer_def static_timer_def)
  moreover have "timer_started ?s2 = 0" by (simp add: static_timer_def)
  ultimately show r: "timer_reachable (demo_timer Working 0 Check)"
    by (metis timer_reachable.more tstep.start)
  have "timer_step (demo_timer Working 0 Check) = Some (demo_timer Working 0 (Wait [1, 0] 0 0))"
    by (simp add: timer_step_def demo_timer_def static_timer_def)
  with r show "timer_reachable (demo_timer Working 0 (Wait [1, 0] 0 0))"
    by (meson timer_reachable.more tstep.timer)
qed

theorem slots_are_a_barrier_witness:
  "slots (demo_timer Working 0 (Wait [1, 0] 0 0)) 1 = ticks (demo_timer Working 0 (Wait [1, 0] 0 0))"
  using slots_are_a_barrier [OF demo_timer_reachable(2), of 1] by (simp add: demo_timer_def)

theorem timer_never_deadlocks_witness:
  "\<exists>d \<in> set (dev_list (demo_timer Working 0 (Wait [1, 0] 0 0))). dpc (demo_timer Working 0 (Wait [1, 0] 0 0)) d = Working"
  using timer_never_deadlocks [OF demo_timer_reachable(2)]
  by (auto simp: demo_timer_def timer_step_def)

theorem timer_completes_slot_witness:
  "\<exists>t. timer_run 9 (demo_timer In_Next_Slot 1 Check) = Some t \<and> current_time t = 1"
  using timer_completes_slot [of "demo_timer In_Next_Slot 1 Check"]
  by (auto simp: demo_timer_def static_timer_def current_time_def)

end
