(* ===== verification/Loader.thy ===== *)
theory Loader
  imports Mem Stdio
begin

text \<open>
  The program loader of \<open>src/loader.c\<close>. The file system is a parameter: \<open>fs path\<close> is the text
  of the file that \<open>fopen(path, "r")\<close> opens, or \<open>None\<close>. What \<open>malloc\<close> leaves in a new block is
  a parameter too (\<open>ld_heap\<close>), because \<open>load\<close> does not write every field. The buffers
  \<open>opcode[10]\<close> and \<open>buf[200]\<close> live through the whole loop and start uninitialised.
\<close>

section \<open>Operations\<close>

record ld_heap =
  junk_pcb :: pcb_t
  junk_table :: page_table_t
  junk_text :: "nat \<Rightarrow> inst_t"

record ld_state =
  stream :: string
  opcode_buf :: "string option"
  line_buf :: "string option"

definition get_opcode :: "string \<Rightarrow> ins_opcode_t result" where
  "get_opcode opt =
     (let s = c_str opt in
      if s = ''calc'' then Inr CALC else if s = ''alloc'' then Inr ALLOC else if s = ''free'' then Inr FREE
      else if s = ''read'' then Inr READ else if s = ''write'' then Inr WRITE
      else if s = ''syscall'' then Inr SYSCALL else Inl Exit_Failure)"

text \<open>The arguments a \<open>scanf\<close> call stored, in order; the others stay as they were.\<close>

fun set_args :: "u32 list \<Rightarrow> inst_t \<Rightarrow> inst_t" where
  "set_args (a # b # c # d # _) x = x\<lparr>arg_0 := a, arg_1 := b, arg_2 := c, arg_3 := d\<rparr>"
| "set_args [a, b, c] x = x\<lparr>arg_0 := a, arg_1 := b, arg_2 := c\<rparr>"
| "set_args [a, b] x = x\<lparr>arg_0 := a, arg_1 := b\<rparr>"
| "set_args [a] x = x\<lparr>arg_0 := a\<rparr>"
| "set_args [] x = x"

text \<open>\<open>fscanf(file, "%s", opcode)\<close>: at the end of the file the buffer keeps its contents, and a
  word of ten characters or more overruns it.\<close>

definition read_opcode :: "ld_state \<Rightarrow> (string \<times> ld_state) result" where
  "read_opcode s =
     (case scan_word (stream s) of
        (None, r) \<Rightarrow> and_then (initialised (opcode_buf s)) (\<lambda>opt. Inr (opt, s\<lparr>stream := r\<rparr>))
      | (Some w, r) \<Rightarrow> if length w < 10 then Inr (w, s\<lparr>stream := r, opcode_buf := Some w\<rparr>) else Inl Out_Of_Bounds)"

definition read_args :: "nat \<Rightarrow> inst_t \<Rightarrow> ld_state \<Rightarrow> inst_t \<times> ld_state" where
  "read_args k x s = (let (vs, r) = scan_nums_ws conv_u k (stream s) in (set_args vs x, s\<lparr>stream := r\<rparr>))"

definition read_syscall :: "inst_t \<Rightarrow> ld_state \<Rightarrow> (inst_t \<times> ld_state) result" where
  "read_syscall x s =
     (let (l, r) = fgets 200 (stream s);
          s = s\<lparr>stream := r, line_buf := (case l of None \<Rightarrow> line_buf s | Some l \<Rightarrow> Some l)\<rparr>
      in and_then (initialised (line_buf s)) (\<lambda>buf.
           Inr (set_args (fst (scan_nums conv_d 4 (c_str buf))) x, s)))"

definition load_ins :: "inst_t \<Rightarrow> ld_state \<Rightarrow> (inst_t \<times> ld_state) result" where
  "load_ins x s =
     and_then (read_opcode s) (\<lambda>(opt, s).
     and_then (get_opcode opt) (\<lambda>op.
       let x = x\<lparr>opcode := op\<rparr> in
       (case op of
          CALC \<Rightarrow> Inr (x, s)
        | ALLOC \<Rightarrow> Inr (read_args 2 x s)
        | FREE \<Rightarrow> Inr (read_args 1 x s)
        | READ \<Rightarrow> Inr (read_args 3 x s)
        | WRITE \<Rightarrow> Inr (read_args 3 x s)
        | SYSCALL \<Rightarrow> read_syscall x s)))"

text \<open>The loop: \<open>n\<close> instructions are left, the next one is number \<open>i\<close>.\<close>

primrec load_text :: "(nat \<Rightarrow> inst_t) \<Rightarrow> nat \<Rightarrow> nat \<Rightarrow> ld_state \<Rightarrow> (inst_t list \<times> ld_state) result" where
  "load_text junk 0 i s = Inr ([], s)"
| "load_text junk (Suc n) i s =
     and_then (load_ins (junk i) s) (\<lambda>(x, s).
     and_then (load_text junk n (Suc i) s) (\<lambda>(xs, s). Inr (x # xs, s)))"

text \<open>\<open>snprintf\<close> gets the size \<open>2*sizeof(path)+1\<close>, where \<open>path\<close> is a pointer: 17 bytes with the
  terminating zero.\<close>

definition load :: "ld_heap \<Rightarrow> (string \<Rightarrow> string option) \<Rightarrow> u32 \<Rightarrow> string \<Rightarrow> (pcb_t \<times> u32) result" where
  "load hp fs avail_pid pth =
     (let b = (junk_pcb hp)\<lparr>pid := avail_pid, page_table := Some (junk_table hp), bp := PAGE_SIZE, pc := 0\<rparr> in
      case fs pth of
        None \<Rightarrow> Inl Exit_Failure
      | Some file \<Rightarrow>
          let b = b\<lparr>path := take 16 (c_str pth)\<rparr>;
              (vs, r) = scan_nums conv_u 2 file;
              b = (case vs of [] \<Rightarrow> b | v # _ \<Rightarrow> b\<lparr>priority := v\<rparr>)
          in and_then (initialised (if length vs = 2 then Some (vs ! 1) else None)) (\<lambda>sz.
             and_then (load_text (junk_text hp) (unat sz) 0 \<lparr>stream = r, opcode_buf = None, line_buf = None\<rparr>) (\<lambda>(xs, _).
               Inr (b\<lparr>code := \<lparr>code_text = xs, code_size = sz\<rparr>\<rparr>, avail_pid + 1))))"

section \<open>Programs as text\<close>

text \<open>The arguments an instruction of each kind has, and the format of the program files.\<close>

fun arity :: "ins_opcode_t \<Rightarrow> nat" where
  "arity CALC = 0" | "arity ALLOC = 2" | "arity FREE = 1" | "arity READ = 3" | "arity WRITE = 3" | "arity SYSCALL = 4"

definition args_of :: "inst_t \<Rightarrow> u32 list" where
  "args_of x = take (arity (opcode x)) [arg_0 x, arg_1 x, arg_2 x, arg_3 x]"

fun mnemonic :: "ins_opcode_t \<Rightarrow> string" where
  "mnemonic CALC = ''calc''" | "mnemonic ALLOC = ''alloc''" | "mnemonic FREE = ''free''"
| "mnemonic READ = ''read''" | "mnemonic WRITE = ''write''" | "mnemonic SYSCALL = ''syscall''"

definition print_args :: "u32 list \<Rightarrow> string" where
  "print_args ws = spaced (map unat ws)"

definition print_ins :: "inst_t \<Rightarrow> string" where
  "print_ins x = mnemonic (opcode x) @ print_args (args_of x) @ [newline]"

definition print_program :: "u32 \<Rightarrow> inst_t list \<Rightarrow> string" where
  "print_program pr xs = dec (unat pr) @ '' '' @ dec (length xs) @ [newline] @ concat (map print_ins xs)"

text \<open>Two instructions that agree in everything the file format has.\<close>

definition same_ins :: "inst_t \<Rightarrow> inst_t \<Rightarrow> bool" where
  "same_ins x y \<longleftrightarrow> opcode x = opcode y \<and> args_of x = args_of y"

section \<open>Lemmas\<close>

lemma scan_nums_print:
  "starts (\<lambda>c. \<not> is_digit c) r \<Longrightarrow>
     scan_nums conv (length ws) (print_args ws @ r) = (map (\<lambda>w. conv (False, unat w)) ws, r)"
  using scan_nums_spaced [of r conv "map unat ws"] by (simp add: print_args_def comp_def)

lemma mnemonic_facts:
  "\<forall>c \<in> set (mnemonic op). \<not> is_space c" "mnemonic op \<noteq> []" "length (mnemonic op) < 10"
  "get_opcode (mnemonic op) = Inr op"
  by (cases op; simp add: is_space_def get_opcode_def c_str_def)+

lemma mnemonic_start: "starts (\<lambda>c. \<not> is_space c) (concat (map print_ins xs))"
  by (cases xs; cases "opcode (hd xs)") (simp_all add: print_ins_def is_space_def)

lemma read_opcode_print:
  assumes "stream s = ws @ mnemonic op @ r" "\<forall>c \<in> set ws. is_space c" "starts is_space r"
  shows "read_opcode s = Inr (mnemonic op, s\<lparr>stream := r, opcode_buf := Some (mnemonic op)\<rparr>)"
  using scan_word_print [OF assms(2) mnemonic_facts(1,2) assms(3)] assms(1) mnemonic_facts(3)
  by (simp add: read_opcode_def)

lemma read_args_print:
  assumes "stream s = print_args vs @ newline # r" "starts (\<lambda>c. \<not> is_space c) r"
  shows "read_args (length vs) x s = (set_args vs x, s\<lparr>stream := r\<rparr>)"
proof -
  have "scan_nums conv_u (length vs) (print_args vs @ newline # r) = (map (\<lambda>w. conv_u (False, unat w)) vs, newline # r)"
    by (rule scan_nums_print) simp
  moreover have "skip_ws (newline # r) = r" using skip_ws_spaces [of "[newline]" r] assms(2) by simp
  ultimately show ?thesis using assms(1) by (simp add: read_args_def scan_nums_ws_def conv_word)
qed

lemma length_print_args: "length (print_args (ws :: u32 list)) \<le> 11 * length ws"
proof -
  have "unat w < 10 ^ 10" for w :: u32 using unsigned_less [of w, where ?'a = nat] by simp
  then show ?thesis using length_spaced [of "map unat ws" 9] by (simp add: print_args_def)
qed

lemma print_args_chars: "c \<in> set (print_args ws) \<Longrightarrow> c \<noteq> newline \<and> c \<noteq> CHR 0x00"
  using spaced_chars by (simp add: print_args_def)

lemma read_syscall_print:
  assumes "stream s = print_args [a, b, c, d] @ newline # r"
  shows "read_syscall x s = Inr (set_args [a, b, c, d] x,
     s\<lparr>stream := r, line_buf := Some (print_args [a, b, c, d] @ [newline])\<rparr>)"
proof -
  let ?l = "print_args [a, b, c, d]"
  have "newline \<notin> set ?l" using print_args_chars by blast
  moreover have "length ?l < 199" using length_print_args [of "[a, b, c, d]"] by simp
  ultimately have g: "fgets 200 (stream s) = (Some (?l @ [newline]), r)"
    using get_line_print [of ?l 199 r] assms by (simp add: fgets_def)
  have z: "c_str (?l @ [newline]) = ?l @ [newline]"
    using print_args_chars by (auto simp: c_str_def newline_def takeWhile_eq_all_conv)
  have "scan_nums conv_d 4 (?l @ [newline]) = (map (\<lambda>w. conv_d (False, unat w)) [a, b, c, d], [newline])"
    using scan_nums_print [of "[newline]" conv_d "[a, b, c, d]"] by (simp add: eval_nat_numeral)
  then show ?thesis using g z by (simp add: read_syscall_def conv_word)
qed

lemma same_ins_set_args:
  "same_ins (set_args (args_of y) (x\<lparr>opcode := opcode y\<rparr>)) y"
  by (cases "opcode y") (simp_all add: same_ins_def args_of_def)

text \<open>One printed instruction is read back, and what follows it stays on the stream.\<close>

lemma load_ins_print:
  assumes "stream s = ws @ print_ins y @ r" "\<forall>c \<in> set ws. is_space c" "starts (\<lambda>c. \<not> is_space c) r"
  shows "\<exists>x' s' ws'. load_ins x s = Inr (x', s') \<and> same_ins x' y \<and> stream s' = ws' @ r \<and> (\<forall>c \<in> set ws'. is_space c)"
proof -
  let ?as = "args_of y" and ?x = "x\<lparr>opcode := opcode y\<rparr>" and ?m = "mnemonic (opcode y)"
  let ?s = "s\<lparr>stream := print_args ?as @ newline # r, opcode_buf := Some ?m\<rparr>"
  have "starts is_space (print_args ?as @ newline # r)" by (cases ?as) (simp_all add: print_args_def)
  then have op: "read_opcode s = Inr (?m, ?s)"
    using read_opcode_print [OF _ assms(2)] assms(1) by (simp add: print_ins_def)
  have numbers: "read_args k ?x ?s = (set_args ?as ?x, ?s\<lparr>stream := r\<rparr>)" if "length ?as = k" for k
    using read_args_print [of ?s ?as r ?x] assms(3) that by simp
  have len: "length ?as = arity (opcode y)" by (cases "opcode y") (simp_all add: args_of_def)
  have "\<exists>s' ws'. load_ins x s = Inr (set_args ?as ?x, s') \<and> stream s' = ws' @ r \<and> (\<forall>c \<in> set ws'. is_space c)"
  proof (cases "opcode y")
    case CALC
    then have "load_ins x s = Inr (set_args ?as ?x, ?s)"
      using op mnemonic_facts(4) [of CALC] by (simp add: load_ins_def args_of_def)
    moreover have "stream ?s = [newline] @ r" using CALC by (simp add: args_of_def print_args_def)
    ultimately show ?thesis using space_chars(2) by fastforce
  next
    case SYSCALL
    then have as: "?as = [arg_0 y, arg_1 y, arg_2 y, arg_3 y]" by (simp add: args_of_def)
    have "load_ins x s = read_syscall ?x ?s"
      using op mnemonic_facts(4) [of SYSCALL] SYSCALL by (simp add: load_ins_def)
    with read_syscall_print [of ?s] as
    have "load_ins x s = Inr (set_args ?as ?x, ?s\<lparr>stream := r, line_buf := Some (print_args ?as @ [newline])\<rparr>)" by simp
    then show ?thesis by (intro exI [of _ "?s\<lparr>stream := r, line_buf := Some (print_args ?as @ [newline])\<rparr>"] exI [of _ "[]"]) simp
  qed (use op mnemonic_facts(4) [of "opcode y"] numbers [OF len] in
      \<open>(intro exI [of _ "?s\<lparr>stream := r\<rparr>"] exI [of _ "[]"], simp add: load_ins_def)+\<close>)
  then show ?thesis using same_ins_set_args by blast
qed

lemma load_text_print:
  assumes "stream s = ws @ concat (map print_ins ys)" "\<forall>c \<in> set ws. is_space c"
  shows "\<exists>xs s'. load_text junk (length ys) i s = Inr (xs, s') \<and> list_all2 same_ins xs ys"
  using assms
proof (induction ys arbitrary: i s ws)
  case (Cons y ys)
  have "stream s = ws @ print_ins y @ concat (map print_ins ys)" using Cons.prems(1) by simp
  from load_ins_print [OF this Cons.prems(2) mnemonic_start, of "junk i"]
  obtain x s' ws' where x: "load_ins (junk i) s = Inr (x, s')" "same_ins x y"
    "stream s' = ws' @ concat (map print_ins ys)" "\<forall>c \<in> set ws'. is_space c" by blast
  from Cons.IH [OF x(3,4), of "Suc i"] obtain xs s'' where
    "load_text junk (length ys) (Suc i) s' = Inr (xs, s'')" "list_all2 same_ins xs ys" by blast
  with x(1,2) show ?case by simp
qed simp

lemma length_load_text: "load_text junk n i s = Inr (xs, s') \<Longrightarrow> length xs = n"
  by (induction n arbitrary: i s xs) (auto simp: result_simps)

lemma load_ins_at_end:
  assumes "opcode_buf s = Some (mnemonic op)" "op \<noteq> SYSCALL" "stream s = []"
  shows "load_ins x s = Inr (x\<lparr>opcode := op\<rparr>, s)"
proof -
  have "scan_word [] = (None, [])" "scan_nums_ws conv_u k [] = ([], [])" for k
    by (cases k; simp add: scan_word_def skip_ws_def scan_nums_ws_def scan_num_def scan_sign_def)+
  then have "read_opcode s = Inr (mnemonic op, s)" "read_args k x s = (x, s)" for k x
    using assms by (simp_all add: read_opcode_def read_args_def)
  then show ?thesis using mnemonic_facts(4) [of op] assms(2) by (cases op) (simp_all add: load_ins_def)
qed

lemma load_print:
  assumes "fs pth = Some (print_program pr xs)" "length xs < 2 ^ 32"
  shows "\<exists>b. load hp fs n pth = Inr (b, n + 1) \<and> pid b = n \<and> pc b = 0 \<and> priority b = pr \<and>
     path b = take 16 (c_str pth) \<and> code_size (code b) = word_of_nat (length xs) \<and>
     list_all2 same_ins (code_text (code b)) xs"
proof -
  let ?n = "word_of_nat (length xs) :: u32"
  let ?r = "newline # concat (map print_ins xs)"
  have n: "unat ?n = length xs" using assms(2) by (simp add: unat_of_nat take_bit_nat_eq_self)
  have "starts (\<lambda>c. \<not> is_digit c) (print_args [?n] @ ?r)" by (simp add: print_args_def)
  then have "scan_num ([] @ dec (unat pr) @ (print_args [?n] @ ?r)) = (Some (False, unat pr), print_args [?n] @ ?r)"
    by (intro scan_num_dec) (auto simp: starts_def)
  moreover have "scan_nums conv_u 1 (print_args [?n] @ ?r) = ([?n], ?r)"
    using scan_nums_print [of ?r conv_u "[?n]"] by (simp add: conv_word del: scan_nums.simps)
  moreover have "print_program pr xs = [] @ dec (unat pr) @ (print_args [?n] @ ?r)"
    using n by (simp add: print_program_def print_args_def)
  ultimately have "scan_nums conv_u 2 (print_program pr xs) = ([pr, ?n], ?r)"
    by (simp add: numeral_2_eq_2 conv_word)
  moreover obtain ys s' where
    "load_text (junk_text hp) (length xs) 0 \<lparr>stream = ?r, opcode_buf = None, line_buf = None\<rparr> = Inr (ys, s')"
    "list_all2 same_ins ys xs"
    using load_text_print [of "\<lparr>stream = ?r, opcode_buf = None, line_buf = None\<rparr>" "[newline]" xs "junk_text hp" 0] by auto
  ultimately show ?thesis using assms(1) n by (simp add: load_def)
qed

section \<open>Properties\<close>

definition demo_heap :: ld_heap where
  "demo_heap = \<lparr>junk_pcb = demo_pcb 0 0, junk_table = \<lparr>pt_table = [], pt_size = 0\<rparr>,
     junk_text = (\<lambda>_. \<lparr>opcode = CALC, arg_0 = 0, arg_1 = 0, arg_2 = 0, arg_3 = 0\<rparr>)\<rparr>"

definition demo_program :: "inst_t list" where
  "demo_program = [\<lparr>opcode = ALLOC, arg_0 = 300, arg_1 = 4, arg_2 = 0, arg_3 = 0\<rparr>,
     \<lparr>opcode = CALC, arg_0 = 0, arg_1 = 0, arg_2 = 0, arg_3 = 0\<rparr>,
     \<lparr>opcode = SYSCALL, arg_0 = 101, arg_1 = 9, arg_2 = 0, arg_3 = 0\<rparr>]"

text \<open>C21. A program written in the file format is loaded as it was written: for a file with the
  priority, the number of instructions and the instructions one per line, \<open>load\<close> returns a
  PCB with this priority, this code (opcodes and every argument the opcode has), the next
  process id, the program counter at 0, and the path.\<close>

theorem load_print_round_trip:
  assumes "fs pth = Some (print_program pr xs)" "length xs < 2 ^ 32"
  shows "\<exists>b. load hp fs n pth = Inr (b, n + 1) \<and> pid b = n \<and> pc b = 0 \<and> priority b = pr \<and>
     path b = take 16 (c_str pth) \<and> code_size (code b) = word_of_nat (length xs) \<and>
     list_all2 same_ins (code_text (code b)) xs"
  using assms by (rule load_print)

theorem load_print_round_trip_witness:
  "\<exists>b. load demo_heap [''input/proc/p0s'' \<mapsto> print_program 1 demo_program] 7 ''input/proc/p0s'' = Inr (b, 8) \<and>
     list_all2 same_ins (code_text (code b)) demo_program"
  using load_print_round_trip [of "[''input/proc/p0s'' \<mapsto> print_program 1 demo_program]" "''input/proc/p0s''"
      1 demo_program demo_heap 7]
  by (auto simp: demo_program_def)

lemma load_fields:
  "load hp fs n pth = Inr (b, n') \<Longrightarrow> length (code_text (code b)) = unat (code_size (code b)) \<and> pc b = 0"
  by (auto simp: load_def result_simps Let_def length_load_text split: option.splits prod.splits list.splits)

text \<open>C30. Whenever \<open>load\<close> returns, the code segment has as many instructions as its size field
  says and the program counter points to the first one, so a CPU that stops at the size
  never fetches outside the text.\<close>

theorem load_code_well_formed:
  assumes "load hp fs n pth = Inr (b, n')"
  shows "length (code_text (code b)) = unat (code_size (code b)) \<and> pc b = 0 \<and> n' = n + 1 \<and> length (path b) \<le> 16"
  using assms by (auto simp: load_def result_simps Let_def length_load_text split: option.splits prod.splits list.splits)

theorem load_code_well_formed_witness:
  "\<exists>b. load demo_heap [''p'' \<mapsto> ''1 1 calc''] 1 ''p'' = Inr (b, 2) \<and> length (code_text (code b)) = unat (code_size (code b))"
proof -
  have two: "scan_nums conv_u 2 s = scan_nums conv_u (Suc (Suc 0)) s" for s by (simp add: numeral_2_eq_2)
  have "\<exists>b. load demo_heap [''p'' \<mapsto> ''1 1 calc''] 1 ''p'' = Inr (b, 2)"
    by (simp add: load_def c_str_def two scan_num_def scan_sign_def skip_ws_def is_space_def is_digit_def
        num_of_def conv_u_def strtoul_def demo_heap_def demo_pcb_def load_ins_def read_opcode_def scan_word_def
        get_opcode_def)
  then show ?thesis using load_code_well_formed by blast
qed

text \<open>A program file that ends before the announced number of instructions is accepted: the
  opcode buffer still holds the last word, so every missing instruction repeats the last
  opcode, with the arguments \<open>malloc\<close> left in the text.\<close>

theorem truncated_program_repeats_last:
  assumes "opcode_buf s = Some (mnemonic op)" "op \<noteq> SYSCALL" "stream s = []"
  shows "load_text junk n i s = Inr (map (\<lambda>k. (junk k)\<lparr>opcode := op\<rparr>) [i ..< i + n], s)"
proof (induction n arbitrary: i)
  case (Suc n)
  have "[i ..< i + Suc n] = i # [Suc i ..< Suc i + n]" by (simp add: upt_rec)
  with Suc load_ins_at_end [OF assms] show ?case by simp
qed simp

theorem truncated_program_repeats_last_witness:
  "load_text (junk_text demo_heap) 3 1 \<lparr>stream = [], opcode_buf = Some (mnemonic FREE), line_buf = None\<rparr> =
     Inr (replicate 3 \<lparr>opcode = FREE, arg_0 = 0, arg_1 = 0, arg_2 = 0, arg_3 = 0\<rparr>,
       \<lparr>stream = [], opcode_buf = Some (mnemonic FREE), line_buf = None\<rparr>)"
  using truncated_program_repeats_last [of "\<lparr>stream = [], opcode_buf = Some (mnemonic FREE), line_buf = None\<rparr>" FREE
      "junk_text demo_heap" 3 1]
  by (simp add: demo_heap_def eval_nat_numeral)

end
