(* ===== verification/Config.thy ===== *)
theory Config
  imports Stdio
begin

text \<open>
  The configuration reader of \<open>src/os.c\<close>, with the globals it fills. The file system is a
  parameter, as in the loader. \<open>start_time\<close> and \<open>prio\<close> come from \<open>malloc\<close>, so they are
  uninitialised (\<open>None\<close>) until a line of the file is parsed into them; \<open>memramsz\<close> and
  \<open>memswpsz\<close> are static and start as 0. Debug output is left out.
\<close>

section \<open>Operations\<close>

definition PAGING_MAX_MMSWP :: nat where "PAGING_MAX_MMSWP = 4"

record ld_entry =
  ld_path :: string
  start_time :: "ulong option"
  ld_prio :: "ulong option"

record config_t =
  time_slot :: int
  num_cpus :: int
  num_processes :: int
  memramsz :: int
  memswpsz :: "int list"
  ld_processes :: "ld_entry list"

text \<open>A buffer is scanned for letters to tell a line of memory sizes from a process line.\<close>

definition is_mem_config :: "string \<Rightarrow> bool" where
  "is_mem_config buffer \<longleftrightarrow> \<not> list_ex is_alpha (c_str buffer)"

text \<open>One \<open>fscanf(file, "%d", ...)\<close> per size: a size that cannot be read stays 0.\<close>

primrec read_sizes :: "nat \<Rightarrow> string \<Rightarrow> int list \<times> string" where
  "read_sizes 0 inp = ([], inp)"
| "read_sizes (Suc k) inp =
     (let (v, r) = scan_num inp; (vs, r) = read_sizes k r
      in ((case v of None \<Rightarrow> 0 | Some v \<Rightarrow> sint (conv_d v)) # vs, r))"

text \<open>The second line is read twice: a line without letters has the memory sizes, any other
  line stays in the stream as the first process line.\<close>

definition read_memory :: "string \<Rightarrow> string \<Rightarrow> int list \<times> string" where
  "read_memory buffer inp =
     (if is_mem_config buffer
      then let (vs, r) = read_sizes (Suc PAGING_MAX_MMSWP) inp in (vs, tl r)
      else (replicate (Suc PAGING_MAX_MMSWP) 0, inp))"

text \<open>\<open>sscanf(buffer, "%lu %s %lu", ...)\<close> into \<open>start_time\<close>, \<open>proc[100]\<close> and \<open>prio\<close>. The path has
  100 bytes and starts as \<open>input/proc/\<close>; the name is appended when all three were read.\<close>

definition read_entry :: "string \<Rightarrow> ld_entry result" where
  "read_entry buffer =
     (let e = \<lparr>ld_path = ''input/proc/'', start_time = None, ld_prio = None\<rparr> in
      case scan_num (c_str buffer) of
        (None, _) \<Rightarrow> Inr e
      | (Some v, r) \<Rightarrow>
          let e = e\<lparr>start_time := Some (strtoul v)\<rparr> in
          case scan_word r of
            (None, _) \<Rightarrow> Inr e
          | (Some proc, r) \<Rightarrow>
              and_then (guard (length proc < 100) Out_Of_Bounds) (\<lambda>_.
                case scan_num r of
                  (None, _) \<Rightarrow> Inr e
                | (Some v, _) \<Rightarrow>
                    let e = e\<lparr>ld_prio := Some (strtoul v)\<rparr> in
                    and_then (guard (length (ld_path e @ proc) < 100) Out_Of_Bounds) (\<lambda>_.
                      Inr (e\<lparr>ld_path := ld_path e @ proc\<rparr>))))"

primrec read_entries :: "nat \<Rightarrow> string \<Rightarrow> ld_entry list result" where
  "read_entries 0 inp = Inr []"
| "read_entries (Suc n) inp =
     (case fgets 256 inp of
        (None, _) \<Rightarrow> Inl Exit_Failure
      | (Some buffer, r) \<Rightarrow>
          and_then (read_entry buffer) (\<lambda>e. and_then (read_entries n r) (\<lambda>es. Inr (e # es))))"

definition read_config :: "(string \<Rightarrow> string option) \<Rightarrow> string \<Rightarrow> config_t result" where
  "read_config fs pth =
     (case fs pth of
        None \<Rightarrow> Inl Exit_Failure
      | Some inp \<Rightarrow>
          (case fgets 256 inp of
             (None, _) \<Rightarrow> Inl Exit_Failure
           | (Some buffer, inp) \<Rightarrow>
               (case fst (scan_nums (\<lambda>v. sint (conv_d v)) 3 (c_str buffer)) of
                  [ts, cpus, n] \<Rightarrow>
                    (case fgets 256 inp of
                       (None, _) \<Rightarrow> Inl Exit_Failure
                     | (Some buffer, _) \<Rightarrow>
                         let (sizes, inp) = read_memory buffer inp in
                         and_then (read_entries (nat n) inp) (\<lambda>es.
                           Inr \<lparr>time_slot = ts, num_cpus = cpus, num_processes = n, memramsz = hd sizes,
                                memswpsz = tl sizes, ld_processes = es\<rparr>))
                | _ \<Rightarrow> Inl Exit_Failure)))"

section \<open>Configurations as text\<close>

text \<open>A process as the user writes it: start time, program name, priority.\<close>

type_synonym job = "ulong \<times> string \<times> ulong"

definition job_entry :: "job \<Rightarrow> ld_entry" where
  "job_entry j = (case j of (t, name, pr) \<Rightarrow> \<lparr>ld_path = ''input/proc/'' @ name, start_time = Some t, ld_prio = Some pr\<rparr>)"

definition job_name_ok :: "string \<Rightarrow> bool" where
  "job_name_ok name \<longleftrightarrow> name \<noteq> [] \<and> length name < 89 \<and> (\<forall>c \<in> set name. \<not> is_space c \<and> c \<noteq> CHR 0x00)"

definition print_job :: "job \<Rightarrow> string" where
  "print_job j = (case j of (t, name, pr) \<Rightarrow> dec (unat t) @ '' '' @ name @ spaced [unat pr])"

definition print_row :: "nat list \<Rightarrow> string" where
  "print_row ns = tl (spaced ns)"

definition print_lines :: "string list \<Rightarrow> string" where
  "print_lines ls = concat (map (\<lambda>l. l @ [newline]) ls)"

section \<open>Lemmas\<close>

lemma c_str_id: "CHR 0x00 \<notin> set s \<Longrightarrow> c_str s = s"
  by (auto simp: c_str_def takeWhile_eq_all_conv)

lemma print_row_Cons [simp]: "print_row (n # ns) = dec n @ spaced ns"
  by (simp add: print_row_def)

lemma print_row_chars: "c \<in> set (print_row ns) \<Longrightarrow> c \<noteq> newline \<and> c \<noteq> CHR 0x00"
  using spaced_chars [of c ns] by (cases ns) (auto simp: print_row_def)

lemma not_alpha_spaced: "c \<in> set (spaced ns) \<Longrightarrow> \<not> is_alpha c"
proof -
  assume "c \<in> set (spaced ns)"
  then have "c = CHR '' '' \<or> is_digit c" using dec_digits by (induction ns) auto
  then show ?thesis by (auto simp: is_digit_def is_alpha_def)
qed

lemma length_print_row: "\<forall>n \<in> set ns. n < 10 ^ Suc k \<Longrightarrow> length (print_row ns) \<le> (k + 2) * length ns"
  using length_spaced [of ns k] by (simp add: print_row_def)

lemma scan_nums_row:
  assumes "starts (\<lambda>c. \<not> is_digit c) r"
  shows "scan_nums conv (length ns) (print_row ns @ r) = (map (\<lambda>n. conv (False, n)) ns, r)"
proof (cases ns)
  case (Cons n ms)
  have "starts (\<lambda>c. \<not> is_digit c) (spaced ms @ r)" using assms by (cases ms) simp_all
  then have "scan_num ([] @ dec n @ (spaced ms @ r)) = (Some (False, n), spaced ms @ r)"
    by (intro scan_num_dec) (auto simp: starts_def)
  then show ?thesis using Cons scan_nums_spaced [OF assms, of conv ms] by simp
qed (simp add: print_row_def)

lemma conv_d_nat: "n < 2 ^ 31 \<Longrightarrow> sint (conv_d (False, n)) = int n"
proof -
  assume "n < 2 ^ 31"
  then have "int n < 2 ^ 31" by simp
  moreover from this have "strtol (False, n) = int n" by (simp add: strtol_def)
  moreover have "sint (word_of_int (int n) :: u32) = int n"
    using \<open>int n < 2 ^ 31\<close> by (simp only: signed_of_int) (simp add: signed_take_bit_int_eq_self)
  ultimately show ?thesis by (simp only: conv_d_def)
qed

lemma strtoul_unat: "strtoul (False, unat w) = w"
  using unsigned_less [of w, where ?'a = nat] by (simp add: strtoul_def)

lemma read_sizes_spaced:
  assumes "starts (\<lambda>c. \<not> is_digit c) r" "\<forall>n \<in> set ns. n < 2 ^ 31"
  shows "read_sizes (length ns) (spaced ns @ r) = (map int ns, r)"
  using assms(2)
proof (induction ns)
  case (Cons n ns)
  have "starts (\<lambda>c. \<not> is_digit c) (spaced ns @ r)" using assms(1) by (cases ns) simp_all
  then have "scan_num ('' '' @ dec n @ (spaced ns @ r)) = (Some (False, n), spaced ns @ r)"
    by (intro scan_num_dec) (auto simp: starts_def)
  with Cons show ?case by (simp add: conv_d_nat)
qed simp

lemma read_sizes_row:
  assumes "starts (\<lambda>c. \<not> is_digit c) r" "\<forall>n \<in> set ns. n < 2 ^ 31"
  shows "read_sizes (length ns) (print_row ns @ r) = (map int ns, r)"
proof (cases ns)
  case (Cons n ms)
  have "starts (\<lambda>c. \<not> is_digit c) (spaced ms @ r)" using assms(1) by (cases ms) simp_all
  then have "scan_num ([] @ dec n @ (spaced ms @ r)) = (Some (False, n), spaced ms @ r)"
    by (intro scan_num_dec) (auto simp: starts_def)
  then show ?thesis using Cons read_sizes_spaced [OF assms(1), of ms] assms(2) by (simp add: conv_d_nat)
qed (simp add: print_row_def)

lemma job_line:
  assumes "job_name_ok name"
  shows "fgets 256 (print_job (t, name, pr) @ newline # r) = (Some (print_job (t, name, pr) @ [newline]), r)"
    and "read_entry (print_job (t, name, pr) @ [newline]) = Inr (job_entry (t, name, pr))"
proof -
  let ?l = "print_job (t, name, pr)"
  have n: "\<forall>c \<in> set name. \<not> is_space c" "name \<noteq> []" "length name < 89" "\<forall>c \<in> set name. c \<noteq> CHR 0x00"
    using assms by (auto simp: job_name_ok_def)
  have small: "unat w < 10 ^ Suc 19" for w :: ulong using unsigned_less [of w, where ?'a = nat] by simp
  have "length (dec (unat t)) \<le> 20" "length (spaced [unat pr]) \<le> 21"
    using length_dec [OF small] length_spaced [of "[unat pr]" 19] small [of pr] by simp_all
  then have len: "length ?l + 1 < 256" using n(3) by (simp add: print_job_def)
  have chars: "c \<noteq> newline \<and> c \<noteq> CHR 0x00" if "c \<in> set ?l" for c
    using that n(1,4) spaced_chars [of c "[unat t]"] spaced_chars [of c "[unat pr]"] space_chars(2)
    by (auto simp: print_job_def newline_def)
  show "fgets 256 (?l @ newline # r) = (Some (?l @ [newline]), r)"
    using chars len by (intro fgets_line) auto
  let ?r = "spaced [unat pr] @ [newline]"
  have z: "c_str (?l @ [newline]) = ?l @ [newline]" using chars by (intro c_str_id) (auto simp: newline_def)
  have "scan_num ([] @ dec (unat t) @ ('' '' @ name @ ?r)) = (Some (False, unat t), '' '' @ name @ ?r)"
    by (intro scan_num_dec) auto
  moreover have "scan_word ('' '' @ name @ ?r) = (Some name, ?r)"
    using n by (intro scan_word_print) auto
  moreover have "scan_num ('' '' @ dec (unat pr) @ [newline]) = (Some (False, unat pr), [newline])"
    by (intro scan_num_dec) auto
  ultimately show "read_entry (?l @ [newline]) = Inr (job_entry (t, name, pr))"
    using z n(3) by (simp add: read_entry_def print_job_def job_entry_def strtoul_unat)
qed

lemma read_entries_print:
  assumes "\<forall>(t, name, pr) \<in> set js. job_name_ok name"
  shows "read_entries (length js) (print_lines (map print_job js)) = Inr (map job_entry js)"
  using assms
proof (induction js)
  case (Cons j js)
  obtain t name pr where j: "j = (t, name, pr)" by (cases j) auto
  have "print_lines (map print_job (j # js)) = print_job j @ newline # print_lines (map print_job js)"
    by (simp add: print_lines_def)
  with Cons j job_line [of name t pr] show ?case by simp
qed simp

lemma read_config_print:
  assumes "fs pth = Some (print_lines (print_row [ts, cpus, length js] # print_row (ram # swps) # map print_job js))"
    and "ts < 2 ^ 31" "cpus < 2 ^ 31" "length js < 2 ^ 31" "ram < 2 ^ 31" "\<forall>n \<in> set swps. n < 2 ^ 31"
    and "length swps = PAGING_MAX_MMSWP" "\<forall>(t, name, pr) \<in> set js. job_name_ok name"
  shows "read_config fs pth = Inr \<lparr>time_slot = int ts, num_cpus = int cpus, num_processes = int (length js),
     memramsz = int ram, memswpsz = map int swps, ld_processes = map job_entry js\<rparr>"
proof -
  let ?a = "print_row [ts, cpus, length js]" and ?b = "print_row (ram # swps)" and ?js = "print_lines (map print_job js)"
  have sz: "\<forall>n \<in> set (ram # swps). n < 2 ^ 31" using assms(5,6) by simp
  have small: "n < 10 ^ Suc 9" if "n < 2 ^ 31" for n :: nat using that by simp
  have "\<forall>n \<in> set (ram # swps). n < 10 ^ Suc 9" using sz small by blast
  then have "length ?a \<le> 33" "length ?b \<le> 55"
    using length_print_row [of "[ts, cpus, length js]" 9] length_print_row [of "ram # swps" 9] assms(2-4,7)
    by (simp_all add: PAGING_MAX_MMSWP_def)
  then have line: "fgets 256 (?a @ newline # ?b @ newline # ?js) = (Some (?a @ [newline]), ?b @ newline # ?js)"
    "fgets 256 (?b @ newline # ?js) = (Some (?b @ [newline]), ?js)"
    using print_row_chars by (intro fgets_line; fastforce)+
  have z: "c_str (l @ [newline]) = l @ [newline]" if "l = ?a \<or> l = ?b" for l
    using that print_row_chars [of "CHR 0x00"] by (intro c_str_id) (auto simp: newline_def simp del: print_row_Cons)
  have three: "Suc (Suc (Suc 0)) = 3" by simp
  have "fst (scan_nums (\<lambda>v. sint (conv_d v)) 3 (?a @ [newline])) = [int ts, int cpus, int (length js)]"
    using scan_nums_row [of "[newline]" "\<lambda>v. sint (conv_d v)" "[ts, cpus, length js]"] assms(2-4)
    by (simp add: conv_d_nat three del: scan_nums.simps print_row_Cons)
  moreover have "\<not> is_alpha c" if "c \<in> set (?b @ [newline])" for c
    using that not_alpha_spaced [of c "ram # swps"] by (auto simp: newline_def is_alpha_def)
  then have "is_mem_config (?b @ [newline])" using z by (simp only: is_mem_config_def list_ex_iff simp_thms) blast
  moreover have "read_sizes (Suc PAGING_MAX_MMSWP) (?b @ newline # ?js) = (map int (ram # swps), newline # ?js)"
    using read_sizes_row [of "newline # ?js" "ram # swps"] sz assms(7) by simp
  moreover have "print_lines (?a # ?b # map print_job js) = ?a @ newline # ?b @ newline # ?js"
    by (simp add: print_lines_def)
  ultimately show ?thesis
    using assms(1) line z read_entries_print [OF assms(8)]
    by (simp add: read_config_def read_memory_def del: print_row_Cons read_sizes.simps)
qed

lemma length_read_sizes: "length (fst (read_sizes k inp)) = k"
  by (induction k arbitrary: inp) (simp_all add: case_prod_unfold Let_def)

lemma length_read_memory: "length (fst (read_memory buffer inp)) = Suc PAGING_MAX_MMSWP"
  by (simp add: read_memory_def case_prod_unfold Let_def length_read_sizes del: read_sizes.simps)

lemma read_entry_path:
  "read_entry buffer = Inr e \<Longrightarrow> \<exists>name. ld_path e = ''input/proc/'' @ name \<and> length (ld_path e) < 100 \<and>
     (ld_prio e = None \<longrightarrow> name = [])"
  by (auto simp: read_entry_def Let_def result_simps split: prod.splits option.splits)

lemma read_entries_all:
  "read_entries n inp = Inr es \<Longrightarrow> length es = n \<and> (\<forall>e \<in> set es. \<exists>buffer. read_entry buffer = Inr e)"
  by (induction n arbitrary: inp es) (auto simp: result_simps split: prod.splits option.splits)

lemma read_config_fields:
  assumes "read_config fs pth = Inr c"
  shows "length (ld_processes c) = nat (num_processes c) \<and> length (memswpsz c) = PAGING_MAX_MMSWP \<and>
     (\<forall>e \<in> set (ld_processes c). \<exists>name. ld_path e = ''input/proc/'' @ name \<and> length (ld_path e) < 100 \<and>
        (ld_prio e = None \<longrightarrow> name = []))"
proof -
  obtain n buffer inp sz rest es where es: "read_entries (nat n) rest = Inr es"
    and sz: "read_memory buffer inp = (sz, rest)"
    and c: "num_processes c = n" "memswpsz c = tl sz" "ld_processes c = es"
    using assms by (auto simp: read_config_def result_simps split: option.splits prod.splits list.splits)
  have "length sz = Suc PAGING_MAX_MMSWP" using length_read_memory [of buffer inp] sz by simp
  then show ?thesis using c read_entries_all [OF es] read_entry_path by fastforce
qed

text \<open>A configuration with two CPUs and one process, for the witnesses.\<close>

definition demo_jobs :: "job list" where
  "demo_jobs = [(2, ''p1s'', 15)]"

definition demo_files :: "string \<Rightarrow> string option" where
  "demo_files = [''input/sched'' \<mapsto>
     print_lines (print_row [6, 2, length demo_jobs] # print_row [1048576, 16777216, 0, 0, 0] # map print_job demo_jobs)]"

definition demo_config :: config_t where
  "demo_config = \<lparr>time_slot = 6, num_cpus = 2, num_processes = 1, memramsz = 1048576,
     memswpsz = [16777216, 0, 0, 0],
     ld_processes = [\<lparr>ld_path = ''input/proc/p1s'', start_time = Some 2, ld_prio = Some 15\<rparr>]\<rparr>"

lemma demo_files_text: "demo_files ''input/sched'' = Some (print_lines
    (print_row [6, 2, length demo_jobs] # print_row [1048576, 16777216, 0, 0, 0] # map print_job demo_jobs))"
  by (simp add: demo_files_def)

lemma demo_job_ok: "\<forall>(t, name, pr) \<in> set demo_jobs. job_name_ok name"
  by (simp add: demo_jobs_def job_name_ok_def is_space_def)

lemma demo_config_read: "read_config demo_files ''input/sched'' = Inr demo_config"
  using read_config_print [of demo_files "''input/sched''" 6 2 demo_jobs 1048576 "[16777216, 0, 0, 0]"] demo_files_text demo_job_ok
  by (simp add: PAGING_MAX_MMSWP_def job_entry_def demo_config_def demo_jobs_def del: print_row_Cons)

section \<open>Properties\<close>

text \<open>C22. A configuration file is read as it was written: the first line gives the time slot, the
  number of CPUs and the number of processes, the second the RAM size and the four swap
  sizes, and each further line the start time, the program (under \<open>input/proc/\<close>) and the
  priority of one process, in order.\<close>

theorem config_round_trip:
  assumes "fs pth = Some (print_lines (print_row [ts, cpus, length js] # print_row (ram # swps) # map print_job js))"
    and "ts < 2 ^ 31" "cpus < 2 ^ 31" "length js < 2 ^ 31" "ram < 2 ^ 31" "\<forall>n \<in> set swps. n < 2 ^ 31"
    and "length swps = PAGING_MAX_MMSWP" "\<forall>(t, name, pr) \<in> set js. job_name_ok name"
  shows "read_config fs pth = Inr \<lparr>time_slot = int ts, num_cpus = int cpus, num_processes = int (length js),
     memramsz = int ram, memswpsz = map int swps, ld_processes = map job_entry js\<rparr>"
  using assms by (rule read_config_print)

theorem config_round_trip_witness: "read_config demo_files ''input/sched'' = Inr demo_config"
  using config_round_trip [of demo_files "''input/sched''" 6 2 demo_jobs 1048576 "[16777216, 0, 0, 0]"] demo_files_text demo_job_ok
  by (simp add: PAGING_MAX_MMSWP_def job_entry_def demo_config_def demo_jobs_def del: print_row_Cons)

text \<open>Whenever \<open>read_config\<close> returns: there is one entry per announced process and four swap
  sizes, every path fits its 100 bytes and lies under \<open>input/proc/\<close>, and a line that did not
  parse (its priority is still uninitialised) leaves the bare directory as path.\<close>

theorem read_config_shape:
  assumes "read_config fs pth = Inr c"
  shows "length (ld_processes c) = nat (num_processes c) \<and> length (memswpsz c) = PAGING_MAX_MMSWP \<and>
     (\<forall>e \<in> set (ld_processes c). \<exists>name. ld_path e = ''input/proc/'' @ name \<and> length (ld_path e) < 100 \<and>
        (ld_prio e = None \<longrightarrow> name = []))"
  using assms by (rule read_config_fields)

theorem read_config_shape_witness:
  "length (ld_processes demo_config) = 1 \<and> (\<forall>e \<in> set (ld_processes demo_config). length (ld_path e) < 100)"
  using read_config_shape [OF demo_config_read] by (auto simp: demo_config_def)

end
