(* ===== verification/Os.thy ===== *)
theory Os
  imports Cpu Timer Loader Config
begin

text \<open>
  The simulator of \<open>src/os.c\<close>: \<open>main\<close> up to the creation of the threads, the CPU threads, the
  loader thread, and their interleavings with the timer thread. The position of a thread
  is a program counter; a step runs from one access of shared state to the next, so that a
  call of the scheduler, the timer, the loader or \<open>run\<close> is one step. A step gives \<open>None\<close>
  when the thread waits or has ended, and a fault when the program has undefined behaviour
  or exits there. The address that \<open>malloc\<close> picks for a PCB is an argument of the loader's
  step, any address that is free.
\<close>

section \<open>State\<close>

datatype cpu_pc = C_Loop | C_Fetch | C_Recheck | C_Run | C_Slot | C_Wait | C_Detach | C_Stopped
datatype ld_pc = L_Loop | L_Start | L_Sleep | L_Asleep | L_Slot | L_Wait | L_Detach | L_Stopped
datatype main_pc = M_Join | M_Stop | M_Return

text \<open>The local variables of \<open>cpu_routine\<close> and \<open>ld_routine\<close>.\<close>

record cpu_t =
  c_pc :: cpu_pc
  c_timer :: nat
  c_proc :: pcb_ptr
  time_left :: int

record ld_t =
  l_pc :: ld_pc
  l_timer :: nat
  l_i :: nat
  l_proc :: pcb_ptr

record os_t =
  mach :: machine
  tmr :: timer_t
  conf :: config_t
  os_done :: int
  cpus :: "cpu_t list"
  ldr :: ld_t
  avail_pid :: u32
  m_pc :: main_pc

text \<open>What the program is run with: the memory library's \<open>malloc\<close>, the files, and the contents of
  fresh blocks (for the \<open>i\<close>-th process, and for the \<open>i\<close>-th device on the stack of \<open>main\<close>).\<close>

record env_t =
  env_host :: host
  env_fs :: "string \<Rightarrow> string option"
  env_heap :: "nat \<Rightarrow> ld_heap"
  env_mm :: "nat \<Rightarrow> mm_struct"
  env_blocks :: "nat \<Rightarrow> mm_blocks"
  env_dev :: "nat \<Rightarrow> memphy_struct"
  env_fp :: "nat \<Rightarrow> int chain"

abbreviation store :: "os_t \<Rightarrow> pcb_store" where "store s \<equiv> pcbs (mach s)"
abbreviation sch :: "os_t \<Rightarrow> sched_t" where "sch s \<equiv> sched (mach s)"

definition set_store :: "os_t \<Rightarrow> pcb_store \<Rightarrow> os_t" where
  "set_store s st = s\<lparr>mach := (mach s)\<lparr>pcbs := st\<rparr>\<rparr>"

definition set_sch :: "os_t \<Rightarrow> sched_t \<Rightarrow> os_t" where
  "set_sch s sc = s\<lparr>mach := (mach s)\<lparr>sched := sc\<rparr>\<rparr>"

definition set_cpu :: "os_t \<Rightarrow> nat \<Rightarrow> cpu_t \<Rightarrow> os_t" where
  "set_cpu s k c = s\<lparr>cpus := (cpus s)[k := c]\<rparr>"

definition set_ldr :: "os_t \<Rightarrow> ld_t \<Rightarrow> os_t" where
  "set_ldr s l = s\<lparr>ldr := l\<rparr>"

definition set_tmr :: "os_t \<Rightarrow> timer_t \<Rightarrow> os_t" where
  "set_tmr s t = s\<lparr>tmr := t\<rparr>"

section \<open>The CPU threads\<close>

definition fetch :: "os_t \<Rightarrow> (pcb_ptr \<times> os_t) result" where
  "fetch s = and_then (get_proc (store s) (sch s)) (\<lambda>(p, sc). Inr (p, set_sch s sc))"

text \<open>The top of the loop. A finished process is freed and a preempted one put back; the
  \<open>get_proc\<close> that follows is the step at \<open>C_Fetch\<close>.\<close>

definition cpu_loop :: "os_t \<Rightarrow> nat \<Rightarrow> cpu_t \<Rightarrow> os_t result" where
  "cpu_loop s k c =
     (case c_proc c of
        None \<Rightarrow> and_then (fetch s) (\<lambda>(p, s).
          Inr (set_cpu s k (c\<lparr>c_proc := p, c_pc := if p = None then C_Slot else C_Recheck\<rparr>)))
      | Some a \<Rightarrow>
          and_then (pcb_at (store s) (Some a)) (\<lambda>b.
            if pc b = code_size (code b) then
              Inr (set_cpu (set_store s ((store s)(a := None))) k (c\<lparr>time_left := 0, c_pc := C_Fetch\<rparr>))
            else if time_left c = 0 then
              and_then (put_proc (store s) (sch s) (Some a)) (\<lambda>(st, sc).
                Inr (set_cpu (set_sch (set_store s st) sc) k (c\<lparr>c_pc := C_Fetch\<rparr>)))
            else Inr (set_cpu s k (c\<lparr>c_pc := C_Recheck\<rparr>))))"

definition cpu_recheck :: "os_t \<Rightarrow> cpu_t \<Rightarrow> cpu_t" where
  "cpu_recheck s c =
     (if c_proc c = None \<and> os_done s \<noteq> 0 then c\<lparr>c_pc := C_Detach\<rparr>
      else if c_proc c = None then c\<lparr>c_pc := C_Slot\<rparr>
      else if time_left c = 0 then c\<lparr>time_left := time_slot (conf s), c_pc := C_Run\<rparr>
      else c\<lparr>c_pc := C_Run\<rparr>)"

definition cpu_run :: "env_t \<Rightarrow> os_t \<Rightarrow> nat \<Rightarrow> cpu_t \<Rightarrow> os_t result" where
  "cpu_run env s k c =
     and_then (run (env_host env) (mach s) (c_proc c)) (\<lambda>(_, mc).
     and_then (c_int (time_left c - 1)) (\<lambda>t.
       Inr (set_cpu (s\<lparr>mach := mc\<rparr>) k (c\<lparr>time_left := t, c_pc := C_Slot\<rparr>))))"

definition cpu_step :: "env_t \<Rightarrow> os_t \<Rightarrow> nat \<Rightarrow> os_t result option" where
  "cpu_step env s k =
     (let c = cpus s ! k in
      case c_pc c of
        C_Loop \<Rightarrow> Some (cpu_loop s k c)
      | C_Fetch \<Rightarrow> Some (and_then (fetch s) (\<lambda>(p, s). Inr (set_cpu s k (c\<lparr>c_proc := p, c_pc := C_Recheck\<rparr>))))
      | C_Recheck \<Rightarrow> Some (Inr (set_cpu s k (cpu_recheck s c)))
      | C_Run \<Rightarrow> Some (cpu_run env s k c)
      | C_Slot \<Rightarrow> Some (Inr (set_cpu (set_tmr s (next_slot_begin (tmr s) (c_timer c))) k (c\<lparr>c_pc := C_Wait\<rparr>)))
      | C_Wait \<Rightarrow> (case next_slot_end (tmr s) (c_timer c) of
          None \<Rightarrow> None | Some t \<Rightarrow> Some (Inr (set_cpu (set_tmr s t) k (c\<lparr>c_pc := C_Loop\<rparr>))))
      | C_Detach \<Rightarrow> Some (Inr (set_cpu (set_tmr s (detach_event (tmr s) (c_timer c))) k (c\<lparr>c_pc := C_Stopped\<rparr>)))
      | C_Stopped \<Rightarrow> None)"

section \<open>The loader thread\<close>

text \<open>Loading process \<open>i\<close> into a PCB at address \<open>a\<close>; its priority is cut to 32 bits.\<close>

definition ld_load :: "env_t \<Rightarrow> os_t \<Rightarrow> nat \<Rightarrow> os_t result" where
  "ld_load env s a =
     (let i = l_i (ldr s); e = ld_processes (conf s) ! i in
      and_then (load (env_heap env i) (env_fs env) (avail_pid s) (ld_path e)) (\<lambda>(b, n).
      and_then (initialised (ld_prio e)) (\<lambda>pr.
        Inr (set_ldr (set_store (s\<lparr>avail_pid := n\<rparr>) ((store s)(a \<mapsto> b\<lparr>prio := ucast pr\<rparr>)))
              ((ldr s)\<lparr>l_proc := Some a, l_pc := L_Start\<rparr>)))))"

text \<open>When the start time has come, the process gets its memory and enters the ready queue.\<close>

definition give_memory :: "env_t \<Rightarrow> nat \<Rightarrow> pcb_t \<Rightarrow> pcb_t" where
  "give_memory env i b = b\<lparr>p_mm := Some (snd (init_mm (env_blocks env i) (env_mm env i))),
     p_mram := Some Mram, p_active_mswp := Some (Mswp 0)\<rparr>"

definition ld_admit :: "env_t \<Rightarrow> os_t \<Rightarrow> os_t result" where
  "ld_admit env s =
     and_then (deref (l_proc (ldr s))) (\<lambda>a.
     and_then (pcb_at (store s) (Some a)) (\<lambda>b.
     and_then (add_proc ((store s)(a \<mapsto> give_memory env (l_i (ldr s)) b)) (sch s) (Some a)) (\<lambda>(st, sc).
       Inr (set_ldr (set_sch (set_store s st) sc) ((ldr s)\<lparr>l_i := Suc (l_i (ldr s)), l_pc := L_Slot\<rparr>)))))"

definition ld_step :: "env_t \<Rightarrow> os_t \<Rightarrow> nat \<Rightarrow> os_t result option" where
  "ld_step env s a =
     (let l = ldr s in
      case l_pc l of
        L_Loop \<Rightarrow> Some (if int (l_i l) < num_processes (conf s) then ld_load env s a
                          else Inr (set_ldr (s\<lparr>os_done := 1\<rparr>) (l\<lparr>l_pc := L_Detach\<rparr>)))
      | L_Start \<Rightarrow> Some (and_then (initialised (start_time (ld_processes (conf s) ! l_i l))) (\<lambda>t.
          if current_time (tmr s) < t then Inr (set_ldr s (l\<lparr>l_pc := L_Sleep\<rparr>)) else ld_admit env s))
      | L_Sleep \<Rightarrow> Some (Inr (set_ldr (set_tmr s (next_slot_begin (tmr s) (l_timer l))) (l\<lparr>l_pc := L_Asleep\<rparr>)))
      | L_Asleep \<Rightarrow> (case next_slot_end (tmr s) (l_timer l) of
          None \<Rightarrow> None | Some t \<Rightarrow> Some (Inr (set_ldr (set_tmr s t) (l\<lparr>l_pc := L_Start\<rparr>))))
      | L_Slot \<Rightarrow> Some (Inr (set_ldr (set_tmr s (next_slot_begin (tmr s) (l_timer l))) (l\<lparr>l_pc := L_Wait\<rparr>)))
      | L_Wait \<Rightarrow> (case next_slot_end (tmr s) (l_timer l) of
          None \<Rightarrow> None | Some t \<Rightarrow> Some (Inr (set_ldr (set_tmr s t) (l\<lparr>l_pc := L_Loop\<rparr>))))
      | L_Detach \<Rightarrow> Some (Inr (set_ldr (set_tmr s (detach_event (tmr s) (l_timer l))) (l\<lparr>l_pc := L_Stopped\<rparr>)))
      | L_Stopped \<Rightarrow> None)"

section \<open>The main thread\<close>

primrec attach_cpus :: "nat \<Rightarrow> timer_t \<Rightarrow> (nat list \<times> timer_t) result" where
  "attach_cpus 0 t = Inr ([], t)"
| "attach_cpus (Suc n) t =
     (case attach_event t of
        (d, t) \<Rightarrow> and_then (deref d) (\<lambda>d. and_then (attach_cpus n t) (\<lambda>(ds, t). Inr (d # ds, t))))"

primrec init_swaps :: "env_t \<Rightarrow> nat \<Rightarrow> int list \<Rightarrow> memphy_struct list result" where
  "init_swaps env i [] = Inr []"
| "init_swaps env i (sz # szs) =
     and_then (init_memphy (env_fp env i) (env_dev env i) sz 1) (\<lambda>(_, d).
     and_then (init_swaps env (Suc i) szs) (\<lambda>ds. Inr (d # ds)))"

text \<open>\<open>main\<close> up to the point where the loader and the CPUs run. A wrong number of arguments ends
  the program with status 1, as \<open>exit(1)\<close> does. The CPUs get the devices 0, 1, ... of the
  timer, and the loader the last one.\<close>

definition boot :: "env_t \<Rightarrow> string list \<Rightarrow> os_t result" where
  "boot env argv =
     (if length argv \<noteq> 2 then Inl Exit_Failure
      else
        let pth = ''input/'' @ argv ! 1 in
        and_then (guard (length pth < 100) Out_Of_Bounds) (\<lambda>_.
        and_then (read_config (env_fs env) pth) (\<lambda>c.
        and_then (attach_cpus (nat (num_cpus c)) static_timer) (\<lambda>(ds, t).
        case attach_event t of
          (ld_event, t) \<Rightarrow>
            and_then (deref ld_event) (\<lambda>ld.
            let t = start_timer t in
            and_then (init_memphy (env_fp env 0) (env_dev env 0) (memramsz c) 1) (\<lambda>(_, mram).
            and_then (init_swaps env 1 (memswpsz c)) (\<lambda>mswp.
              Inr \<lparr>mach = \<lparr>pcbs = Map.empty, sched = init_scheduler static_sched, dev_ram = mram, dev_swp = mswp,
                           vm_lock = False\<rparr>,
                   tmr = t, conf = c, os_done = 0,
                   cpus = map (\<lambda>d. \<lparr>c_pc = C_Loop, c_timer = d, c_proc = None, time_left = 0\<rparr>) ds,
                   ldr = \<lparr>l_pc = L_Loop, l_timer = ld, l_i = 0, l_proc = None\<rparr>,
                   avail_pid = 1, m_pc = M_Join\<rparr>)))))))"

text \<open>Joining the threads, and \<open>stop_timer\<close>.\<close>

definition main_step :: "os_t \<Rightarrow> os_t option" where
  "main_step s =
     (case m_pc s of
        M_Join \<Rightarrow> if (\<forall>c \<in> set (cpus s). c_pc c = C_Stopped) \<and> l_pc (ldr s) = L_Stopped
                   then Some (set_tmr (s\<lparr>m_pc := M_Stop\<rparr>) (stop_request (tmr s))) else None
      | M_Stop \<Rightarrow> (case stop_join (tmr s) of None \<Rightarrow> None | Some t \<Rightarrow> Some (set_tmr (s\<lparr>m_pc := M_Return\<rparr>) t))
      | M_Return \<Rightarrow> None)"

section \<open>Interleavings\<close>

inductive os_step :: "env_t \<Rightarrow> os_t \<Rightarrow> os_t \<Rightarrow> bool" for env where
  cpu: "k < length (cpus s) \<Longrightarrow> cpu_step env s k = Some (Inr t) \<Longrightarrow> os_step env s t"
| loader: "store s a = None \<Longrightarrow> ld_step env s a = Some (Inr t) \<Longrightarrow> os_step env s t"
| timer: "timer_step (tmr s) = Some t \<Longrightarrow> os_step env s (set_tmr s t)"
| main: "main_step s = Some t \<Longrightarrow> os_step env s t"

inductive_cases os_stepE: "os_step env s t"

inductive os_reachable :: "env_t \<Rightarrow> string list \<Rightarrow> os_t \<Rightarrow> bool" for env argv where
  boot: "boot env argv = Inr s \<Longrightarrow> os_reachable env argv s"
| more: "os_reachable env argv s \<Longrightarrow> os_step env s t \<Longrightarrow> os_reachable env argv t"

inductive os_steps :: "env_t \<Rightarrow> os_t \<Rightarrow> os_t \<Rightarrow> bool" for env where
  refl: "os_steps env s s"
| step: "os_steps env s t \<Longrightarrow> os_step env t u \<Longrightarrow> os_steps env s u"

section \<open>The paging test program\<close>

text \<open>\<open>main\<close> of \<open>src/paging.c\<close>: two processes from one file, at the addresses \<open>l\<close> and \<open>p\<close>, run in turns
  without a scheduler, then \<open>dump\<close> of the legacy memory. The loop reads the size of the code before
  every turn.\<close>

lemma turns_left: "i < n \<Longrightarrow> 4294967296 - unat (i + 1) < 4294967296 - unat (i :: u32)"
proof -
  assume i: "i < n"
  have "1 + i \<noteq> 0"
  proof
    assume "1 + i = 0"
    then have "i = -1" by (simp add: eq_neg_iff_add_eq_0 add.commute)
    then show False using i word_n1_ge [of n] by (simp add: not_less [symmetric])
  qed
  then have "unat (i + 1) = Suc (unat i)" using unatSuc [of i] by (simp add: add.commute)
  moreover have "unat (i + 1) < 4294967296" using unsigned_less [of "i + 1", where ?'a = nat] by simp
  ultimately show ?thesis by linarith
qed

function paging_loop :: "host \<Rightarrow> machine \<Rightarrow> nat \<Rightarrow> nat \<Rightarrow> u32 \<Rightarrow> machine result" where
  "paging_loop h mc p l i =
     and_then (pcb_at (pcbs mc) (Some p)) (\<lambda>b.
       if i < code_size (code b) then
         and_then (run h mc (Some p)) (\<lambda>(_, mc).
         and_then (run h mc (Some l)) (\<lambda>(_, mc). paging_loop h mc p l (i + 1)))
       else Inr mc)"
  by pat_completeness auto
termination
  by (relation "measure (\<lambda>(h, mc, p, l, i). 2 ^ 32 - unat i)") (auto simp: turns_left)

declare paging_loop.simps [simp del]

definition paging_main :: "env_t \<Rightarrow> machine \<Rightarrow> mem_t \<Rightarrow> nat \<Rightarrow> nat \<Rightarrow>
    ((nat \<times> mem_stat_t \<times> (nat \<times> BYTE) list) list \<times> machine) result" where
  "paging_main env mc m l p =
     and_then (load (env_heap env 0) (env_fs env) 1 ''input/p0'') (\<lambda>(b, n).
     and_then (load (env_heap env 1) (env_fs env) n ''input/p0'') (\<lambda>(b', _).
     and_then (paging_loop (env_host env) (mc\<lparr>pcbs := (pcbs mc)(l \<mapsto> b, p \<mapsto> b')\<rparr>) p l 0) (\<lambda>mc. Inr (dump m, mc))))"

section \<open>Lemmas on the state\<close>

lemma set_simps [simp]:
  "mach (set_cpu s k c) = mach s" "mach (set_ldr s l) = mach s" "mach (set_tmr s t) = mach s"
  "tmr (set_cpu s k c) = tmr s" "tmr (set_ldr s l) = tmr s" "tmr (set_tmr s t) = t"
  "tmr (set_store s st) = tmr s" "tmr (set_sch s sc) = tmr s"
  "cpus (set_cpu s k c) = (cpus s)[k := c]" "cpus (set_ldr s l) = cpus s" "cpus (set_tmr s t) = cpus s"
  "cpus (set_store s st) = cpus s" "cpus (set_sch s sc) = cpus s"
  "ldr (set_cpu s k c) = ldr s" "ldr (set_ldr s l) = l" "ldr (set_tmr s t) = ldr s"
  "ldr (set_store s st) = ldr s" "ldr (set_sch s sc) = ldr s"
  "conf (set_cpu s k c) = conf s" "conf (set_ldr s l) = conf s" "conf (set_tmr s t) = conf s"
  "conf (set_store s st) = conf s" "conf (set_sch s sc) = conf s"
  "os_done (set_cpu s k c) = os_done s" "os_done (set_ldr s l) = os_done s" "os_done (set_tmr s t) = os_done s"
  "os_done (set_store s st) = os_done s" "os_done (set_sch s sc) = os_done s"
  "m_pc (set_cpu s k c) = m_pc s" "m_pc (set_ldr s l) = m_pc s" "m_pc (set_tmr s t) = m_pc s"
  "m_pc (set_store s st) = m_pc s" "m_pc (set_sch s sc) = m_pc s"
  "store (set_store s st) = st" "store (set_sch s sc) = store s" "sch (set_store s st) = sch s" "sch (set_sch s sc) = sc"
  by (simp_all add: set_cpu_def set_ldr_def set_tmr_def set_store_def set_sch_def)

lemma cpu_step_frame:
  assumes "cpu_step env s k = Some (Inr t)"
  shows "conf t = conf s \<and> ldr t = ldr s \<and> os_done t = os_done s \<and> m_pc t = m_pc s \<and> (\<exists>c. cpus t = (cpus s)[k := c])"
  using assms
  by (auto simp: cpu_step_def Let_def cpu_loop_def cpu_run_def fetch_def result_simps
      split: cpu_pc.splits option.splits if_splits)

end
