(* ===== verification/Run.thy ===== *)
theory Run
  imports Os
begin

text \<open>
  Executing a schedule of the simulator: a list of the threads in the order in which they
  step. Used to reach concrete states of the interleaving semantics by evaluation.
\<close>

datatype action = Cpu nat | Ld nat | Tick_Timer | Main_Thread

definition ok_of :: "os_t result option \<Rightarrow> os_t option" where
  "ok_of r = (case r of Some (Inr t) \<Rightarrow> Some t | _ \<Rightarrow> None)"

fun perform :: "env_t \<Rightarrow> action \<Rightarrow> os_t \<Rightarrow> os_t option" where
  "perform env (Cpu k) s = (if k < length (cpus s) then ok_of (cpu_step env s k) else None)"
| "perform env (Ld a) s = (if Option.is_none (store s a) then ok_of (ld_step env s a) else None)"
| "perform env Tick_Timer s = (case timer_step (tmr s) of None \<Rightarrow> None | Some t \<Rightarrow> Some (set_tmr s t))"
| "perform env Main_Thread s = main_step s"

primrec perform_all :: "env_t \<Rightarrow> action list \<Rightarrow> os_t \<Rightarrow> os_t option" where
  "perform_all env [] s = Some s"
| "perform_all env (x # xs) s = (case perform env x s of None \<Rightarrow> None | Some t \<Rightarrow> perform_all env xs t)"

definition start_run :: "env_t \<Rightarrow> string list \<Rightarrow> action list \<Rightarrow> os_t option" where
  "start_run env argv xs = (case boot env argv of Inl e \<Rightarrow> None | Inr s \<Rightarrow> perform_all env xs s)"

lemma perform_step: "perform env x s = Some t \<Longrightarrow> os_step env s t"
  by (cases x) (auto simp: ok_of_def Option.is_none_def intro: os_step.intros split: if_splits option.splits sum.splits)

lemma perform_all_reachable:
  "os_reachable env argv s \<Longrightarrow> perform_all env xs s = Some t \<Longrightarrow> os_reachable env argv t"
proof (induction xs arbitrary: s)
  case (Cons x xs)
  then obtain u where "perform env x s = Some u" "perform_all env xs u = Some t" by (auto split: option.splits)
  then show ?case using Cons.IH os_reachable.more [OF Cons.prems(1) perform_step] by blast
qed simp

lemma start_run_reachable: "start_run env argv xs = Some t \<Longrightarrow> os_reachable env argv t"
  by (auto simp: start_run_def intro: os_reachable.boot perform_all_reachable split: sum.splits)

text \<open>One CPU and one process with a single instruction.\<close>

definition tiny_files :: "string \<Rightarrow> string option" where
  "tiny_files = [''input/tiny'' \<mapsto> ''6 1 1'' @ [newline] @ ''512 256 0 0 0'' @ [newline] @ ''0 p 3'' @ [newline],
     ''input/proc/p'' \<mapsto> ''1 1 calc'']"

definition tiny_env :: env_t where
  "tiny_env = \<lparr>env_host = demo_host, env_fs = tiny_files, env_heap = (\<lambda>_. demo_heap), env_mm = (\<lambda>_. demo_mm),
     env_blocks = (\<lambda>_. \<lparr>got_vma0 = True, got_pgd = True, pgd_junk = (\<lambda>_. 0), freerg_junk = NULL\<rparr>),
     env_dev = (\<lambda>_. small_device), env_fp = (\<lambda>_. NULL)\<rparr>"

text \<open>The CPU finds nothing, the loader brings the process in, a slot passes, and the CPU gets it.\<close>

definition tiny_schedule :: "action list" where
  "tiny_schedule = [Cpu 0, Ld 5, Ld 6, Cpu 0, Ld 6] @ replicate 9 Tick_Timer @ [Cpu 0, Cpu 0, Cpu 0]"

definition digest :: "os_t \<Rightarrow> cpu_t list \<times> ld_pc \<times> int \<times> int \<times> nat \<times> string list" where
  "digest s = (cpus s, l_pc (ldr s), num_processes (conf s), time_slot (conf s), ticks (tmr s), map ld_path (ld_processes (conf s)))"

lemma tiny_run: "map_option (\<lambda>s. (digest s, map_option cpus (perform tiny_env (Cpu 0) s)))
      (start_run tiny_env [''os'', ''tiny''] tiny_schedule) =
    Some (([\<lparr>c_pc = C_Run, c_timer = 0, c_proc = Some 5, time_left = 6\<rparr>], L_Wait, 1, 6, 1, [''input/proc/p'']), Some [\<lparr>c_pc = C_Slot, c_timer = 0, c_proc = Some 5, time_left = 5\<rparr>])"
  by code_simp

text \<open>A state of that run in which the CPU is about to execute the process's instruction.\<close>

lemma tiny_state:
  obtains s t where "os_step tiny_env s t" "os_reachable tiny_env [''os'', ''tiny''] s"
    "cpus s = [\<lparr>c_pc = C_Run, c_timer = 0, c_proc = Some 5, time_left = 6\<rparr>]" "l_pc (ldr s) = L_Wait"
    "num_processes (conf s) = 1" "time_slot (conf s) = 6" "ticks (tmr s) = 1"
    "map ld_path (ld_processes (conf s)) = [''input/proc/p'']"
    "cpus t = [\<lparr>c_pc = C_Slot, c_timer = 0, c_proc = Some 5, time_left = 5\<rparr>]" "conf t = conf s"
proof -
  obtain s t where s: "start_run tiny_env [''os'', ''tiny''] tiny_schedule = Some s" "perform tiny_env (Cpu 0) s = Some t"
    "cpus t = [\<lparr>c_pc = C_Slot, c_timer = 0, c_proc = Some 5, time_left = 5\<rparr>]"
    "digest s = ([\<lparr>c_pc = C_Run, c_timer = 0, c_proc = Some 5, time_left = 6\<rparr>], L_Wait, 1, 6, 1, [''input/proc/p''])"
    using tiny_run by (auto simp: map_option_eq_Some)
  moreover from s(2) have "conf t = conf s"
    by (auto simp: ok_of_def dest: cpu_step_frame split: option.splits sum.splits if_splits)
  ultimately show thesis by (intro that [OF perform_step [OF s(2)] start_run_reachable [OF s(1)]]) (simp_all add: digest_def)
qed

lemma tiny_load:
  assumes "load demo_heap tiny_files n ''input/proc/p'' = Inr (b, n')"
  shows "map opcode (code_text (code b)) = [CALC]"
proof -
  have two: "scan_nums conv_u 2 s = scan_nums conv_u (Suc (Suc 0)) s" for s by (simp add: numeral_2_eq_2)
  have "tiny_files ''input/proc/p'' = Some ''1 1 calc''" by (simp add: tiny_files_def)
  then show ?thesis
    using assms by (auto simp: load_def c_str_def two scan_num_def scan_sign_def skip_ws_def is_space_def is_digit_def
        num_of_def conv_u_def strtoul_def demo_heap_def demo_pcb_def load_ins_def read_opcode_def scan_word_def
        get_opcode_def)
qed

end
