(* ===== verification/Killall.thy ===== *)
theory Killall
  imports Cpu
begin

text \<open>
  What the system call \<open>killall\<close> may do to the scheduler, however it is called: whenever it
  returns, the PCBs are the same up to their program counters and memory descriptors, the
  ready queues are well formed, and processes have left them at most. So an instruction of
  any program keeps the invariant of the scheduler.
\<close>

section \<open>Process control blocks and ready queues\<close>

text \<open>A process that uses the devices the loader gives to every process; what stays of a PCB from
  then on; two stores with the same processes up to the rest.\<close>

definition on_devices :: "pcb_t \<Rightarrow> bool" where
  "on_devices b \<longleftrightarrow> p_mram b = Some Mram \<and> p_active_mswp b = Some (Mswp 0)"

definition kept :: "pcb_t \<Rightarrow> pcb_t \<Rightarrow> bool" where
  "kept b b' \<longleftrightarrow> prio b' = prio b \<and> code b' = code b \<and> (on_devices b \<longrightarrow> on_devices b')"

definition similar :: "pcb_store \<Rightarrow> pcb_store \<Rightarrow> bool" where
  "similar st st' \<longleftrightarrow> (\<forall>a. rel_option kept (st a) (st' a))"

lemma similar_at:
  assumes "similar st st'"
  shows "st a = None \<and> st' a = None \<or> (\<exists>b b'. st a = Some b \<and> st' a = Some b' \<and> kept b b')"
proof -
  have "rel_option kept (st a) (st' a)" using assms by (simp add: similar_def)
  then show ?thesis by (cases "st a"; cases "st' a") simp_all
qed

lemma similar_live:
  assumes "similar st st'"
  shows "live st' p = live st p" "prio_of st' p = prio_of st p"
proof -
  have "live st' (Some a) = live st (Some a)" "prio_of st' (Some a) = prio_of st (Some a)" for a
    using similar_at [OF assms, of a] by (auto simp: kept_def live_def prio_of_def pcb_at_def)
  then show "live st' p = live st p" "prio_of st' p = prio_of st p"
    by (cases p; simp add: live_def prio_of_def pcb_at_def)+
qed

lemma kept_refl [simp]: "kept b b"
  by (simp add: kept_def)

lemma similar_refl [simp]: "similar st st"
  by (simp add: similar_def option.rel_refl)

lemma similar_update: "st a = Some b \<Longrightarrow> kept b b' \<Longrightarrow> similar st (st(a \<mapsto> b'))"
  by (auto simp: similar_def option.rel_refl)

lemma dom_similar: "similar st st' \<Longrightarrow> dom st' = dom st"
proof (rule set_eqI)
  fix a assume "similar st st'"
  from similar_at [OF this, of a] show "a \<in> dom st' \<longleftrightarrow> a \<in> dom st" by auto
qed

lemma similar_trans: "similar st st' \<Longrightarrow> similar st' st'' \<Longrightarrow> similar st st''"
proof -
  assume h: "similar st st'" "similar st' st''"
  have "rel_option kept (st a) (st'' a)" for a
    using similar_at [OF h(1), of a] similar_at [OF h(2), of a] by (auto simp: kept_def)
  then show ?thesis by (simp add: similar_def)
qed

text \<open>The invariant of the ready queues and the running list.\<close>

definition pool_ok :: "pcb_store \<Rightarrow> sched_t \<Rightarrow> bool" where
  "pool_ok st s \<longleftrightarrow> sched_ok st s \<and> list_ok (running_list s)"

lemma in_waiting: "levels_ok st s \<Longrightarrow> p \<in># waiting s \<longleftrightarrow> (\<exists>i < 140. p \<in> set (level s i))"
proof -
  assume "levels_ok st s"
  then have len: "length (mlq_ready_queue s) = 140" by (simp add: levels_ok_def)
  have "p \<in># waiting s \<longleftrightarrow> (\<exists>q \<in> set (mlq_ready_queue s). p \<in> set (q_list q))" by (simp add: waiting_def)
  then show ?thesis by (metis len in_set_conv_nth)
qed

lemma levels_ok_frame:
  assumes "levels_ok st s" "\<forall>p \<in># waiting s. live st' p \<and> prio_of st' p = prio_of st p"
  shows "levels_ok st' s"
proof -
  have "live st' p \<and> prio_of st' p = prio_of st p" if "i < 140" "p \<in> set (level s i)" for p i
    using that assms(2) in_waiting [OF assms(1)] by blast
  then show ?thesis using assms(1) by (auto simp: levels_ok_def queue_ok_def)
qed

section \<open>The scans of the queues\<close>

lemma queue_position:
  assumes "list_ok q" "0 \<le> i" "i < qsize q"
  shows "nat i < length (q_list q) \<and> i = int (nat i)"
  using assms by (auto simp: list_ok_def q_list_def)

lemma similar_finish: "st a = Some b \<Longrightarrow> similar st (st(a \<mapsto> finish b))"
  by (rule similar_update, assumption) (simp add: kept_def on_devices_def finish_def)

lemma kill_running_keeps:
  assumes "kill_running name st q i ks = Inr (st', q', ks')" "list_ok q" "0 \<le> i"
  shows "similar st st' \<and> list_ok q'"
  using assms
proof (induction name st q i ks arbitrary: st' q' ks' rule: kill_running.induct)
  case (1 name st q i ks)
  show ?case
  proof (cases "i < qsize q")
    case True
    with 1(3) obtain p a b where p: "arr_get (procs q) i = Inr p" "p = Some a" "st a = Some b"
      by (subst (asm) kill_running.simps) (auto simp: result_simps)
    show ?thesis
    proof (cases "has_name name b")
      case nm: True
      obtain ks1 ps where "push_kill ks p = Inr ks1" and ps: "shift_down (procs q) i (nat (qsize q - 1 - i)) = Inr ps"
        and rest: "kill_running name (st(a \<mapsto> finish b)) (q\<lparr>procs := ps, qsize := qsize q - 1\<rparr>) i ks1 = Inr (st', q', ks')"
        using 1(3) True p nm by (subst (asm) kill_running.simps) (auto simp: result_simps pcb_at_def)
      have "list_ok (q\<lparr>procs := ps, qsize := qsize q - 1\<rparr>)"
        using shift_down_queue [OF 1(4), of "nat i" "nat i"] queue_position [OF 1(4,5) True] ps by auto
      then have "similar (st(a \<mapsto> finish b)) st' \<and> list_ok q'"
        by (intro 1(1) [of p a b ks1 ps, OF True _ _ _ nm _ _ rest])
          (use p 1(5) \<open>push_kill ks p = Inr ks1\<close> ps in \<open>simp_all add: pcb_at_def\<close>)
      then show ?thesis using similar_trans [OF similar_finish [of st a b, OF p(3)]] by blast
    next
      case False
      then show ?thesis
        using 1(2) [of p a b] 1(3-5) True p by (subst (asm) kill_running.simps) (simp add: pcb_at_def)
    qed
  next
    case False
    then show ?thesis using 1(3,4) by (subst (asm) kill_running.simps) simp
  qed
qed

lemma kill_ready_keeps:
  assumes "kill_ready name st q i ks = Inr (st', q', ks')" "list_ok q" "0 \<le> i"
  shows "similar st st' \<and> list_ok q' \<and> (\<exists>n. q_list q' = drop n (q_list q))"
  using assms
proof (induction name st q i ks arbitrary: st' q' ks' rule: kill_ready.induct)
  case (1 name st q i ks)
  show ?case
  proof (cases "i < qsize q")
    case True
    with 1(3) obtain p a b where p: "arr_get (procs q) i = Inr p" "p = Some a" "st a = Some b"
      by (subst (asm) kill_ready.simps) (auto simp: result_simps)
    show ?thesis
    proof (cases "has_name name b")
      case nm: True
      obtain ks1 ps where "push_kill ks p = Inr ks1" and ps: "shift_down (procs q) 0 (nat (qsize q - 1)) = Inr ps"
        and rest: "kill_ready name (st(a \<mapsto> finish b)) (q\<lparr>procs := ps, qsize := qsize q - 1\<rparr>) i ks1 = Inr (st', q', ks')"
        using 1(3) True p nm by (subst (asm) kill_ready.simps) (auto simp: result_simps pcb_at_def)
      let ?q = "q\<lparr>procs := ps, qsize := qsize q - 1\<rparr>"
      have q: "list_ok ?q" "q_list ?q = drop 1 (q_list q)"
        using shift_down_queue [OF 1(4), of "nat i" 0] queue_position [OF 1(4,5) True] ps by auto
      then have "similar (st(a \<mapsto> finish b)) st' \<and> list_ok q' \<and> (\<exists>n. q_list q' = drop n (q_list ?q))"
        by (intro 1(1) [of p a b ks1 ps, OF True _ _ _ nm _ _ rest])
          (use p q 1(5) \<open>push_kill ks p = Inr ks1\<close> ps in \<open>simp_all add: pcb_at_def\<close>)
      then show ?thesis
        using similar_trans [OF similar_finish [of st a b, OF p(3)]] unfolding q(2) drop_drop by blast
    next
      case False
      then show ?thesis
        using 1(2) [of p a b] 1(3-5) True p by (subst (asm) kill_ready.simps) (simp add: pcb_at_def)
    qed
  next
    case False
    have "q_list q = drop 0 (q_list q)" by simp
    then show ?thesis using 1(3,4) False by (subst (asm) kill_ready.simps) (auto intro: exI [of _ "0 :: nat"])
  qed
qed

lemma kill_levels_keeps:
  assumes "kill_levels name st qs ks = Inr (st', qs', ks')" "list_all list_ok qs"
  shows "similar st st' \<and> list_all2 (\<lambda>q q'. list_ok q' \<and> (\<exists>n. q_list q' = drop n (q_list q))) qs qs'"
  using assms
proof (induction qs arbitrary: st ks st' qs' ks')
  case (Cons q qs)
  then obtain st1 q1 ks1 qs1 where k: "kill_ready name st q 0 ks = Inr (st1, q1, ks1)"
    "kill_levels name st1 qs ks1 = Inr (st', qs1, ks')" "qs' = q1 # qs1"
    by (auto simp: result_simps)
  show ?case
    using kill_ready_keeps [OF k(1)] Cons.IH [OF k(2)] Cons.prems(2) similar_trans by (auto simp: k(3))
qed simp

section \<open>The memory operations of the call\<close>

text \<open>A memory operation of any process leaves the scheduler alone, and the PCBs but for one descriptor.\<close>

definition sched_frame :: "machine \<Rightarrow> machine \<Rightarrow> bool" where
  "sched_frame mc mc' \<longleftrightarrow> sched mc' = sched mc \<and> similar (pcbs mc) (pcbs mc')"

lemma sched_frame_refl: "sched_frame mc mc"
  by (simp add: sched_frame_def)

lemma sched_frame_trans: "sched_frame mc mc' \<Longrightarrow> sched_frame mc' mc'' \<Longrightarrow> sched_frame mc mc''"
  using similar_trans by (auto simp: sched_frame_def)

lemma on_caller_sched:
  assumes "on_caller mc p f = Inr (r, mc')"
  shows "sched_frame mc mc'"
proof -
  obtain a where "p = Some a" using assms by (auto simp: on_caller_def result_simps)
  then obtain b c where b: "pcbs mc a = Some b" "mc' = unview mc a b c" using assms on_caller_InrE by metis
  then show ?thesis using similar_update [of "pcbs mc" a b "b\<lparr>p_mm := mm c\<rparr>"] by (simp add: sched_frame_def kept_def on_devices_def)
qed

lemma read_name_sched:
  assumes "read_name mc p r i name = Inr (name', mc')"
  shows "sched_frame mc mc'"
  using assms
proof (induction mc p r i name arbitrary: name' mc' rule: read_name.induct)
  case (1 mc p r i name)
  obtain d mc1 where r: "on_caller mc p (\<lambda>c. and_then (libread c r (word_of_nat i) True) (\<lambda>(_, c, data). Inr (data, c))) =
      Inr (d, mc1)" and i: "\<not> 100 \<le> i"
    and rest: "if d = -1 then mc' = mc1 else read_name mc1 p r (Suc i) (name @ [byte_of_u32 d]) = Inr (name', mc')"
    using 1(2) by (subst (asm) read_name.simps) (auto simp: result_simps split: if_splits)
  have "sched_frame mc1 mc'"
    using rest 1(1) [OF r refl i] sched_frame_refl by (auto split: if_splits)
  then show ?case using on_caller_sched [OF r] sched_frame_trans by blast
qed

lemma free_allocs_sched: "free_allocs h mc p j n = Inr mc' \<Longrightarrow> sched_frame mc mc'"
proof (induction n arbitrary: mc j)
  case (Suc n)
  obtain b x where b: "pcb_at (pcbs mc) p = Inr b" "arr_get (code_text (code b)) j = Inr x"
    using Suc.prems by (auto simp: result_simps)
  obtain mc1 where "sched_frame mc mc1" "free_allocs h mc1 p (j + 1) n = Inr mc'"
  proof (cases "opcode x = ALLOC")
    case True
    note run = Suc.prems b True
    obtain m where m: "p_mm b = Some m" using run by (cases "p_mm b") simp_all
    obtain v where v: "chain_nth (mmap m) 0 = Inr v" using run m by (cases "chain_nth (mmap m) 0") simp_all
    let ?o = "on_caller mc p (\<lambda>c. mm_free h c (int_of_ulong (vm_id v)) (int_of_u32 (arg_0 x)))"
    obtain y where y: "?o = Inr y" using run m v by (cases ?o) simp_all
    have "sched_frame mc (snd y)" using on_caller_sched [of mc p _ "fst y" "snd y"] y by simp
    then show ?thesis using that run m v y by (simp add: case_prod_unfold)
  next
    case False
    then show ?thesis using that [OF sched_frame_refl] Suc.prems b by simp
  qed
  then show ?case using Suc.IH sched_frame_trans by blast
qed (simp add: sched_frame_refl)

lemma free_killed_sched: "free_killed h mc ps = Inr mc' \<Longrightarrow> sched_frame mc mc'"
proof (induction ps arbitrary: mc)
  case (Cons p ps)
  then obtain b where b: "pcb_at (pcbs mc) p = Inr b" by (auto simp: result_simps)
  with Cons.prems obtain mc1 where "free_allocs h mc p 0 (unat (code_size (code b))) = Inr mc1" "free_killed h mc1 ps = Inr mc'"
    by (auto simp: result_simps)
  then show ?case using Cons.IH free_allocs_sched sched_frame_trans by blast
qed (simp add: sched_frame_refl)

section \<open>The call\<close>

lemma drop_levels:
  assumes "list_all2 (\<lambda>q q'. list_ok q' \<and> (\<exists>n. q_list q' = drop n (q_list q))) qs qs'"
  shows "mset (concat (map q_list qs')) \<subseteq># mset (concat (map q_list qs))"
  using assms
proof (induction rule: list_all2_induct)
  case (Cons q qs q' qs')
  have "mset (drop n l) \<subseteq># mset l" for n and l :: "pcb_ptr list"
    by (metis append_take_drop_id mset_append mset_subset_eq_add_right)
  then have "mset (q_list q') \<subseteq># mset (q_list q)" using Cons.hyps(1) by metis
  then show ?case using Cons.IH by (simp add: subset_mset.add_mono)
qed simp

lemma kill_levels_pool:
  assumes "pool_ok st s" "similar st st'" "list_ok rl"
    and "list_all2 (\<lambda>q q'. list_ok q' \<and> (\<exists>n. q_list q' = drop n (q_list q))) (mlq_ready_queue s) qs'"
  shows "pool_ok st' (s\<lparr>running_list := rl, mlq_ready_queue := qs'\<rparr>)"
proof -
  have s: "length (mlq_ready_queue s) = 140" and lv: "levels_ok st s"
    using assms(1) by (simp_all add: pool_ok_def sched_ok_def levels_ok_def)
  have len: "length qs' = 140" using s list_all2_lengthD [OF assms(4)] by simp
  have q: "queue_ok st' (qs' ! i) \<and> (\<forall>p \<in> set (q_list (qs' ! i)). uint (prio_of st' p) = int i)" if "i < 140" for i
  proof -
    have "list_ok (qs' ! i)" and d: "\<exists>n. q_list (qs' ! i) = drop n (level s i)"
      using list_all2_nthD [OF assms(4), of i] that s by auto
    have "p \<in> set (level s i)" if "p \<in> set (q_list (qs' ! i))" for p
      using d that in_set_dropD by metis
    then show ?thesis
      using lv \<open>i < 140\<close> \<open>list_ok (qs' ! i)\<close> similar_live [OF assms(2)]
      by (auto simp: levels_ok_def queue_ok_def list_ok_def)
  qed
  then have "levels_ok st' (s\<lparr>running_list := rl, mlq_ready_queue := qs'\<rparr>)"
    using lv len by (simp add: levels_ok_def)
  then show ?thesis using assms(1,3) by (simp add: pool_ok_def sched_ok_def)
qed

lemma pool_similar:
  assumes "pool_ok st s" "similar st st'"
  shows "pool_ok st' s"
  using assms(1) similar_live [OF assms(2)]
  by (simp add: pool_ok_def sched_ok_def levels_ok_def queue_ok_def)

text \<open>What any instruction keeps of the scheduler: a level may only lose processes at its front.\<close>

definition fronts_dropped :: "sched_t \<Rightarrow> sched_t \<Rightarrow> bool" where
  "fronts_dropped s s' \<longleftrightarrow> slot s' = slot s \<and> MarkedPrior s' = MarkedPrior s \<and>
     (\<forall>i < 140. \<exists>n. level s' i = drop n (level s i))"

lemma fronts_dropped_refl [simp]: "fronts_dropped s s"
  unfolding fronts_dropped_def by (auto intro: exI [of _ 0])

definition pool_shrinks :: "machine \<Rightarrow> machine \<Rightarrow> bool" where
  "pool_shrinks mc mc' \<longleftrightarrow> similar (pcbs mc) (pcbs mc') \<and> pool_ok (pcbs mc') (sched mc') \<and>
     waiting (sched mc') \<subseteq># waiting (sched mc) \<and> fronts_dropped (sched mc) (sched mc')"

lemma killall_pool:
  assumes "killall_call h mc p rs = Inr (r, mc')" "pool_ok (pcbs mc) (sched mc)"
  shows "pool_shrinks mc mc'"
proof -
  obtain name mc1 b st rl ks st' qs ks' where n: "read_name mc p (a1 rs) 0 [] = Inr (name, mc1)"
    and run: "kill_running name (pcbs mc1) (running_list (sched mc1)) 0 [] = Inr (st, rl, ks)"
    and lev: "kill_levels name st (mlq_ready_queue (sched mc1)) ks = Inr (st', qs, ks')"
    and fr: "free_killed h (mc1\<lparr>pcbs := st', sched := (sched mc1)\<lparr>running_list := rl, mlq_ready_queue := qs\<rparr>\<rparr>) ks' = Inr mc'"
    using assms(1) by (auto simp: killall_call_def Let_def result_simps)
  have mc1: "sched mc1 = sched mc" "similar (pcbs mc) (pcbs mc1)"
    using read_name_sched [OF n] by (simp_all add: sched_frame_def)
  have pool: "pool_ok (pcbs mc1) (sched mc1)" using pool_similar assms(2) mc1 by simp
  have lo: "list_all list_ok (mlq_ready_queue (sched mc1))"
    using levels_ok_queues pool by (auto simp: pool_ok_def sched_ok_def list_all_iff)
  have st: "similar (pcbs mc1) st" "list_ok rl"
    using kill_running_keeps [OF run] pool by (simp_all add: pool_ok_def)
  have st': "similar st st'"
    "list_all2 (\<lambda>q q'. list_ok q' \<and> (\<exists>n. q_list q' = drop n (q_list q))) (mlq_ready_queue (sched mc1)) qs"
    using kill_levels_keeps [OF lev lo] by simp_all
  let ?s = "(sched mc1)\<lparr>running_list := rl, mlq_ready_queue := qs\<rparr>"
  have mc': "sched mc' = ?s" "similar st' (pcbs mc')"
    using free_killed_sched [OF fr] by (simp_all add: sched_frame_def)
  have sim: "similar (pcbs mc1) (pcbs mc')" using st(1) st'(1) mc'(2) similar_trans by blast
  have "pool_ok (pcbs mc') (sched mc')" unfolding mc'(1) by (rule kill_levels_pool [OF pool sim st(2) st'(2)])
  moreover have "waiting (sched mc') \<subseteq># waiting (sched mc)"
    using drop_levels [OF st'(2)] by (simp add: mc'(1) mc1(1) waiting_def)
  moreover have "length (mlq_ready_queue (sched mc1)) = 140"
    using pool by (simp add: pool_ok_def sched_ok_def levels_ok_def)
  with st'(2) have "fronts_dropped (sched mc) (sched mc')"
    by (simp add: mc'(1) mc1(1) fronts_dropped_def list_all2_conv_all_nth)
  ultimately show ?thesis using similar_trans [OF mc1(2) sim] by (simp add: pool_shrinks_def)
qed

lemma own_memory_pool:
  assumes "own_memory a b mc mc'" "pcbs mc a = Some b" "pool_ok (pcbs mc) (sched mc)"
  shows "pool_shrinks mc mc' \<and> sched mc' = sched mc"
proof -
  obtain m where f: "sched mc' = sched mc" "\<And>x. x \<noteq> a \<Longrightarrow> pcbs mc' x = pcbs mc x" "pcbs mc' a = Some (b\<lparr>p_mm := m\<rparr>)"
    using assms(1) by (auto simp: own_memory_def)
  have "pcbs mc' = (pcbs mc)(a \<mapsto> b\<lparr>p_mm := m\<rparr>)" using f(2,3) by (auto simp: fun_eq_iff)
  then have "similar (pcbs mc) (pcbs mc')" using similar_update [of "pcbs mc" a b "b\<lparr>p_mm := m\<rparr>"] assms(2) by (simp add: kept_def on_devices_def)
  then show ?thesis using pool_similar [OF assms(3)] f(1) by (simp add: pool_shrinks_def)
qed

text \<open>The next instruction of the process is the system call \<open>killall\<close>.\<close>

definition at_killall :: "pcb_t \<Rightarrow> bool" where
  "at_killall b \<longleftrightarrow> pc b < code_size (code b) \<and>
     (case arr_get (code_text (code b)) (uint (pc b)) of Inl _ \<Rightarrow> False | Inr x \<Rightarrow> \<not> no_killall x)"

lemma run_pool:
  assumes "run h mc (Some a) = Inr (r, mc')" "pcbs mc a = Some b" "pool_ok (pcbs mc) (sched mc)"
  shows "pool_shrinks mc mc' \<and> (at_killall b \<or> sched mc' = sched mc)"
proof (cases "pc b < code_size (code b)")
  case True
  let ?b = "b\<lparr>pc := pc b + 1\<rparr>"
  let ?mc = "mc\<lparr>pcbs := (pcbs mc)(a \<mapsto> ?b)\<rparr>"
  obtain x where x: "arr_get (code_text (code b)) (uint (pc b)) = Inr x" and e: "exec_ins h ?mc (Some a) x = Inr (r, mc')"
    using assms(1,2) True by (cases "arr_get (code_text (code b)) (uint (pc b))") (auto simp: run_def pcb_at_def split: if_splits)
  have sim: "similar (pcbs mc) (pcbs ?mc)" using similar_update [of "pcbs mc" a b ?b] assms(2) by (simp add: kept_def on_devices_def)
  have pool: "pool_ok (pcbs ?mc) (sched ?mc)" using pool_similar [OF assms(3) sim] by simp
  have "pool_shrinks ?mc mc' \<and> (at_killall b \<or> sched mc' = sched ?mc)"
  proof (cases "no_killall x")
    case nk: True
    have "pcbs ?mc a = Some ?b" by simp
    then show ?thesis using own_memory_pool [OF exec_ins_frame [OF e _ nk] _ pool] by simp
  next
    case False
    then have "killall_call h ?mc (Some a) \<lparr>a1 = arg_1 x, a2 = arg_2 x, a3 = arg_3 x\<rparr> = Inr (r, mc')"
      using e by (auto simp: no_killall_def exec_ins_def libsyscall_def syscall_def syscalltbl_def)
    then show ?thesis using killall_pool [OF _ pool] False True x by (simp add: at_killall_def)
  qed
  then show ?thesis using similar_trans [OF sim] by (simp add: pool_shrinks_def)
next
  case False
  then have "mc' = mc" using assms(1,2) by (auto simp: run_def pcb_at_def split: if_splits)
  then show ?thesis using assms(3) by (simp add: pool_shrinks_def)
qed

lemma safe_code: "list_all no_killall (code_text (code b)) \<Longrightarrow> \<not> at_killall b"
  by (auto simp: at_killall_def list_all_iff dest: arr_get_mem split: sum.splits)

end
