(* ===== verification/System.thy ===== *)
theory System
  imports Run Killall
begin

text \<open>
  The invariant of the running simulator: where each process is. A process control block is
  waiting at a level of the scheduler, held by one CPU, or being prepared by the loader.
  The scheduler enters through its contract only, the locale \<open>ready_pool\<close>; every step of the
  system is shown to be a step of an abstract machine that moves processes between places.
\<close>

section \<open>The contract of the ready queues\<close>

definition admissible :: "pcb_store \<Rightarrow> pcb_ptr \<Rightarrow> bool" where
  "admissible st p \<longleftrightarrow> live st p \<and> uint (prio_of st p) < 140"

locale ready_pool =
  fixes get :: "pcb_store \<Rightarrow> 's \<Rightarrow> (pcb_ptr \<times> 's) result"
    and put :: "pcb_store \<Rightarrow> 's \<Rightarrow> pcb_ptr \<Rightarrow> (pcb_store \<times> 's) result"
    and ok :: "pcb_store \<Rightarrow> 's \<Rightarrow> bool"
    and ready :: "'s \<Rightarrow> pcb_ptr multiset"
    and room :: nat
  assumes get_law: "ok st s \<Longrightarrow> \<exists>p s'. get st s = Inr (p, s') \<and> ok st s' \<and>
       (if p = None then ready s' = ready s else ready s = add_mset p (ready s'))"
    and put_law: "ok st s \<Longrightarrow> admissible st p \<Longrightarrow> \<exists>st' s'. put st s p = Inr (st', s') \<and> ok st' s' \<and> similar st st' \<and>
       (ready s' = add_mset p (ready s) \<or> ready s' = ready s \<and> room \<le> size (ready s))"
    and ready_law: "ok st s \<Longrightarrow> p \<in># ready s \<Longrightarrow> admissible st p"
    and frame_law: "ok st s \<Longrightarrow> \<forall>p \<in># ready s. live st' p \<and> prio_of st' p = prio_of st p \<Longrightarrow> ok st' s"
begin

lemma get_admissible:
  assumes "ok st s" "get st s = Inr (p, s')"
  shows "ok st s' \<and> (p = None \<and> ready s' = ready s \<or> admissible st p \<and> ready s = add_mset p (ready s'))"
proof -
  have "ok st s'" "if p = None then ready s' = ready s else ready s = add_mset p (ready s')"
    using get_law [OF assms(1)] assms(2) by auto
  then show ?thesis using ready_law [OF assms(1), of p] by (auto split: if_splits)
qed

lemma put_conserves:
  assumes "ok st s" "admissible st p" "put st s p = Inr (st', s')"
  shows "ok st' s' \<and> similar st st' \<and>
     (ready s' = add_mset p (ready s) \<or> ready s' = ready s \<and> room \<le> size (ready s))"
  using put_law [OF assms(1,2)] assms(3) by auto

lemma ok_similar: "ok st s \<Longrightarrow> similar st st' \<Longrightarrow> ok st' s"
  using frame_law [of st s st'] ready_law [of st s] by (simp add: similar_live admissible_def)

lemma ok_new:
  assumes "ok st s" "st a = None"
  shows "ok (st(a \<mapsto> b)) s"
proof -
  have "live (st(a \<mapsto> b)) p \<and> prio_of (st(a \<mapsto> b)) p = prio_of st p" if "live st p" for p
    using that assms(2) by (auto simp: live_def prio_of_def pcb_at_def)
  then show ?thesis using frame_law [OF assms(1)] ready_law [OF assms(1)] by (simp add: admissible_def)
qed

lemma ok_free:
  assumes "ok st s" "Some a \<notin># ready s"
  shows "ok (st(a := None)) s"
proof -
  have "live (st(a := None)) p \<and> prio_of (st(a := None)) p = prio_of st p" if "p \<in># ready s" for p
    using that assms(2) ready_law [OF assms(1) that] by (auto simp: admissible_def live_def prio_of_def pcb_at_def)
  then show ?thesis using frame_law [OF assms(1)] by blast
qed

end

lemma served_running: "served st s i p s' \<Longrightarrow> running_list s' = running_list s"
  by (auto simp: served_def)

lemma get_spec_running: "get_spec st s (p, s') \<Longrightarrow> running_list s' = running_list s"
  by (auto simp: get_spec_def new_round_def dest: served_running split: option.splits if_splits)

lemma level_size:
  assumes "levels_ok st s" "i < 140"
  shows "length (level s i) \<le> size (waiting s)"
proof -
  have "i < length (mlq_ready_queue s)" using assms by (simp add: levels_ok_def)
  with waiting_update [of i s "static_queue"] have
    "size (waiting s) + length (q_list static_queue) =
       size (waiting (s\<lparr>mlq_ready_queue := (mlq_ready_queue s)[i := static_queue]\<rparr>)) + length (level s i)"
    by (metis size_mset size_union)
  then show ?thesis by (simp add: static_queue_def q_list_def)
qed

lemma get_proc_law:
  assumes "pool_ok st s"
  shows "\<exists>p s'. get_proc st s = Inr (p, s') \<and> pool_ok st s' \<and>
     (if p = None then waiting s' = waiting s else waiting s = add_mset p (waiting s'))"
proof -
  have ok: "sched_ok st s" using assms by (simp add: pool_ok_def)
  then obtain p s' where g: "get_proc st s = Inr (p, s')" "get_spec st s (p, s')"
    using get_mlq_proc_spec by (fastforce simp: get_proc_def)
  then have "pool_ok st s'"
    using get_spec_ok [OF ok] get_spec_running assms by (auto simp: pool_ok_def)
  moreover have "if p = None then waiting s' = waiting s else waiting s = add_mset p (waiting s')"
    using get_spec_conserves [OF ok g(2)] get_spec_null [OF ok] g(2)
    by (cases p) (auto simp: gives_up_def split: if_splits)
  ultimately show ?thesis using g(1) by blast
qed

lemma put_proc_law:
  assumes "pool_ok st s" "admissible st p"
  shows "\<exists>st' s'. put_proc st s p = Inr (st', s') \<and> pool_ok st' s' \<and> similar st st' \<and>
     (waiting s' = add_mset p (waiting s) \<or> waiting s' = waiting s \<and> 10 \<le> size (waiting s))"
proof -
  obtain a b where p: "p = Some a" "st a = Some b" using assms(2) by (auto simp: admissible_def live_def)
  then have pr: "prio_of st p = prio b" by (simp add: prio_of_def pcb_at_def)
  obtain i where i: "uint (prio b) = int i" "i < 140"
    using assms(2) pr by (metis admissible_def nat_less_iff nat_numeral of_nat_less_iff of_nat_numeral int_nat_eq uint_ge_0)
  have s: "sched_ok st s" "list_ok (running_list s)" "levels_ok st s" using assms(1) by (auto simp: pool_ok_def sched_ok_def)
  obtain s' r where put: "put_proc st s (Some a) = Inr (st(a \<mapsto> link_queues b), s')"
    and app: "appended (s\<lparr>running_list := r\<rparr>) i (Some a) s'" and r: "list_ok r"
    and ok: "sched_ok (st(a \<mapsto> link_queues b)) s'"
    using put_proc_spec [OF s(1,2) p(2) i] by blast
  have run: "running_list s' = r" using app by (auto simp: appended_def)
  have len: "i < length (mlq_ready_queue s)" using s(3) i(2) by (simp add: levels_ok_def)
  have "waiting s' = add_mset p (waiting s) \<or> waiting s' = waiting s \<and> 10 \<le> size (waiting s)"
  proof (cases "length (level s i) < 10")
    case True
    then show ?thesis using appended_waiting [OF app] len p(1) by simp
  next
    case False
    then obtain q where "s' = (s\<lparr>running_list := r\<rparr>)\<lparr>mlq_ready_queue := (mlq_ready_queue s)[i := q]\<rparr>" "q_list q = level s i"
      using app by (auto simp: appended_def)
    then have "waiting s' = waiting s"
      using waiting_update [of i "s\<lparr>running_list := r\<rparr>" q] len by simp
    then show ?thesis using False level_size [OF s(3) i(2)] by simp
  qed
  moreover have "similar st (st(a \<mapsto> link_queues b))"
    by (rule similar_update, rule p(2)) (simp add: kept_def on_devices_def link_queues_def)
  ultimately show ?thesis using put p(1) ok r run by (auto simp: pool_ok_def)
qed

lemma waiting_admissible: "pool_ok st s \<Longrightarrow> p \<in># waiting s \<Longrightarrow> admissible st p"
  using in_waiting [of st s p]
  by (auto simp: pool_ok_def sched_ok_def levels_ok_def queue_ok_def admissible_def)

interpretation pool: ready_pool get_proc put_proc pool_ok waiting 10
proof
  show "pool_ok st' s" if "pool_ok st s" "\<forall>p \<in># waiting s. live st' p \<and> prio_of st' p = prio_of st p" for st s st'
    using that levels_ok_frame [of st s st'] by (simp add: pool_ok_def sched_ok_def)
qed (fact get_proc_law put_proc_law waiting_admissible)+


section \<open>Places\<close>

text \<open>What a CPU holds: between \<open>free\<close> or \<open>put_proc\<close> and the next \<open>get_proc\<close> its variable is stale.\<close>

definition holding :: "cpu_t \<Rightarrow> pcb_ptr list" where
  "holding c = (if c_pc c = C_Fetch \<or> c_proc c = None then [] else [c_proc c])"

definition preparing :: "ld_t \<Rightarrow> bool" where
  "preparing l \<longleftrightarrow> l_pc l \<in> {L_Start, L_Sleep, L_Asleep}"

definition places :: "os_t \<Rightarrow> pcb_ptr multiset" where
  "places s = waiting (sch s) + mset (concat (map holding (cpus s))) +
     (if preparing (ldr s) then {#l_proc (ldr s)#} else {#})"

text \<open>How many processes the loader has loaded.\<close>

definition loaded :: "os_t \<Rightarrow> nat" where
  "loaded s = l_i (ldr s) + (if preparing (ldr s) then 1 else 0)"

text \<open>The abstract machine: how many processes have been loaded, which exist, and where they
  are. Processes come into being; those that have finished (the set \<open>fin\<close>) end; and a process is
  lost when at least ten others wait somewhere (a ready queue has ten entries).\<close>

type_synonym place_t = "nat \<times> nat set \<times> pcb_ptr multiset"

inductive place_step :: "nat set \<Rightarrow> place_t \<Rightarrow> place_t \<Rightarrow> bool" for fin where
  keep: "place_step fin (n, D, M) (n, D, M)"
| spawn: "a \<notin> D \<Longrightarrow> place_step fin (n, D, M) (Suc n, insert a D, add_mset (Some a) M)"
| retire: "a \<in> fin \<Longrightarrow> place_step fin (n, D, add_mset (Some a) M) (n, D - {a}, M)"
| lose: "10 \<le> size M \<Longrightarrow> place_step fin (n, D, add_mset (Some a) M) (n, D, M)"

definition place_of :: "os_t \<Rightarrow> place_t" where
  "place_of s = (loaded s, dom (store s), places s)"

text \<open>The processes that have executed all their instructions.\<close>

definition finished :: "os_t \<Rightarrow> nat set" where
  "finished s = {a. \<exists>b. store s a = Some b \<and> pc b = code_size (code b)}"

text \<open>A CPU is about to execute a system call \<open>killall\<close>.\<close>

definition killing :: "os_t \<Rightarrow> bool" where
  "killing s \<longleftrightarrow> (\<exists>c \<in> set (cpus s). c_pc c = C_Run \<and>
     (case c_proc c of None \<Rightarrow> False | Some a \<Rightarrow> (case store s a of None \<Rightarrow> False | Some b \<Rightarrow> at_killall b)))"

text \<open>A step of the abstract machine, or the removal of processes by \<open>killall\<close>.\<close>

definition place_move :: "os_t \<Rightarrow> place_t \<Rightarrow> place_t \<Rightarrow> bool" where
  "place_move s x y \<longleftrightarrow> place_step (finished s) x y \<or>
     killing s \<and> fst y = fst x \<and> fst (snd y) = fst (snd x) \<and> snd (snd y) \<subseteq># snd (snd x)"

lemma place_move_step: "place_step (finished s) x y \<Longrightarrow> place_move s x y"
  by (simp add: place_move_def)

lemma place_move_keep: "place_move s x x"
  by (cases x) (simp add: place_move_def place_step.keep)

lemma place_move_dom: "place_move s x y \<Longrightarrow> finite (fst (snd x)) \<Longrightarrow> finite (fst (snd y))"
  by (auto simp: place_move_def elim: place_step.cases)

lemma place_move_quiet: "place_move s x y \<Longrightarrow> \<not> killing s \<Longrightarrow> place_step (finished s) x y"
  by (simp add: place_move_def)

section \<open>Invariant\<close>

text \<open>Every PCB holds one of the given programs with its priority.\<close>

definition code_ok :: "(code_seg_t \<times> u32) set \<Rightarrow> pcb_store \<Rightarrow> bool" where
  "code_ok C st \<longleftrightarrow> (\<forall>a b. st a = Some b \<longrightarrow> (code b, prio b) \<in> C)"

definition cpu_ok :: "pcb_store \<Rightarrow> cpu_t \<Rightarrow> bool" where
  "cpu_ok st c \<longleftrightarrow> (\<forall>p \<in> set (holding c). admissible st p) \<and> (c_pc c = C_Run \<longrightarrow> c_proc c \<noteq> None) \<and>
     (c_pc c \<in> {C_Detach, C_Stopped} \<longrightarrow> c_proc c = None)"

definition ld_ok :: "pcb_store \<Rightarrow> ld_t \<Rightarrow> bool" where
  "ld_ok st l \<longleftrightarrow> (preparing l \<longrightarrow> live st (l_proc l))"

definition os_inv :: "(code_seg_t \<times> u32) set \<Rightarrow> os_t \<Rightarrow> bool" where
  "os_inv C s \<longleftrightarrow> pool_ok (store s) (sch s) \<and> (\<forall>p. Multiset.count (places s) p \<le> 1) \<and> code_ok C (store s) \<and>
     (\<forall>c \<in> set (cpus s). cpu_ok (store s) c) \<and> ld_ok (store s) (ldr s)"

text \<open>The programs the configuration names, with their priorities, and that they do not call
  \<open>killall\<close>.\<close>

definition programs :: "env_t \<Rightarrow> config_t \<Rightarrow> (code_seg_t \<times> u32) set" where
  "programs env c = {(code b, ucast pr) | b i n n' pr. i < length (ld_processes c) \<and>
     load (env_heap env i) (env_fs env) n (ld_path (ld_processes c ! i)) = Inr (b, n') \<and>
     ld_prio (ld_processes c ! i) = Some pr}"

definition programs_ok :: "env_t \<Rightarrow> config_t \<Rightarrow> bool" where
  "programs_ok env c \<longleftrightarrow> (\<forall>(x, _) \<in> programs env c. list_all no_killall (code_text x))"

text \<open>No program changes shared data without a lock (\<open>killall\<close>, \<open>memmap\<close> with \<open>SYSMEM_INC_OP\<close>). For such
  programs a call of \<open>run\<close> may be taken for one step.\<close>

definition serial_programs :: "env_t \<Rightarrow> config_t \<Rightarrow> bool" where
  "serial_programs env c \<longleftrightarrow> (\<forall>(x, _) \<in> programs env c. list_all keeps_locks (code_text x))"

lemma serial_programs_ok: "serial_programs env c \<Longrightarrow> programs_ok env c"
  by (force simp: serial_programs_def programs_ok_def list_all_iff keeps_locks_def)

lemma holding_update:
  assumes "k < length cs"
  shows "mset (concat (map holding (cs[k := c]))) + mset (holding (cs ! k)) =
     mset (concat (map holding cs)) + mset (holding c)"
proof -
  have "mset (concat (map holding cs)) = mset (concat (map holding (take k cs @ cs ! k # drop (Suc k) cs)))"
    using assms by (simp only: id_take_nth_drop [symmetric])
  then show ?thesis using assms by (simp add: upd_conv_take_nth_drop)
qed

lemma places_cpu:
  assumes "k < length (cpus s)" "cpus t = (cpus s)[k := c]" "ldr t = ldr s"
  shows "places t + mset (holding (cpus s ! k)) + waiting (sch s) = places s + mset (holding c) + waiting (sch t)"
  using holding_update [OF assms(1), of c] by (simp add: places_def assms(2,3) ac_simps)

lemma cpu_ok_similar: "similar st st' \<Longrightarrow> cpu_ok st c \<Longrightarrow> cpu_ok st' c"
  by (simp add: cpu_ok_def admissible_def similar_live)

lemma ld_ok_similar: "similar st st' \<Longrightarrow> ld_ok st l \<Longrightarrow> ld_ok st' l"
  by (simp add: ld_ok_def similar_live)

lemma code_ok_similar: "similar st st' \<Longrightarrow> code_ok C st \<Longrightarrow> code_ok C st'"
  unfolding code_ok_def
proof (intro allI impI)
  fix a b' assume "similar st st'" "\<forall>a b. st a = Some b \<longrightarrow> (code b, prio b) \<in> C" "st' a = Some b'"
  with similar_at [of st st' a] show "(code b', prio b') \<in> C" by (auto simp: kept_def)
qed

text \<open>A step of CPU \<open>k\<close> that changes the PCBs at most in their memory, and the ready queues.\<close>

lemma os_inv_cpu: "os_inv C s \<Longrightarrow> k < length (cpus s) \<Longrightarrow> cpu_ok (store s) (cpus s ! k)"
  by (simp add: os_inv_def)

lemma os_inv_pool: "os_inv C s \<Longrightarrow> pool_ok (store s) (sch s)"
  by (simp add: os_inv_def)

lemma cpu_shrinks:
  assumes inv: "os_inv C s" and k: "k < length (cpus s)"
    and t: "cpus t = (cpus s)[k := c]" "ldr t = ldr s" "similar (store s) (store t)"
    and ok: "pool_ok (store t) (sch t)" "cpu_ok (store t) c"
    and le: "waiting (sch t) + mset (holding c) \<subseteq># waiting (sch s) + mset (holding (cpus s ! k))"
  shows "os_inv C t \<and> places t \<subseteq># places s"
proof -
  have "places t + (waiting (sch s) + mset (holding (cpus s ! k))) = places s + (waiting (sch t) + mset (holding c))"
    using places_cpu [OF k t(1,2)] by (simp add: ac_simps)
  then have le': "places t \<subseteq># places s" using le
    by (metis mset_subset_eq_exists_conv subset_mset.add_le_cancel_right subset_mset.add_left_mono)
  have "Multiset.count (places t) p \<le> 1" for p
    using inv mset_subset_eq_count [OF le', of p] by (meson le_trans os_inv_def)
  moreover have "cpu_ok (store t) x" if "x \<in> set (cpus t)" for x
  proof -
    have "x = c \<or> x \<in> set (cpus s)" using that t(1) set_update_subset_insert by fastforce
    then show ?thesis using ok(2) inv cpu_ok_similar [OF t(3)] by (auto simp: os_inv_def)
  qed
  ultimately have "os_inv C t"
    using inv ok(1) ld_ok_similar [OF t(3)] code_ok_similar [OF t(3)] t(2) by (simp add: os_inv_def)
  then show ?thesis using le' by blast
qed

lemma cpu_change:
  assumes inv: "os_inv C s" and k: "k < length (cpus s)"
    and t: "cpus t = (cpus s)[k := c]" "ldr t = ldr s" "similar (store s) (store t)"
    and ok: "pool_ok (store t) (sch t)" "cpu_ok (store t) c"
    and le: "waiting (sch t) + mset (holding c) = waiting (sch s) + mset (holding (cpus s ! k))"
  shows "os_inv C t \<and> place_move s (place_of s) (place_of t)"
proof -
  have "places t + (waiting (sch s) + mset (holding (cpus s ! k))) = places s + (waiting (sch s) + mset (holding (cpus s ! k)))"
    using places_cpu [OF k t(1,2)] le by (simp add: ac_simps)
  then have "places t = places s" by (simp only: add_right_cancel)
  then have "place_of t = place_of s" using dom_similar [OF t(3)] t(2) by (simp add: place_of_def loaded_def)
  then show ?thesis using cpu_shrinks [OF inv k t ok] le place_move_keep by simp
qed

text \<open>The same when processes have left the ready queues.\<close>

lemma cpu_kills:
  assumes inv: "os_inv C s" and k: "k < length (cpus s)"
    and t: "cpus t = (cpus s)[k := c]" "ldr t = ldr s" "similar (store s) (store t)"
    and ok: "pool_ok (store t) (sch t)" "cpu_ok (store t) c"
    and le: "waiting (sch t) \<subseteq># waiting (sch s)" "holding c = holding (cpus s ! k)" and kill: "killing s"
  shows "os_inv C t \<and> place_move s (place_of s) (place_of t)"
proof -
  have "os_inv C t" "places t \<subseteq># places s" using cpu_shrinks [OF inv k t ok] le by simp_all
  then show ?thesis
    using kill dom_similar [OF t(3)] t(2) by (simp add: place_move_def place_of_def loaded_def)
qed


text \<open>Getting a process: CPU \<open>k\<close> held nothing before.\<close>

lemma cpu_fetch:
  assumes inv: "os_inv C s" and k: "k < length (cpus s)" and h: "holding (cpus s ! k) = []"
    and f: "fetch s = Inr (p, s')"
    and c: "c_pc (f p) \<notin> {C_Fetch, C_Run, C_Detach, C_Stopped}" "c_proc (f p) = p"
  shows "os_inv C (set_cpu s' k (f p)) \<and> place_move s (place_of s) (place_of (set_cpu s' k (f p)))"
proof -
  obtain sc where g: "get_proc (store s) (sch s) = Inr (p, sc)" and s': "s' = set_sch s sc"
    using f by (auto simp: fetch_def result_simps)
  have "pool_ok (store s) (sch s)" using inv by (simp add: os_inv_def)
  from pool.get_admissible [OF this g] have ok: "pool_ok (store s) sc"
    and w: "p = None \<and> waiting sc = waiting (sch s) \<or> admissible (store s) p \<and> waiting (sch s) = add_mset p (waiting sc)" by auto
  have "holding (f p) = (if p = None then [] else [p])" using c by (auto simp: holding_def)
  then show ?thesis
    using cpu_change [OF inv k, of "set_cpu s' k (f p)" "f p"] ok w c h
    by (auto simp: s' cpu_ok_def admissible_def live_def)
qed

lemma count_held:
  assumes "os_inv C s" "k < length (cpus s)" "holding (cpus s ! k) = [p]"
  shows "\<exists>M. places s = add_mset p M \<and> p \<notin># M \<and> waiting (sch s) \<subseteq># M"
proof -
  let ?M = "places s - {#p#}"
  obtain c where "holding c = []" using holding_def by (metis cpu_t.select_convs(1))
  with holding_update [OF assms(2), of c] assms(3)
  have eq: "mset (concat (map holding (cpus s))) = add_mset p (mset (concat (map holding ((cpus s)[k := c]))))" by simp
  then have "places s = add_mset p ?M" "waiting (sch s) \<subseteq># ?M" by (simp_all add: places_def)
  moreover have "p \<notin># ?M"
  proof -
    have "Multiset.count (places s) p \<le> 1" using assms(1) by (simp add: os_inv_def)
    then show ?thesis by (simp add: not_in_iff)
  qed
  ultimately show ?thesis by blast
qed

lemma held_apart:
  assumes inv: "os_inv C s" and k: "k < length (cpus s)" and h: "holding (cpus s ! k) = [p]"
  shows "p \<notin># waiting (sch s)" "preparing (ldr s) \<Longrightarrow> l_proc (ldr s) \<noteq> p"
proof -
  obtain M where M: "places s = add_mset p M" "p \<notin># M" "waiting (sch s) \<subseteq># M"
    using count_held [OF inv k h] by blast
  then show "p \<notin># waiting (sch s)" by (meson mset_subset_eqD)
  have one: "Multiset.count (places s) p = 1" using M by (simp add: not_in_iff)
  have "p \<in> set (concat (map holding (cpus s)))" using k h by (force simp: in_set_conv_nth)
  then have "p \<in># mset (concat (map holding (cpus s)))" by (simp only: set_mset_mset)
  then have "1 \<le> Multiset.count (mset (concat (map holding (cpus s)))) p" by (simp only: count_greater_eq_one_iff)
  then show "l_proc (ldr s) \<noteq> p" if "preparing (ldr s)"
    using one that by (auto simp: places_def)
qed

lemma put_proc_store:
  assumes "put_proc st s (Some a) = Inr (st', s')"
  obtains b where "st a = Some b" "st' = st(a \<mapsto> link_queues b)"
  using assms by (auto simp: put_proc_def note_running_def result_simps)

lemma places_others:
  assumes "os_inv C s" "k < length (cpus s)" "holding (cpus s ! k) = [p]" "j < length (cpus s)" "j \<noteq> k"
  shows "p \<notin> set (holding (cpus s ! j))"
proof
  assume p: "p \<in> set (holding (cpus s ! j))"
  let ?c = "(cpus s ! k)\<lparr>c_proc := None\<rparr>"
  have "holding ?c = []" by (simp add: holding_def)
  with holding_update [OF assms(2), of ?c] assms(3)
  have eq: "mset (concat (map holding (cpus s))) = add_mset p (mset (concat (map holding ((cpus s)[k := ?c]))))" by simp
  have "cpus s ! j \<in> set ((cpus s)[k := ?c])" using assms(4,5) by (metis length_list_update nth_list_update_neq nth_mem)
  then have "p \<in> set (concat (map holding ((cpus s)[k := ?c])))" using p by auto
  then have "p \<in># mset (concat (map holding ((cpus s)[k := ?c])))" by (simp only: set_mset_mset)
  then obtain n where "Multiset.count (mset (concat (map holding ((cpus s)[k := ?c])))) p = Suc n"
    by (metis count_greater_zero_iff gr0_implies_Suc)
  then have "2 \<le> Multiset.count (places s) p" by (simp add: places_def eq)
  moreover have "Multiset.count (places s) p \<le> 1" using assms(1) by (simp add: os_inv_def)
  ultimately show False by simp
qed

text \<open>Giving a process up: its place disappears, the others stay. \<open>D\<close> is the new set of PCBs.\<close>

lemma cpu_gives_up:
  assumes inv: "os_inv C s" and k: "k < length (cpus s)" and h: "holding (cpus s ! k) = [Some a]"
    and t: "cpus t = (cpus s)[k := c]" "ldr t = ldr s" "waiting (sch t) = waiting (sch s)" "holding c = []" "c_pc c = C_Fetch"
    and ok: "pool_ok (store t) (sch t)" "code_ok C (store t)"
    and live: "\<And>p. p \<noteq> Some a \<Longrightarrow> live (store t) p = live (store s) p \<and> prio_of (store t) p = prio_of (store s) p"
    and step: "\<And>M. places s = add_mset (Some a) M \<Longrightarrow> waiting (sch s) \<subseteq># M \<Longrightarrow>
      place_move s (place_of s) (loaded s, dom (store t), M)"
  shows "os_inv C t \<and> place_move s (place_of s) (place_of t)"
proof -
  obtain M where M: "places s = add_mset (Some a) M" "Some a \<notin># M" "waiting (sch s) \<subseteq># M"
    using count_held [OF inv k h] by blast
  have pt: "places t = M" using places_cpu [OF k t(1,2)] t(3,4) h M(1) by (simp add: ac_simps)
  have "Multiset.count (places t) p \<le> 1" for p
  proof -
    have "Multiset.count (places s) p \<le> 1" using inv by (simp add: os_inv_def)
    then show ?thesis using pt M(1) by (simp split: if_splits)
  qed
  moreover have "cpu_ok (store t) x" if x: "x \<in> set (cpus t)" for x
  proof -
    obtain j where j: "j < length (cpus s)" "x = (cpus s)[k := c] ! j" using x t(1) by (auto simp: in_set_conv_nth)
    show ?thesis
    proof (cases "j = k")
      case True
      then show ?thesis using j t(4,5) by (simp add: cpu_ok_def)
    next
      case False
      then have "x = cpus s ! j" "Some a \<notin> set (holding x)"
        using j places_others [OF inv k h] by auto
      moreover have "cpu_ok (store s) (cpus s ! j)" using inv j(1) by (simp add: os_inv_def)
      ultimately show ?thesis using live unfolding cpu_ok_def admissible_def by metis
    qed
  qed
  moreover have "ld_ok (store t) (ldr t)"
  proof (cases "preparing (ldr s)")
    case True
    then have "l_proc (ldr s) \<in># places t" using places_cpu [OF k t(1,2)] t(3,4) h by (auto simp: places_def t(2))
    then have "l_proc (ldr s) \<noteq> Some a" using pt M(2) by metis
    then show ?thesis using live inv t(2) by (simp add: ld_ok_def os_inv_def)
  qed (simp add: ld_ok_def t(2))
  ultimately have "os_inv C t" using ok unfolding os_inv_def by blast
  moreover have "place_move s (place_of s) (place_of t)" using step [OF M(1,3)] pt t(2) by (simp add: place_of_def loaded_def)
  ultimately show ?thesis by blast
qed


text \<open>A step that touches the CPU's position and local variables, and the timer, only.\<close>

lemma cpu_local:
  assumes "os_inv C s" "k < length (cpus s)" "cpus t = (cpus s)[k := c]" "ldr t = ldr s" "mach t = mach s"
    "holding c = holding (cpus s ! k)" "cpu_ok (store s) c"
  shows "os_inv C t \<and> place_move s (place_of s) (place_of t)"
  using assms os_inv_pool [OF assms(1)] by (intro cpu_change [OF assms(1-4)]) simp_all

lemma retire_step:
  assumes inv: "os_inv C s" and k: "k < length (cpus s)" and h: "holding (cpus s ! k) = [Some a]"
    and fin: "a \<in> finished s" and c: "c_pc c = C_Fetch"
  shows "os_inv C (set_cpu (set_store s ((store s)(a := None))) k c) \<and>
     place_move s (place_of s) (place_of (set_cpu (set_store s ((store s)(a := None))) k c))"
proof (rule cpu_gives_up [OF inv k h, where c = c])
  let ?t = "set_cpu (set_store s ((store s)(a := None))) k c"
  obtain M where "Some a \<notin># M" "waiting (sch s) \<subseteq># M" using count_held [OF inv k h] by blast
  then have "Some a \<notin># waiting (sch s)" by (meson mset_subset_eqD)
  then show "pool_ok (store ?t) (sch ?t)" using pool.ok_free [OF os_inv_pool [OF inv]] by simp
  show "code_ok C (store ?t)" using inv by (simp add: os_inv_def code_ok_def)
  show "live (store ?t) p = live (store s) p \<and> prio_of (store ?t) p = prio_of (store s) p" if "p \<noteq> Some a" for p
    using that by (cases p) (auto simp: live_def prio_of_def pcb_at_def)
  have "dom (store ?t) = dom (store s) - {a}" by auto
  then show "place_move s (place_of s) (loaded s, dom (store ?t), M)" if "places s = add_mset (Some a) M" for M
    using that place_step.retire [OF fin] by (simp add: place_of_def place_move_step)
qed (use c in \<open>simp_all add: holding_def\<close>)

lemma put_back_step:
  assumes inv: "os_inv C s" and k: "k < length (cpus s)" and h: "holding (cpus s ! k) = [Some a]"
    and put: "put_proc (store s) (sch s) (Some a) = Inr (st, sc)" and c: "c_pc c = C_Fetch"
  shows "os_inv C (set_cpu (set_sch (set_store s st) sc) k c) \<and>
     place_move s (place_of s) (place_of (set_cpu (set_sch (set_store s st) sc) k c))"
proof -
  let ?t = "set_cpu (set_sch (set_store s st) sc) k c"
  have "admissible (store s) (Some a)" using os_inv_cpu [OF inv k] h by (simp add: cpu_ok_def)
  from pool.put_conserves [OF os_inv_pool [OF inv] this put]
  have ok: "pool_ok st sc" "similar (store s) st"
    and w: "waiting sc = add_mset (Some a) (waiting (sch s)) \<or> waiting sc = waiting (sch s) \<and> 10 \<le> size (waiting (sch s))" by auto
  have hc: "holding c = []" "cpu_ok st c" using c by (simp_all add: holding_def cpu_ok_def)
  from w show ?thesis
  proof
    assume "waiting sc = add_mset (Some a) (waiting (sch s))"
    then show ?thesis using ok hc h by (intro cpu_change [OF inv k, of ?t c]) simp_all
  next
    assume full: "waiting sc = waiting (sch s) \<and> 10 \<le> size (waiting (sch s))"
    show ?thesis
    proof (rule cpu_gives_up [OF inv k h, where c = c])
      show "place_move s (place_of s) (loaded s, dom (store ?t), M)"
        if "places s = add_mset (Some a) M" "waiting (sch s) \<subseteq># M" for M
      proof -
        have "10 \<le> size M" using full size_mset_mono [OF that(2)] by linarith
        then show ?thesis using that(1) dom_similar [OF ok(2)] place_step.lose by (simp add: place_of_def place_move_step)
      qed
      show "code_ok C (store ?t)" using code_ok_similar [OF ok(2)] inv by (simp add: os_inv_def)
    qed (use ok hc c full similar_live [OF ok(2)] in simp_all)
  qed
qed

lemma run_step_ok:
  assumes inv: "os_inv C s" and k: "k < length (cpus s)" and c: "c_pc (cpus s ! k) = C_Run"
    and r: "cpu_run env s k (cpus s ! k) = Inr t"
  shows "os_inv C t \<and> place_move s (place_of s) (place_of t)"
proof -
  let ?c = "cpus s ! k"
  have ok: "cpu_ok (store s) ?c" using os_inv_cpu [OF inv k] .
  with c obtain a where a: "c_proc ?c = Some a" by (auto simp: cpu_ok_def)
  with ok c obtain b where b: "store s a = Some b" by (auto simp: cpu_ok_def holding_def admissible_def live_def)
  obtain v mc n where run: "run (env_host env) (mach s) (Some a) = Inr (v, mc)"
    and t: "t = set_cpu (s\<lparr>mach := mc\<rparr>) k (?c\<lparr>time_left := n, c_pc := C_Slot\<rparr>)"
    using r a by (auto simp: cpu_run_def result_simps)
  have sim: "similar (store s) (pcbs mc)" and pool: "pool_ok (pcbs mc) (sched mc)"
    and le: "waiting (sched mc) \<subseteq># waiting (sch s)" and kill: "at_killall b \<or> sched mc = sch s"
    using run_pool [OF run b os_inv_pool [OF inv]] by (simp_all add: pool_shrinks_def)
  let ?d = "?c\<lparr>time_left := n, c_pc := C_Slot\<rparr>"
  have ok': "cpu_ok (pcbs mc) ?d"
    using cpu_ok_similar [OF sim ok] c a by (simp add: cpu_ok_def holding_def)
  have h: "holding ?d = holding ?c" using c a by (simp add: holding_def)
  from kill show ?thesis
  proof
    assume "at_killall b"
    then have "killing s" using k c a b unfolding killing_def by (intro bexI [of _ ?c]) simp_all
    then show ?thesis
      using sim pool le ok' h by (intro cpu_kills [OF inv k, where c = ?d]) (simp_all add: t set_cpu_def)
  next
    assume "sched mc = sch s"
    then show ?thesis
      using sim pool ok' h by (intro cpu_change [OF inv k, where c = ?d]) (simp_all add: t set_cpu_def)
  qed
qed

lemma cpu_step_ok:
  assumes inv: "os_inv C s" and k: "k < length (cpus s)" and st: "cpu_step env s k = Some (Inr t)"
  shows "os_inv C t \<and> place_move s (place_of s) (place_of t)"
proof -
  let ?c = "cpus s ! k"
  have ok: "cpu_ok (store s) ?c" using os_inv_cpu [OF inv k] .
  show ?thesis
  proof (cases "c_pc ?c")
    case C_Loop
    then have l: "cpu_loop s k ?c = Inr t" using st by (simp add: cpu_step_def)
    show ?thesis
    proof (cases "c_proc ?c")
      case None
      then have "holding ?c = []" by (simp add: holding_def)
      moreover obtain p s' where "fetch s = Inr (p, s')"
        and "t = set_cpu s' k (?c\<lparr>c_proc := p, c_pc := if p = None then C_Slot else C_Recheck\<rparr>)"
        using l None by (auto simp: cpu_loop_def result_simps)
      ultimately show ?thesis
        using cpu_fetch [OF inv k, where f = "\<lambda>p. ?c\<lparr>c_proc := p, c_pc := if p = None then C_Slot else C_Recheck\<rparr>"] by simp
    next
      case (Some a)
      then have h: "holding ?c = [Some a]" using C_Loop by (simp add: holding_def)
      obtain b where b: "pcb_at (store s) (Some a) = Inr b" using l Some by (auto simp: cpu_loop_def result_simps)
      consider "pc b = code_size (code b)" | "pc b \<noteq> code_size (code b)" "time_left ?c = 0"
        | "pc b \<noteq> code_size (code b)" "time_left ?c \<noteq> 0" by blast
      then show ?thesis
      proof cases
        case 1
        then have fin: "a \<in> finished s" using b by (auto simp: finished_def result_simps)
        from 1 show ?thesis using l Some b retire_step [OF inv k h fin] by (auto simp: cpu_loop_def)
      next
        case 2
        then obtain st sc where "put_proc (store s) (sch s) (Some a) = Inr (st, sc)"
          and "t = set_cpu (set_sch (set_store s st) sc) k (?c\<lparr>c_pc := C_Fetch\<rparr>)"
          using l Some b by (auto simp: cpu_loop_def result_simps)
        then show ?thesis using put_back_step [OF inv k h] by simp
      next
        case 3
        then have "t = set_cpu s k (?c\<lparr>c_pc := C_Recheck\<rparr>)" using l Some b by (simp add: cpu_loop_def)
        then show ?thesis using ok C_Loop
          by (intro cpu_local [OF inv k, where c = "?c\<lparr>c_pc := C_Recheck\<rparr>"]) (auto simp: holding_def cpu_ok_def)
      qed
    qed
  next
    case C_Fetch
    then have "holding ?c = []" by (simp add: holding_def)
    moreover obtain p s' where "fetch s = Inr (p, s')" "t = set_cpu s' k (?c\<lparr>c_proc := p, c_pc := C_Recheck\<rparr>)"
      using st C_Fetch by (auto simp: cpu_step_def result_simps)
    ultimately show ?thesis using cpu_fetch [OF inv k, where f = "\<lambda>p. ?c\<lparr>c_proc := p, c_pc := C_Recheck\<rparr>"] by simp
  next
    case C_Recheck
    then have "t = set_cpu s k (cpu_recheck s ?c)" using st by (simp add: cpu_step_def)
    then show ?thesis using ok C_Recheck
      by (intro cpu_local [OF inv k, where c = "cpu_recheck s ?c"])
        (auto simp: holding_def cpu_ok_def cpu_recheck_def)
  next
    case C_Run
    then show ?thesis using run_step_ok [OF inv k C_Run, of env t] st by (simp add: cpu_step_def)
  next
    case C_Slot
    then show ?thesis using st ok
      by (intro cpu_local [OF inv k, where c = "?c\<lparr>c_pc := C_Wait\<rparr>"]) (auto simp: cpu_step_def Let_def holding_def cpu_ok_def)
  next
    case C_Wait
    then show ?thesis using st ok
      by (intro cpu_local [OF inv k, where c = "?c\<lparr>c_pc := C_Loop\<rparr>"])
        (auto simp: cpu_step_def Let_def holding_def cpu_ok_def split: option.splits)
  next
    case C_Detach
    then show ?thesis using st ok
      by (intro cpu_local [OF inv k, where c = "?c\<lparr>c_pc := C_Stopped\<rparr>"])
        (auto simp: cpu_step_def Let_def holding_def cpu_ok_def)
  qed (use st in \<open>simp add: cpu_step_def\<close>)
qed


text \<open>The loader.\<close>

lemma places_live:
  assumes "os_inv C s" "p \<in># places s"
  shows "live (store s) p"
proof -
  consider "p \<in># waiting (sch s)" | c where "c \<in> set (cpus s)" "p \<in> set (holding c)" | "preparing (ldr s)" "p = l_proc (ldr s)"
    using assms(2) by (auto simp: places_def split: if_splits)
  then show ?thesis
    using assms(1) pool.ready_law [OF os_inv_pool [OF assms(1)]]
    by cases (auto simp: admissible_def os_inv_def cpu_ok_def ld_ok_def)
qed

lemma ld_change:
  assumes inv: "os_inv C s" and t: "cpus t = cpus s" "similar (store s) (store t)"
    and ok: "pool_ok (store t) (sch t)" "ld_ok (store t) (ldr t)" and same: "places t = places s" "loaded t = loaded s"
  shows "os_inv C t \<and> place_move s (place_of s) (place_of t)"
proof -
  have "os_inv C t"
    using inv ok same cpu_ok_similar [OF t(2)] code_ok_similar [OF t(2)] t(1) by (simp add: os_inv_def)
  moreover have "place_of t = place_of s" using same dom_similar [OF t(2)] by (simp add: place_of_def)
  ultimately show ?thesis using place_move_keep by (simp add: place_of_def)
qed

lemma ld_local:
  assumes "os_inv C s" "cpus t = cpus s" "mach t = mach s" "preparing (ldr t) = preparing (ldr s)" "l_proc (ldr t) = l_proc (ldr s)"
    "l_i (ldr t) = l_i (ldr s)"
  shows "os_inv C t \<and> place_move s (place_of s) (place_of t)"
proof (rule ld_change [OF assms(1,2)])
  show "ld_ok (store t) (ldr t)" using assms by (simp add: os_inv_def ld_ok_def)
qed (use assms os_inv_pool [OF assms(1)] in \<open>simp_all add: places_def loaded_def\<close>)

lemma spawn_step:
  assumes inv: "os_inv C s" and a: "store s a = None" and np: "\<not> preparing (ldr s)"
    and t: "cpus t = cpus s" "sch t = sch s" "store t = (store s)(a \<mapsto> b)" "preparing (ldr t)" "l_proc (ldr t) = Some a"
      "l_i (ldr t) = l_i (ldr s)"
    and b: "(code b, prio b) \<in> C"
  shows "os_inv C t \<and> place_move s (place_of s) (place_of t)"
proof -
  have pl: "places t = add_mset (Some a) (places s)" using t np by (simp add: places_def)
  have "Some a \<notin># places s" using places_live [OF inv, of "Some a"] a by (auto simp: live_def)
  then have "Multiset.count (places t) p \<le> 1" for p
    using inv pl by (auto simp: os_inv_def not_in_iff)
  moreover have "pool_ok (store t) (sch t)" using pool.ok_new [where a = a, OF os_inv_pool [OF inv]] a t(2,3) by simp
  moreover have "cpu_ok (store t) c" if "c \<in> set (cpus t)" for c
  proof -
    have "admissible (store t) p" if "admissible (store s) p" for p
      using that a unfolding admissible_def t(3) by (auto simp: live_def prio_of_def pcb_at_def)
    then show ?thesis using that inv t(1) by (auto simp: os_inv_def cpu_ok_def)
  qed
  moreover have "code_ok C (store t)" "ld_ok (store t) (ldr t)"
    using inv b t(3,5) by (simp_all add: os_inv_def code_ok_def ld_ok_def live_def)
  ultimately have "os_inv C t" by (simp add: os_inv_def)
  moreover have "a \<notin> dom (store s)" "dom (store t) = insert a (dom (store s))" using a t(3) by auto
  moreover have "loaded t = Suc (loaded s)" using np t by (simp add: loaded_def)
  ultimately show ?thesis using pl place_step.spawn by (simp add: place_of_def place_move_step)
qed

lemma put_proc_level:
  assumes "pool_ok st s" "put_proc st s (Some a) = Inr r"
  shows "admissible st (Some a)"
proof -
  have len: "length (mlq_ready_queue s) = 140" using assms(1) by (simp add: pool_ok_def sched_ok_def levels_ok_def)
  obtain b where "st a = Some b" "uint (prio b) < int (length (mlq_ready_queue s))"
    using assms(2) by (auto simp: put_proc_def note_running_def put_mlq_proc_def result_simps lock_queue_def unlock_queue_def
        link_queues_def arr_get_def split: if_splits)
  then show ?thesis
    using len by (simp add: admissible_def live_def prio_of_def pcb_at_def)
qed

lemma admit_step:
  assumes inv: "os_inv C s" and l: "l_pc (ldr s) = L_Start" and r: "ld_admit env s = Inr t"
  shows "os_inv C t \<and> place_move s (place_of s) (place_of t)"
proof -
  let ?l = "(ldr s)\<lparr>l_i := Suc (l_i (ldr s)), l_pc := L_Slot\<rparr>" and ?g = "give_memory env (l_i (ldr s))"
  have prep: "preparing (ldr s)" "\<not> preparing ?l" using l by (simp_all add: preparing_def)
  obtain a b st sc where a: "l_proc (ldr s) = Some a" "store s a = Some b"
    and put: "put_proc ((store s)(a \<mapsto> ?g b)) (sch s) (Some a) = Inr (st, sc)"
    and t: "t = set_ldr (set_sch (set_store s st) sc) ?l"
    using r by (auto simp: ld_admit_def result_simps add_proc_eq)
  let ?st = "(store s)(a \<mapsto> ?g b)"
  have sim: "similar (store s) ?st" by (rule similar_update, rule a(2)) (simp add: kept_def on_devices_def give_memory_def)
  have ok: "pool_ok ?st (sch s)" using pool.ok_similar [OF os_inv_pool [OF inv] sim] .
  note put_law = pool.put_conserves [OF ok put_proc_level [OF ok put] put]
  have sim2: "similar (store s) st" using similar_trans [OF sim] put_law by blast
  have cpus: "cpu_ok (store t) c" if "c \<in> set (cpus s)" for c
    using that cpu_ok_similar [OF sim2] inv by (simp add: t os_inv_def)
  have rest: "ld_ok (store t) (ldr t)" "code_ok C (store t)"
    using prep code_ok_similar [OF sim2] inv by (simp_all add: t ld_ok_def os_inv_def)
  have ld: "loaded t = loaded s" using prep by (simp add: t loaded_def)
  let ?M = "waiting (sch s) + mset (concat (map holding (cpus s)))"
  have pl: "places s = add_mset (Some a) ?M" using prep(1) a(1) by (simp add: places_def)
  consider "waiting sc = add_mset (Some a) (waiting (sch s))" | "waiting sc = waiting (sch s)" "10 \<le> size (waiting (sch s))"
    using put_law by auto
  then show ?thesis
  proof cases
    case 1
    then have "places t = places s" using prep(2) pl by (simp add: t places_def)
    then show ?thesis using inv sim2 put_law rest ld by (intro ld_change) (simp_all add: t)
  next
    case 2
    then have pt: "places t = ?M" using prep(2) by (simp add: t places_def)
    have "Multiset.count (places t) p \<le> 1" for p
    proof -
      have "Multiset.count (places s) p \<le> 1" using inv by (simp add: os_inv_def)
      moreover have "Multiset.count ?M p \<le> Multiset.count (places s) p"
        unfolding pl by (rule mset_subset_eq_count) simp
      ultimately show ?thesis unfolding pt by linarith
    qed
    then have "os_inv C t" using put_law rest cpus by (simp add: os_inv_def) (simp add: t)
    moreover have "10 \<le> size ?M" using 2(2) by simp
    then have "place_move s (loaded s, dom (store s), add_mset (Some a) ?M) (loaded s, dom (store s), ?M)"
      by (intro place_move_step place_step.lose)
    ultimately show ?thesis using pl pt ld dom_similar [OF sim2] by (simp add: place_of_def t)
  qed
qed

lemma ld_step_ok:
  assumes inv: "os_inv C s" and env: "programs env (conf s) \<subseteq> C"
    and len: "length (ld_processes (conf s)) = nat (num_processes (conf s))"
    and a: "store s a = None" and st: "ld_step env s a = Some (Inr t)"
  shows "os_inv C t \<and> place_move s (place_of s) (place_of t)"
proof (cases "l_pc (ldr s)")
  case L_Loop
  then have np: "\<not> preparing (ldr s)" by (simp add: preparing_def)
  show ?thesis
  proof (cases "int (l_i (ldr s)) < num_processes (conf s)")
    case True
    let ?e = "ld_processes (conf s) ! l_i (ldr s)"
    have ld: "ld_load env s a = Inr t" using st L_Loop True by (simp add: ld_step_def)
    then obtain b n where b: "load (env_heap env (l_i (ldr s))) (env_fs env) (avail_pid s) (ld_path ?e) = Inr (b, n)"
      by (auto simp: ld_load_def Let_def result_simps)
    with ld obtain pr where pr: "ld_prio ?e = Some pr" by (cases "ld_prio ?e") (auto simp: ld_load_def Let_def)
    have t: "t = set_ldr (set_store (s\<lparr>avail_pid := n\<rparr>) ((store s)(a \<mapsto> b\<lparr>prio := ucast pr\<rparr>)))
              ((ldr s)\<lparr>l_proc := Some a, l_pc := L_Start\<rparr>)"
      using ld b pr by (simp add: ld_load_def Let_def)
    have "l_i (ldr s) < length (ld_processes (conf s))" using True len by linarith
    then have "(code b, ucast pr) \<in> C" using env b pr unfolding programs_def by blast
    then show ?thesis
      using np by (intro spawn_step [OF inv a, where b = "b\<lparr>prio := ucast pr\<rparr>"]) (simp_all add: t preparing_def set_store_def)
  next
    case False
    then show ?thesis using st L_Loop np by (intro ld_local [OF inv]) (auto simp: ld_step_def Let_def preparing_def)
  qed
next
  case L_Start
  then consider "t = set_ldr s ((ldr s)\<lparr>l_pc := L_Sleep\<rparr>)" | "ld_admit env s = Inr t"
    using st by (auto simp: ld_step_def Let_def result_simps split: if_splits)
  then show ?thesis
  proof cases
    case 1
    then show ?thesis using L_Start by (intro ld_local [OF inv]) (simp_all add: preparing_def)
  next
    case 2
    then show ?thesis by (rule admit_step [OF inv L_Start])
  qed
qed (rule ld_local [OF inv]; use st in \<open>auto simp: ld_step_def Let_def preparing_def split: option.splits\<close>)+


section \<open>Start and steps\<close>

definition idle_cpu :: "nat \<Rightarrow> cpu_t" where
  "idle_cpu d = \<lparr>c_pc = C_Loop, c_timer = d, c_proc = None, time_left = 0\<rparr>"

lemma attach_cpus_ok:
  assumes "timer_reachable t" "timer_started t = 0" "attach_cpus n t = Inr (ds, t')" "dpc t = (\<lambda>_. Working)"
  shows "timer_reachable t' \<and> timer_started t' = 0 \<and> length (dev_list t') = length (dev_list t) + n \<and>
     ds = [length (dev_list t)..<length (dev_list t) + n] \<and> dpc t' = (\<lambda>_. Working) \<and> timer_stop t' = timer_stop t"
  using assms
proof (induction n arbitrary: t ds)
  case (Suc n)
  obtain d t1 where a: "attach_event t = (Some d, t1)" "d = length (dev_list t)" "length (dev_list t1) = Suc (length (dev_list t))"
    "timer_started t1 = 0" "dpc t1 = (\<lambda>_. Working)" "timer_stop t1 = timer_stop t"
    using Suc.prems(2,4) by (simp add: attach_event_def Let_def fun_eq_iff)
  obtain ds1 where ds1: "attach_cpus n t1 = Inr (ds1, t')" "ds = d # ds1"
    using Suc.prems(3) a(1) by (auto simp: result_simps)
  have "timer_reachable t1" using Suc.prems(1) a(1) by (meson timer_reachable.more tstep.attach)
  from Suc.IH [OF this a(4) ds1(1) a(5)] show ?case using a ds1(2) by (simp add: upt_rec [of "length (dev_list t)"])
qed simp

lemma bootE:
  assumes "boot env argv = Inr s"
  obtains n where "store s = Map.empty" "sch s = init_scheduler static_sched" "cpus s = map idle_cpu [0..<n]"
    "l_pc (ldr s) = L_Loop" "l_i (ldr s) = 0" "l_timer (ldr s) = n" "os_done s = 0" "m_pc s = M_Join"
    "read_config (env_fs env) (''input/'' @ argv ! 1) = Inr (conf s)" "timer_reachable (tmr s)"
    "set (dev_list (tmr s)) = {..n}" "dpc (tmr s) = (\<lambda>_. Working)" "n = nat (num_cpus (conf s))"
    "tpc (tmr s) = Check" "ticks (tmr s) = 0" "timer_stop (tmr s) = 0"
proof -
  obtain c ds t ld where c: "read_config (env_fs env) (''input/'' @ argv ! 1) = Inr c"
    and ds: "attach_cpus (nat (num_cpus c)) static_timer = Inr (ds, t)" and fst: "fst (attach_event t) = Some ld"
    and s: "store s = Map.empty" "sch s = init_scheduler static_sched" "conf s = c" "tmr s = start_timer (snd (attach_event t))"
      "cpus s = map (\<lambda>d. \<lparr>c_pc = C_Loop, c_timer = d, c_proc = None, time_left = 0\<rparr>) ds"
      "ldr s = \<lparr>l_pc = L_Loop, l_timer = ld, l_i = 0, l_proc = None\<rparr>" "os_done s = 0" "m_pc s = M_Join"
    using assms by (auto simp: boot_def Let_def result_simps case_prod_unfold split: if_splits)
  define t' where "t' = snd (attach_event t)"
  have ld: "attach_event t = (Some ld, t')" using fst by (simp add: t'_def prod_eq_iff)
  have t: "timer_reachable t" "timer_started t = 0" "length (dev_list t) = nat (num_cpus c)" "ds = [0..<nat (num_cpus c)]"
      "dpc t = (\<lambda>_. Working)" "timer_stop t = 0"
    using attach_cpus_ok [OF timer_reachable.init _ ds] by (simp_all add: static_timer_def)
  have t': "ld = length (dev_list t)" "length (dev_list t') = Suc (length (dev_list t))" "timer_started t' = 0"
      "dpc t' = (\<lambda>_. Working)" "timer_stop t' = 0"
    using ld t(2,5,6) by (auto simp: attach_event_def Let_def fun_eq_iff)
  have tm: "tmr s = start_timer t'" by (simp add: s(4) t'_def)
  have rt': "timer_reachable t'" using t(1) ld by (meson timer_reachable.more tstep.attach)
  then have "timer_inv t'" by (rule reachable_inv)
  then have "set (dev_list t') = {..<length (dev_list t')}" using t'(3) by (simp add: timer_inv_def)
  then have dev: "set (dev_list (tmr s)) = {..nat (num_cpus c)}" "dpc (tmr s) = (\<lambda>_. Working)"
    using t(3) t'(2,4) by (simp_all add: tm start_timer_def lessThan_Suc_atMost)
  from rt' have "timer_reachable (start_timer t')" using t'(3) by (meson timer_reachable.more tstep.start)
  then have "timer_reachable (tmr s)" using tm by simp
  moreover have "ticks t' = 0" using \<open>timer_inv t'\<close> t'(3) by (simp add: timer_inv_def)
  then have "tpc (tmr s) = Check" "ticks (tmr s) = 0" "timer_stop (tmr s) = 0" using t'(5) by (simp_all add: tm start_timer_def)
  ultimately show thesis
    by (intro that) (use c s(1-3,5-8) t(3,4) t'(1) dev in \<open>simp_all add: idle_cpu_def\<close>)
qed

lemma waiting_init: "waiting (init_scheduler static_sched) = {#}"
  by (simp add: waiting_def init_scheduler_def static_sched_def static_queue_def q_list_def)

lemma boot_inv: "boot env argv = Inr s \<Longrightarrow> os_inv C s \<and> place_of s = (0, {}, {#})"
proof (erule bootE)
  fix n assume s: "store s = Map.empty" "sch s = init_scheduler static_sched" "cpus s = map idle_cpu [0..<n]"
    "l_pc (ldr s) = L_Loop" "l_i (ldr s) = 0"
  have none: "concat (map holding (cpus s)) = []" by (simp add: s(3) holding_def idle_cpu_def)
  then have "places s = {#}" using s(2,4) by (simp add: places_def waiting_init preparing_def)
  moreover have "pool_ok (store s) (sch s)" unfolding pool_ok_def s(2) using init_scheduler_ok by blast
  moreover have "cpu_ok (store s) c" if "c \<in> set (cpus s)" for c
    using that by (auto simp: s(3) cpu_ok_def holding_def idle_cpu_def)
  ultimately show "os_inv C s \<and> place_of s = (0, {}, {#})"
    using s(1,4,5) by (simp add: os_inv_def place_of_def loaded_def preparing_def code_ok_def ld_ok_def)
qed

lemma ld_step_frame:
  assumes "ld_step env s a = Some (Inr t)"
  shows "conf t = conf s \<and> cpus t = cpus s \<and> m_pc t = m_pc s"
  using assms
  by (auto simp: ld_step_def Let_def ld_load_def ld_admit_def result_simps split: ld_pc.splits option.splits if_splits)

lemma os_step_conf: "os_step env s t \<Longrightarrow> conf t = conf s"
  by (erule os_stepE) (auto dest: cpu_step_frame ld_step_frame simp: main_step_def split: main_pc.splits if_splits option.splits)

lemma reachable_conf:
  assumes "os_reachable env argv s"
  shows "read_config (env_fs env) (''input/'' @ argv ! 1) = Inr (conf s)"
  using assms by (induction rule: os_reachable.induct) (auto elim: bootE simp: os_step_conf)

lemma step_ok:
  assumes inv: "os_inv C s" and env: "programs env (conf s) \<subseteq> C" "length (ld_processes (conf s)) = nat (num_processes (conf s))"
    and st: "os_step env s t"
  shows "os_inv C t \<and> place_move s (place_of s) (place_of t)"
  using st
proof cases
  case (cpu k)
  then show ?thesis using cpu_step_ok [OF inv] by blast
next
  case (loader a)
  then show ?thesis using ld_step_ok [OF inv env] by blast
next
  case (timer t')
  then show ?thesis by (intro ld_local [OF inv]) simp_all
next
  case main
  then have "cpus t = cpus s" "mach t = mach s" "ldr t = ldr s"
    by (auto simp: main_step_def set_tmr_def split: main_pc.splits if_splits option.splits)
  then show ?thesis by (intro ld_local [OF inv]) simp_all
qed


section \<open>Reachable states\<close>

definition place_inv :: "place_t \<Rightarrow> bool" where
  "place_inv x \<longleftrightarrow> (case x of (n, D, M) \<Rightarrow> finite D \<and> card D \<le> n \<and> (n \<le> 10 \<longrightarrow> M = mset_set (Some ` D)))"

text \<open>The abstract machine loses nothing before an eleventh process is loaded.\<close>

lemma place_step_inv: "place_step fin x y \<Longrightarrow> place_inv x \<Longrightarrow> place_inv y"
proof (induction rule: place_step.induct)
  case (spawn a D n M)
  moreover have "Some a \<notin> Some ` D" using spawn.hyps by auto
  ultimately show ?case by (auto simp: place_inv_def)
next
  case (retire a n D M)
  then have D: "finite D" "card D \<le> n" and M: "n \<le> 10 \<Longrightarrow> add_mset (Some a) M = mset_set (Some ` D)"
    by (auto simp: place_inv_def)
  have "M = mset_set (Some ` (D - {a}))" if "n \<le> 10"
  proof -
    have "Some a \<in># mset_set (Some ` D)" using M [OF that] by (metis union_single_eq_member)
    then have "a \<in> D" using D(1) by auto
    then have "Some ` D = insert (Some a) (Some ` (D - {a}))" "Some a \<notin> Some ` (D - {a})" by auto
    then show ?thesis using M [OF that] D(1) by simp
  qed
  moreover have "card (D - {a}) \<le> n" using D by (meson card_Diff1_le le_trans)
  ultimately show ?case using D(1) by (simp add: place_inv_def)
next
  case (lose M n D a)
  then have D: "finite D" "card D \<le> n" and M: "n \<le> 10 \<Longrightarrow> add_mset (Some a) M = mset_set (Some ` D)"
    by (auto simp: place_inv_def)
  have "\<not> n \<le> 10"
  proof
    assume n: "n \<le> 10"
    have "card (Some ` D) = Suc (size M)" using M [OF n] by (metis size_add_mset size_mset_set)
    moreover have "card (Some ` D) = card D" by (simp add: card_image)
    ultimately show False using lose.hyps D(2) n by simp
  qed
  then show ?case using D by (simp add: place_inv_def)
qed (simp_all add: place_inv_def)

lemma reachable_length:
  assumes "os_reachable env argv s"
  shows "length (ld_processes (conf s)) = nat (num_processes (conf s))"
  using read_config_fields [OF reachable_conf [OF assms]] by blast

lemma reachable_os: "os_reachable env argv s \<Longrightarrow> os_inv (programs env (conf s)) s"
proof (induction rule: os_reachable.induct)
  case (boot s)
  then show ?case using boot_inv by blast
next
  case (more s t)
  then show ?case using step_ok [OF more.IH order_refl reachable_length [OF more.hyps(1)]] os_step_conf by metis
qed

lemma no_killing:
  assumes "os_reachable env argv s" "programs_ok env (conf s)"
  shows "\<not> killing s"
proof
  assume "killing s"
  then obtain a b where "store s a = Some b" "at_killall b"
    by (auto simp: killing_def split: option.splits)
  then show False using reachable_os [OF assms(1)] safe_code [of b] assms(2)
    by (auto simp: os_inv_def code_ok_def programs_ok_def)
qed

lemma reachable_places: "os_reachable env argv s \<Longrightarrow> programs_ok env (conf s) \<Longrightarrow> place_inv (place_of s)"
proof (induction rule: os_reachable.induct)
  case (boot s)
  then show ?case using boot_inv [of env argv s] by (simp add: place_inv_def)
next
  case (more s t)
  then have ok: "place_inv (place_of s)" "programs_ok env (conf s)" using os_step_conf by auto
  have "place_move s (place_of s) (place_of t)"
    using step_ok [OF reachable_os [OF more.hyps(1)] order_refl reachable_length [OF more.hyps(1)] more.hyps(2)] by blast
  then show ?case using place_step_inv place_move_quiet no_killing [OF more.hyps(1) ok(2)] ok(1) by blast
qed

text \<open>The loader never loads more processes than the configuration has.\<close>

definition ld_bound :: "os_t \<Rightarrow> bool" where
  "ld_bound s \<longleftrightarrow> loaded s \<le> nat (num_processes (conf s))"

lemma ld_step_bound:
  assumes "ld_step env s a = Some (Inr t)" "ld_bound s"
  shows "ld_bound t"
  using assms
  by (auto simp: ld_step_def Let_def ld_load_def ld_admit_def result_simps ld_bound_def loaded_def preparing_def
      split: ld_pc.splits option.splits if_splits)

lemma main_step_frame:
  assumes "main_step s = Some t"
  shows "conf t = conf s \<and> ldr t = ldr s \<and> cpus t = cpus s \<and> mach t = mach s"
  using assms by (auto simp: main_step_def split: main_pc.splits if_splits option.splits)

lemma reachable_bound: "os_reachable env argv s \<Longrightarrow> ld_bound s"
proof (induction rule: os_reachable.induct)
  case (boot s)
  then show ?case by (rule bootE) (simp add: ld_bound_def loaded_def preparing_def)
next
  case (more s t)
  from more.hyps(2) show ?case
  proof cases
    case (cpu k)
    then show ?thesis using cpu_step_frame more.IH by (simp add: ld_bound_def loaded_def)
  next
    case (loader a)
    then show ?thesis using ld_step_bound more.IH by blast
  next
    case (timer t')
    then show ?thesis using more.IH by (simp add: ld_bound_def loaded_def)
  next
    case main
    then show ?thesis using main_step_frame more.IH by (simp add: ld_bound_def loaded_def)
  qed
qed

text \<open>Outside of an instruction every call of the scheduler returns.\<close>

lemma cpu_step_total:
  assumes "os_reachable env argv s" "k < length (cpus s)" "c_pc (cpus s ! k) \<noteq> C_Run"
  shows "cpu_step env s k \<noteq> Some (Inl e)"
proof -
  let ?c = "cpus s ! k"
  note inv = reachable_os [OF assms(1)]
  have pool: "pool_ok (store s) (sch s)" using os_inv_pool [OF inv] .
  have fetch: "\<exists>r. fetch s = Inr r" using pool.get_law [OF pool] by (auto simp: fetch_def)
  have loop: "\<exists>t. cpu_loop s k ?c = Inr t" if l: "c_pc ?c = C_Loop"
  proof (cases "c_proc ?c")
    case None
    then show ?thesis using fetch by (auto simp: cpu_loop_def)
  next
    case (Some a)
    have adm: "admissible (store s) (Some a)"
      using os_inv_cpu [OF inv assms(2)] Some l by (simp add: cpu_ok_def holding_def)
    then obtain b where "pcb_at (store s) (Some a) = Inr b" by (auto simp: admissible_def live_def pcb_at_def)
    moreover obtain r where "put_proc (store s) (sch s) (Some a) = Inr r" using pool.put_law [OF pool adm] by blast
    ultimately show ?thesis using Some by (cases r) (simp add: cpu_loop_def)
  qed
  show ?thesis
    using assms(3) fetch loop by (cases "c_pc ?c") (auto simp: cpu_step_def Let_def split: option.splits)
qed

section \<open>Properties\<close>

text \<open>C1. For programs that do not call \<open>killall\<close> or \<open>memmap\<close> with \<open>SYSMEM_INC_OP\<close>, every step of the
  running simulator (a CPU, the loader, the timer or \<open>main\<close>, in any interleaving) is a step of the
  abstract machine that moves processes between places: a process is created by the loader; one
  that has executed all its instructions is removed; when at least ten others are at some
  place, a process may be lost; otherwise the processes and the places stay as they are.\<close>

theorem os_step_refines_places:
  assumes "os_reachable env argv s" "serial_programs env (conf s)" "os_step env s t"
  shows "place_step (finished s) (place_of s) (place_of t)"
proof -
  have "place_move s (place_of s) (place_of t)"
    using step_ok [OF reachable_os [OF assms(1)] order_refl reachable_length [OF assms(1)] assms(3)] by blast
  then show ?thesis using no_killing [OF assms(1) serial_programs_ok [OF assms(2)]] by (rule place_move_quiet)
qed

text \<open>C2. Mutual exclusion: for programs that do not call \<open>killall\<close> or \<open>memmap\<close> with
  \<open>SYSMEM_INC_OP\<close>, a process that a CPU holds has a live PCB, waits in no ready queue, and is held
  by no other CPU, in every reachable state of any interleaving. (The hypothesis excludes the
  programs whose instructions are not single steps; theory \<open>Race\<close> shows how \<open>killall\<close> breaks the
  property.)\<close>

theorem one_cpu_per_process:
  assumes "os_reachable env argv s" "serial_programs env (conf s)" "k < length (cpus s)"
    and "c_proc (cpus s ! k) = Some a" "c_pc (cpus s ! k) \<noteq> C_Fetch"
  shows "store s a \<noteq> None \<and> Some a \<notin># waiting (sch s) \<and>
     (\<forall>j < length (cpus s). j \<noteq> k \<and> c_pc (cpus s ! j) \<noteq> C_Fetch \<longrightarrow> c_proc (cpus s ! j) \<noteq> Some a)"
proof -
  note inv = reachable_os [OF assms(1)]
  have h: "holding (cpus s ! k) = [Some a]" using assms(4,5) by (simp add: holding_def)
  obtain M where M: "places s = add_mset (Some a) M" "Some a \<notin># M" "waiting (sch s) \<subseteq># M"
    using count_held [OF inv assms(3) h] by blast
  have "live (store s) (Some a)" using places_live [OF inv] M(1) by simp
  then have "store s a \<noteq> None" by (auto simp: live_def)
  moreover have "Some a \<notin># waiting (sch s)" using M(2,3) by (meson mset_subset_eqD)
  moreover have "c_proc (cpus s ! j) \<noteq> Some a" if "j < length (cpus s)" "j \<noteq> k" "c_pc (cpus s ! j) \<noteq> C_Fetch" for j
    using places_others [OF inv assms(3) h that(1,2)] that(3) by (auto simp: holding_def)
  ultimately show ?thesis by blast
qed

text \<open>C3. If no program calls \<open>killall\<close> or \<open>memmap\<close> with \<open>SYSMEM_INC_OP\<close>, no process is lost while the
  configuration has at most ten: in every reachable state each existing PCB is at exactly one
  place (a ready queue, one CPU, or the loader), and nothing else is at any place.\<close>

theorem no_process_lost:
  assumes "os_reachable env argv s" "serial_programs env (conf s)" "num_processes (conf s) \<le> 10"
  shows "places s = mset_set (Some ` dom (store s))"
proof -
  have "loaded s \<le> 10" using reachable_bound [OF assms(1)] assms(3) by (simp add: ld_bound_def)
  then show ?thesis using reachable_places [OF assms(1) serial_programs_ok [OF assms(2)]]
    by (simp add: place_inv_def place_of_def)
qed

text \<open>C23. For programs that do not call \<open>killall\<close> or \<open>memmap\<close> with \<open>SYSMEM_INC_OP\<close>, a CPU fails only
  while it executes an instruction: at every other point of its loop (getting, freeing,
  putting back and dispatching processes, waiting for the slot) it makes no invalid access,
  uses no freed PCB and takes no lock it holds.\<close>

theorem only_instructions_fault:
  assumes "os_reachable env argv s" "serial_programs env (conf s)" "k < length (cpus s)" "c_pc (cpus s ! k) \<noteq> C_Run"
  shows "cpu_step env s k \<noteq> Some (Inl e)"
  by (rule cpu_step_total [OF assms(1,3,4)])

section \<open>Witnesses\<close>

text \<open>The run of the theory \<open>Run\<close>: one CPU is about to execute the only process.\<close>

lemma tiny_programs:
  assumes "map ld_path (ld_processes (conf s)) = [''input/proc/p'']"
  shows "serial_programs tiny_env (conf s)" "(x, r) \<in> programs tiny_env (conf s) \<Longrightarrow> length (code_text x) = 1"
proof -
  have p: "ld_path (ld_processes (conf s) ! i) = ''input/proc/p''" if "i < length (ld_processes (conf s))" for i
    using assms that by (metis length_map nth_map One_nat_def length_Cons less_Suc0 list.size(3) nth_Cons_0)
  have t: "map opcode (code_text (code b)) = [CALC]"
    if "load (env_heap tiny_env i) (env_fs tiny_env) n ''input/proc/p'' = Inr (b, n')" for i n b n'
    using that tiny_load by (simp add: tiny_env_def)
  have all: "map opcode (code_text x) = [CALC]" if "(x, r) \<in> programs tiny_env (conf s)" for x r
    using that p t by (auto simp: programs_def)
  then show "(x, r) \<in> programs tiny_env (conf s) \<Longrightarrow> length (code_text x) = 1"
    using length_map [of opcode "code_text x"] by fastforce
  have "list_all keeps_locks (code_text x)" if "(x, r) \<in> programs tiny_env (conf s)" for x r
  proof -
    from all [OF that] obtain y where "code_text x = [y]" "opcode y = CALC" by auto
    then show ?thesis by (simp add: keeps_locks_def no_killall_def)
  qed
  then show "serial_programs tiny_env (conf s)" by (auto simp: serial_programs_def)
qed

theorem os_step_refines_places_witness:
  "\<exists>s t. os_step tiny_env s t \<and> c_proc (cpus s ! 0) = Some 5 \<and> place_step (finished s) (place_of s) (place_of t)"
proof -
  obtain s t where s: "os_step tiny_env s t" "os_reachable tiny_env [''os'', ''tiny''] s"
    "cpus s = [\<lparr>c_pc = C_Run, c_timer = 0, c_proc = Some 5, time_left = 6\<rparr>]"
    "map ld_path (ld_processes (conf s)) = [''input/proc/p'']" by (rule tiny_state)
  then have "c_proc (cpus s ! 0) = Some 5" by simp
  with os_step_refines_places [OF s(2) tiny_programs(1) [OF s(4)] s(1)] s(1) show ?thesis by blast
qed

theorem one_cpu_per_process_witness:
  "\<exists>s. os_reachable tiny_env [''os'', ''tiny''] s \<and> store s 5 \<noteq> None \<and> Some 5 \<notin># waiting (sch s)"
proof -
  obtain s t where s: "os_step tiny_env s t" "os_reachable tiny_env [''os'', ''tiny''] s"
    "cpus s = [\<lparr>c_pc = C_Run, c_timer = 0, c_proc = Some 5, time_left = 6\<rparr>]"
    "map ld_path (ld_processes (conf s)) = [''input/proc/p'']" by (rule tiny_state)
  with one_cpu_per_process [OF s(2) tiny_programs(1) [OF s(4)], of 0 5] show ?thesis by auto
qed

theorem no_process_lost_witness:
  "\<exists>s. os_reachable tiny_env [''os'', ''tiny''] s \<and> c_proc (cpus s ! 0) = Some 5 \<and>
     places s = mset_set (Some ` dom (store s))"
proof -
  obtain s t where s: "os_step tiny_env s t" "os_reachable tiny_env [''os'', ''tiny''] s" "num_processes (conf s) = 1"
    "cpus s = [\<lparr>c_pc = C_Run, c_timer = 0, c_proc = Some 5, time_left = 6\<rparr>]"
    "map ld_path (ld_processes (conf s)) = [''input/proc/p'']" by (rule tiny_state)
  then have "c_proc (cpus s ! 0) = Some 5" by simp
  with no_process_lost [OF s(2) tiny_programs(1) [OF s(5)]] s(2,3) show ?thesis by auto
qed

theorem only_instructions_fault_witness:
  "\<exists>s. os_reachable tiny_env [''os'', ''tiny''] s \<and> cpu_step tiny_env s 0 \<noteq> Some (Inl Use_After_Free)"
proof -
  obtain s t where s: "os_step tiny_env s t" "os_reachable tiny_env [''os'', ''tiny''] s"
    "cpus t = [\<lparr>c_pc = C_Slot, c_timer = 0, c_proc = Some 5, time_left = 5\<rparr>]" "conf t = conf s"
    "map ld_path (ld_processes (conf s)) = [''input/proc/p'']" by (rule tiny_state)
  then have "os_reachable tiny_env [''os'', ''tiny''] t" by (metis os_reachable.more)
  with only_instructions_fault [OF this, of 0 Use_After_Free] tiny_programs(1) [OF s(5)] s(3,4) show ?thesis by auto
qed

end
