(* ===== verification/Race.thy ===== *)
theory Race
  imports System
begin

text \<open>
  Why an instruction that calls \<open>killall\<close> is not one step. \<open>src/sys_killall.c\<close> shifts the ready queues
  with its calls on \<open>queue_lock\<close> commented out, so \<open>get_proc\<close> of another CPU may come between any
  two of its assignments. Here its loop over one ready queue is split into steps: one for a
  test of the inner loop with the marking of a match, one for each assignment of the shift, one
  for \<open>size--\<close>. Run without interruption the steps do what \<open>kill_ready\<close> does; interrupted after
  the first assignment they let two CPUs get the same process.
\<close>

section \<open>The loop in steps\<close>

text \<open>Where the loop over the queue is: at the test of \<open>j\<close>, at the shift with the inner index \<open>k\<close>, or
  at \<open>mlq[i].size--\<close>.\<close>

datatype kill_pc = K_Test int | K_Shift int int | K_Size int | K_Done

type_synonym kill_t = "kill_pc \<times> pcb_store \<times> sched_t \<times> pcb_ptr list"

definition set_level :: "sched_t \<Rightarrow> nat \<Rightarrow> queue_t \<Rightarrow> sched_t" where
  "set_level s i q = s\<lparr>mlq_ready_queue := (mlq_ready_queue s)[i := q]\<rparr>"

definition kill_step :: "BYTE list \<Rightarrow> nat \<Rightarrow> kill_t \<Rightarrow> kill_t result" where
  "kill_step name i t = (case t of (c, st, s, ks) \<Rightarrow>
     and_then (arr_get (mlq_ready_queue s) (int i)) (\<lambda>q.
       case c of
         K_Test j \<Rightarrow>
           if j < qsize q then
             and_then (arr_get (procs q) j) (\<lambda>p.
             and_then (deref p) (\<lambda>a.
             and_then (pcb_at st p) (\<lambda>b.
               if has_name name b then
                 and_then (push_kill ks p) (\<lambda>ks. Inr (K_Shift j 0, st(a \<mapsto> finish b), s, ks))
               else Inr (K_Test (j + 1), st, s, ks))))
           else Inr (K_Done, st, s, ks)
       | K_Shift j k \<Rightarrow>
           if k < qsize q - 1 then
             and_then (arr_get (procs q) (k + 1)) (\<lambda>p.
             and_then (arr_set (procs q) k p) (\<lambda>ps.
               Inr (K_Shift j (k + 1), st, set_level s i (q\<lparr>procs := ps\<rparr>), ks)))
           else Inr (K_Size j, st, s, ks)
       | K_Size j \<Rightarrow> Inr (K_Test j, st, set_level s i (q\<lparr>qsize := qsize q - 1\<rparr>), ks)
       | K_Done \<Rightarrow> Inr (K_Done, st, s, ks)))"

text \<open>Steps in a row, and steps with calls of \<open>get_proc\<close> by other CPUs in between, which note what
  they were given.\<close>

inductive kill_run :: "BYTE list \<Rightarrow> nat \<Rightarrow> kill_t \<Rightarrow> kill_t \<Rightarrow> bool" for name i where
  refl: "kill_run name i t t"
| step: "kill_step name i t = Inr u \<Longrightarrow> kill_run name i u v \<Longrightarrow> kill_run name i t v"

inductive raced :: "BYTE list \<Rightarrow> nat \<Rightarrow> kill_t \<Rightarrow> kill_t \<Rightarrow> pcb_ptr list \<Rightarrow> bool" for name i t where
  start: "raced name i t t []"
| kill: "raced name i t u gs \<Longrightarrow> kill_step name i u = Inr v \<Longrightarrow> raced name i t v gs"
| get: "raced name i t (c, st, s, ks) gs \<Longrightarrow> get_proc st s = Inr (g, s') \<Longrightarrow> raced name i t (c, st, s', ks) (gs @ [g])"

lemma kill_run_trans: "kill_run name i t u \<Longrightarrow> kill_run name i u v \<Longrightarrow> kill_run name i t v"
  by (induction rule: kill_run.induct) (auto intro: kill_run.step)

lemma set_level_simps [simp]:
  "mlq_ready_queue (set_level s i q) = (mlq_ready_queue s)[i := q]"
  "set_level (set_level s i q) i q' = set_level s i q'" "slot (set_level s i q) = slot s"
  "MarkedPrior (set_level s i q) = MarkedPrior s" "flag (set_level s i q) = flag s" "count (set_level s i q) = count s"
  "queue_lock (set_level s i q) = queue_lock s"
  by (simp_all add: set_level_def)

lemma set_level_same: "i < length (mlq_ready_queue s) \<Longrightarrow> mlq_ready_queue s ! i = q \<Longrightarrow> set_level s i q = s"
  by (auto simp: set_level_def)

section \<open>Without interruption\<close>

lemma shift_run:
  assumes "shift_down (procs q) k n = Inr ps" "n = nat (qsize q - 1 - k)" "i < length (mlq_ready_queue s)"
    and "mlq_ready_queue s ! i = q"
  shows "kill_run name i (K_Shift j k, st, s, ks) (K_Size j, st, set_level s i (q\<lparr>procs := ps\<rparr>), ks)"
  using assms
proof (induction n arbitrary: k q s)
  case 0
  then have "kill_step name i (K_Shift j k, st, s, ks) = Inr (K_Size j, st, s, ks)" "q\<lparr>procs := ps\<rparr> = q"
    by (auto simp: kill_step_def arr_get_def)
  then show ?case using 0 set_level_same kill_run.step kill_run.refl by metis
next
  case (Suc n)
  from Suc.prems(1) obtain p qs where p: "arr_get (procs q) (k + 1) = Inr p" "arr_set (procs q) k p = Inr qs"
    "shift_down qs (k + 1) n = Inr ps" by (cases "arr_get (procs q) (k + 1)"; cases "arr_set (procs q) k (projr (arr_get (procs q) (k + 1)))") auto
  let ?q = "q\<lparr>procs := qs\<rparr>"
  have "kill_step name i (K_Shift j k, st, s, ks) = Inr (K_Shift j (k + 1), st, set_level s i ?q, ks)"
    using Suc.prems(2-4) p(1,2) by (simp add: kill_step_def arr_get_def [of "mlq_ready_queue s"])
  moreover have "kill_run name i (K_Shift j (k + 1), st, set_level s i ?q, ks)
      (K_Size j, st, set_level (set_level s i ?q) i (?q\<lparr>procs := ps\<rparr>), ks)"
    using Suc.prems p(3) by (intro Suc.IH) simp_all
  ultimately show ?case using kill_run.step by simp
qed

text \<open>Run alone, the steps do what \<open>kill_ready\<close> does.\<close>

lemma kill_ready_run:
  assumes "kill_ready name st q j ks = Inr (st', q', ks')" "i < length (mlq_ready_queue s)" "mlq_ready_queue s ! i = q"
  shows "kill_run name i (K_Test j, st, s, ks) (K_Done, st', set_level s i q', ks')"
  using assms
proof (induction name st q j ks arbitrary: s rule: kill_ready.induct)
  case (1 name st q j ks)
  have q: "arr_get (mlq_ready_queue s) (int i) = Inr q" using 1(4,5) by (simp add: arr_get_def)
  show ?case
  proof (cases "j < qsize q")
    case True
    with 1(3) obtain p a b where p: "arr_get (procs q) j = Inr p" "deref p = Inr a" "pcb_at st p = Inr b"
      by (subst (asm) kill_ready.simps) (auto simp: result_simps)
    show ?thesis
    proof (cases "has_name name b")
      case False
      with True p 1(3) have "kill_ready name st q (j + 1) ks = Inr (st', q', ks')"
        by (subst (asm) kill_ready.simps) simp
      with 1(2) [OF True p False] 1(4,5)
      have "kill_run name i (K_Test (j + 1), st, s, ks) (K_Done, st', set_level s i q', ks')" by simp
      moreover have "kill_step name i (K_Test j, st, s, ks) = Inr (K_Test (j + 1), st, s, ks)"
        using True False p q by (simp add: kill_step_def)
      ultimately show ?thesis by (rule kill_run.step [rotated])
    next
      case hit: True
      with True p 1(3) obtain ks1 ps where k: "push_kill ks p = Inr ks1"
        and ps: "shift_down (procs q) 0 (nat (qsize q - 1)) = Inr ps"
        and rest: "kill_ready name (st(a \<mapsto> finish b)) (q\<lparr>procs := ps, qsize := qsize q - 1\<rparr>) j ks1 = Inr (st', q', ks')"
        by (subst (asm) kill_ready.simps) (auto simp: result_simps)
      let ?st = "st(a \<mapsto> finish b)" and ?s1 = "set_level s i (q\<lparr>procs := ps\<rparr>)"
        and ?s2 = "set_level s i (q\<lparr>procs := ps, qsize := qsize q - 1\<rparr>)"
      have mark: "kill_step name i (K_Test j, st, s, ks) = Inr (K_Shift j 0, ?st, s, ks1)"
        using True hit p q k by (simp add: kill_step_def)
      have shift: "kill_run name i (K_Shift j 0, ?st, s, ks1) (K_Size j, ?st, ?s1, ks1)"
        using ps 1(4,5) by (intro shift_run) simp_all
      have dec: "kill_step name i (K_Size j, ?st, ?s1, ks1) = Inr (K_Test j, ?st, ?s2, ks1)"
        using 1(4) by (simp add: kill_step_def arr_get_def)
      have tail: "kill_run name i (K_Test j, ?st, ?s2, ks1) (K_Done, st', set_level ?s2 i q', ks')"
        using 1(1) [OF True p hit k ps rest, of ?s2] 1(4) by (simp add: fun_upd_def)
      have "kill_run name i (K_Test j, st, s, ks) (K_Done, st', set_level ?s2 i q', ks')"
        by (rule kill_run.step [OF mark kill_run_trans [OF shift kill_run.step [OF dec tail]]])
      then show ?thesis by simp
    qed
  next
    case False
    then have "st' = st" "q' = q" "ks' = ks" using 1(3) by (subst (asm) kill_ready.simps, simp)+
    moreover have "kill_step name i (K_Test j, st, s, ks) = Inr (K_Done, st, s, ks)"
      using False q by (simp add: kill_step_def)
    ultimately show ?thesis using set_level_same [OF 1(4,5)] kill_run.step kill_run.refl by metis
  qed
qed

section \<open>With interruption\<close>

text \<open>A level that is served again: the first call leaves it marked, so the next one comes back.\<close>

lemma get_from_level:
  assumes "sched_ok st s" "first_choice s = Some i" "level s i = r # rs"
  shows "\<exists>s'. get_proc st s = Inr (r, s') \<and> sched_ok st s' \<and> level s' i = rs \<and>
     slot s' = (slot s)[i := slot s ! i + 1] \<and> flag s' = 0 \<and> MarkedPrior s' = int i"
proof -
  obtain x s' where g: "get_proc st s = Inr (x, s')" "get_spec st s (x, s')"
    using get_mlq_proc_spec [OF assms(1)] by (auto simp: get_proc_def)
  then have srv: "served st s i x s'" using assms(2) by (simp add: get_spec_def)
  have len: "length (mlq_ready_queue s) = 140" using assms(1) by (simp add: sched_ok_def levels_ok_def)
  have "x = r" "level s' i = rs" using srv assms(3) len by (auto simp: served_def)
  then show ?thesis using g(1) srv get_spec_ok [OF assms(1) g(2)] by (auto simp: served_def)
qed

lemma duplicate_gets:
  assumes "sched_ok st s" "first_choice s = Some i" "level s i = r # r # rs" "slot s ! i + 1 < 140 - int i" "i < 140"
  shows "\<exists>s1 s2. get_proc st s = Inr (r, s1) \<and> get_proc st s1 = Inr (r, s2) \<and> level s2 i = rs"
proof -
  obtain s1 where s1: "get_proc st s = Inr (r, s1)" "sched_ok st s1" "level s1 i = r # rs"
    "slot s1 = (slot s)[i := slot s ! i + 1]" "flag s1 = 0" "MarkedPrior s1 = int i"
    using get_from_level [OF assms(1-3)] by blast
  have "length (slot s) = 140" using assms(1) by (simp add: sched_ok_def levels_ok_def)
  then have "eligible s1 i" using s1(3,4) assms(4,5) by (simp add: eligible_def)
  then have "first_choice s1 = Some i" using s1(5,6) by (simp add: first_choice_def)
  then show ?thesis using get_from_level [OF s1(2) _ s1(3)] s1(1) by blast
qed

text \<open>After the first assignment of the shift the second process of the level is there twice.\<close>

lemma first_assignment:
  assumes "queue_ok st q" "q_list q = p # r # ps"
  shows "arr_get (procs q) 1 = Inr r" "arr_set (procs q) 0 r = Inr ((procs q)[0 := r])" "1 < qsize q"
    and "q_list (q\<lparr>procs := (procs q)[0 := r]\<rparr>) = r # r # ps"
proof -
  have l: "length (procs q) = 10" using assms(1) by (simp add: queue_ok_def)
  have "2 \<le> length (q_list q)" using assms(2) by simp
  then show sz: "1 < qsize q" using length_q_list [OF assms(1)] by simp
  have "procs q ! 1 = q_list q ! 1" using sz by (simp add: q_list_def)
  then show "arr_get (procs q) 1 = Inr r" using l assms(2) by (simp add: arr_get_def)
  show "arr_set (procs q) 0 r = Inr ((procs q)[0 := r])" using l by (simp add: arr_set_def)
  have "q_list (q\<lparr>procs := (procs q)[0 := r]\<rparr>) = (q_list q)[0 := r]" by (simp add: q_list_def take_update_swap)
  then show "q_list (q\<lparr>procs := (procs q)[0 := r]\<rparr>) = r # r # ps" using assms(2) by simp
qed

section \<open>Properties\<close>

text \<open>C37. \<open>killall\<close> races with the scheduler, as its calls on \<open>queue_lock\<close> are commented out: when it has
  found a process of the name in a ready queue of at least two processes, the scheduler would
  serve that level, and the level has two slots left, then two calls of \<open>get_proc\<close> that come after
  the first assignment of the shift both return the second process of the queue. So two CPUs run
  the same process, and the first one in the queue is in no queue any more.\<close>

theorem killall_race_duplicates:
  assumes "sched_ok st s" "i < 140" "level s i = p # r # ps"
    and "n < length (level s i)" "level s i ! n = Some a" "st a = Some b" "has_name name b" "length ks < 140"
    and "first_choice s = Some i" "slot s ! i + 1 < 140 - int i"
  shows "\<exists>st' s' ks'. raced name i (K_Test (int n), st, s, ks) (K_Shift (int n) 1, st', s', ks') [r, r] \<and>
     r \<noteq> None \<and> level s' i = ps"
proof -
  let ?q = "mlq_ready_queue s ! i" and ?st = "st(a \<mapsto> finish b)"
  let ?s = "set_level s i (?q\<lparr>procs := (procs ?q)[0 := r]\<rparr>)"
  have len: "length (mlq_ready_queue s) = 140" and lv: "levels_ok st s" and q: "queue_ok st ?q"
    using assms(1,2) by (simp_all add: sched_ok_def levels_ok_def)
  note first = first_assignment [OF q assms(3)]
  have n: "int n < qsize ?q" using length_q_list [OF q] assms(4) by simp
  then have get: "arr_get (procs ?q) (int n) = Inr (Some a)"
    using assms(5) q by (simp add: arr_get_def queue_ok_def q_list_def)
  have mark: "kill_step name i (K_Test (int n), st, s, ks) = Inr (K_Shift (int n) 0, ?st, s, ks @ [Some a])"
    using n get assms(2,6,7,8) len by (simp add: kill_step_def arr_get_def [of "mlq_ready_queue s"] pcb_at_def push_kill_room)
  have shift: "kill_step name i (K_Shift (int n) 0, ?st, s, ks @ [Some a]) = Inr (K_Shift (int n) 1, ?st, ?s, ks @ [Some a])"
    using first(1-3) assms(2) len by (simp add: kill_step_def arr_get_def [of "mlq_ready_queue s"])
  have same: "live ?st x = live st x" "prio_of ?st x = prio_of st x" for x
    using assms(6) by (cases x; auto simp: live_def prio_of_def pcb_at_def)+
  have lev: "level ?s j = (if j = i then r # r # ps else level s j)" if "j < 140" for j
    using that first(4) len by simp
  have sub: "set (level ?s j) \<subseteq> set (level s j)" if "j < 140" for j using lev [OF that] assms(3) by auto
  have old: "queue_ok st (mlq_ready_queue s ! j)" "\<forall>x \<in> set (level s j). uint (prio_of st x) = int j" if "j < 140" for j
    using lv that by (simp_all add: levels_ok_def)
  have new: "queue_ok ?st (mlq_ready_queue ?s ! j)" if "j < 140" for j
    using old(1) [OF that] sub [OF that] len that by (cases "j = i") (auto simp: queue_ok_def same)
  have prio: "\<forall>x \<in> set (level ?s j). uint (prio_of ?st x) = int j" if "j < 140" for j
    using old(2) [OF that] sub [OF that] same(2) by (simp only: subset_iff) blast
  have "length (mlq_ready_queue ?s) = 140" "length (slot ?s) = 140" using len lv by (simp_all add: levels_ok_def)
  then have "levels_ok ?st ?s" unfolding levels_ok_def using new prio by blast
  then have ok: "sched_ok ?st ?s" using assms(1) by (simp add: sched_ok_def)
  have el: "eligible ?s j = eligible s j" if "j < 140" for j
    using lev [OF that] assms(3) by (simp add: eligible_def)
  then have "find (eligible ?s) [m..<140] = find (eligible s) [m..<140]" for m by (intro find_cong) simp_all
  moreover have "nat (MarkedPrior s) < 140" using assms(1) by (auto simp: sched_ok_def)
  ultimately have "first_choice ?s = Some i"
    using assms(9) el by (auto simp: first_choice_def split: if_splits)
  then obtain s1 s2 where g: "get_proc ?st ?s = Inr (r, s1)" "get_proc ?st s1 = Inr (r, s2)" "level s2 i = ps"
    using duplicate_gets [OF ok _ _ _ assms(2)] lev [OF assms(2)] assms(10) by auto
  have "raced name i (K_Test (int n), st, s, ks) (K_Shift (int n) 1, ?st, s2, ks @ [Some a]) ([] @ [r] @ [r])"
    using raced.get [OF raced.get [OF raced.kill [OF raced.kill [OF raced.start mark] shift] g(1)] g(2)] by simp
  moreover have "live st r" using q assms(3) by (simp add: queue_ok_def)
  then have "r \<noteq> None" by (auto simp: live_def)
  ultimately show ?thesis using g(3) by auto
qed

text \<open>Level 7 holds a process \<open>y\<close> and a process \<open>x\<close>; while \<open>x\<close> is being killed, two CPUs get it.\<close>

theorem killall_race_duplicates_witness:
  "\<exists>st' s' ks'. raced [120] 7 (K_Test 1, pcbs kill_machine, demo_sched\<lparr>MarkedPrior := 7, flag := 0\<rparr>, [])
     (K_Shift 1 1, st', s', ks') [Some 7, Some 7] \<and> level s' 7 = []"
proof -
  let ?st = "pcbs kill_machine" and ?s = "demo_sched\<lparr>MarkedPrior := 7, flag := 0\<rparr>"
  let ?b = "(demo_pcb 3 7)\<lparr>path := ''input/proc/x'', p_mm := Some demo_mm\<rparr>"
  have lp: "live ?st p = live demo_store p" "prio_of ?st p = prio_of demo_store p" for p
    by (cases p; auto simp: live_def prio_of_def pcb_at_def kill_machine_def demo_store_def demo_pcb_def)+
  have ok: "sched_ok ?st ?s"
    using demo_sched_ok by (simp add: sched_ok_def levels_ok_def queue_ok_def lp)
      (simp add: demo_sched_def static_sched_def)
  have lev: "level ?s 7 = [Some 6, Some 7]" by (simp add: demo_levels)
  have slot: "slot ?s ! 7 = 0" by (simp add: demo_sched_def static_sched_def MAX_PRIO_def)
  then have "first_choice ?s = Some 7" using lev by (simp add: first_choice_def eligible_def)
  then show ?thesis
    using killall_race_duplicates [OF ok _ lev, of 1 7 ?b "[120]" "[]"] slot lev kill_machine_names(2)
    by (simp add: kill_machine_def)
qed

end
