(* ===== verification/Fair.thy ===== *)
theory Fair
  imports System
begin

text \<open>
  No process starves in the ready queues of \<open>src/sched.c\<close>. A waiting process is returned after a
  bounded number of calls of \<open>get_proc\<close>, whatever its priority and whatever is put back or added
  in between. The bound comes from a potential: the processes before it on its level, whether its
  level still has its turn in this round, and the slots that are left in the round.
\<close>

section \<open>The potential\<close>

text \<open>Level \<open>i\<close> has its turn later in this round; the slots of the levels still to come.\<close>

definition has_turn :: "sched_t \<Rightarrow> nat \<Rightarrow> bool" where
  "has_turn s i \<longleftrightarrow> MarkedPrior s \<le> int i \<and> slot s ! i < 140 - int i"

definition left_at :: "sched_t \<Rightarrow> nat \<Rightarrow> nat" where
  "left_at s j = (if MarkedPrior s \<le> int j then nat (140 - int j - slot s ! j) else 0)"

definition round_left :: "sched_t \<Rightarrow> nat" where
  "round_left s = (\<Sum>j < 140. left_at s j)"

text \<open>How many processes wait before \<open>p\<close>.\<close>

definition before :: "pcb_ptr \<Rightarrow> pcb_ptr list \<Rightarrow> nat" where
  "before p ps = length (takeWhile (\<lambda>q. q \<noteq> p) ps)"

definition wait_bound :: "sched_t \<Rightarrow> nat \<Rightarrow> pcb_ptr \<Rightarrow> nat" where
  "wait_bound s i p = before p (level s i) * 19742 + (if has_turn s i then 0 else 9871) + round_left s"

lemma before_simps [simp]: "before p (q # ps) = (if q = p then 0 else Suc (before p ps))"
  by (simp add: before_def)

lemma before_append: "p \<in> set ps \<Longrightarrow> before p (ps @ qs) = before p ps"
  by (induction ps) (auto simp: before_def)

lemma before_length: "p \<in> set ps \<Longrightarrow> before p ps < length ps"
  by (induction ps) (auto simp: before_def)

text \<open>A round has 140 + 139 + ... + 1 slots.\<close>

lemma round_limit:
  assumes "slots_within s" "length (slot s) = 140"
  shows "round_left s \<le> 9870"
proof -
  have "left_at s j \<le> 140 - j" if "j < 140" for j
  proof -
    have "0 \<le> slot s ! j" using assms that by (simp add: slots_within_def)
    then show ?thesis using that by (auto simp: left_at_def nat_le_iff of_nat_diff)
  qed
  then have "round_left s \<le> (\<Sum>j < 140. 140 - j)" unfolding round_left_def by (intro sum_mono) simp
  also have "(\<Sum>j < 140. 140 - j :: nat) = 9870" by (simp add: lessThan_nat_numeral lessThan_Suc)
  finally show ?thesis .
qed

section \<open>One call\<close>

text \<open>A served level uses up a slot of the round.\<close>

lemma served_left:
  assumes "levels_ok st s" "served st s j q s'" "MarkedPrior s \<le> int j" "slot s ! j < 140 - int j"
  shows "round_left s' < round_left s"
proof -
  have s': "j < 140" "slot s' = (slot s)[j := slot s ! j + 1]" "MarkedPrior s' = int j" "length (slot s) = 140"
    using assms(1,2) by (auto simp: served_def levels_ok_def)
  have "left_at s' k \<le> left_at s k" if "k < 140" for k
    using that s' assms(3,4) by (auto simp: left_at_def nth_list_update)
  moreover have "left_at s' j < left_at s j" using s' assms(3,4) by (simp add: left_at_def)
  ultimately show ?thesis unfolding round_left_def using s'(1) by (intro sum_strict_mono_ex1) auto
qed

lemma served_level:
  assumes "levels_ok st s" "served st s j q s'" "i < 140"
  shows "level s i = (if i = j then q # level s' i else level s' i)"
  using assms by (auto simp: served_def levels_ok_def)

text \<open>Where the call looks first, a level that has its turn and a process is not passed over.\<close>

lemma first_choice_turn:
  assumes ok: "sched_ok st s" and p: "p \<in> set (level s i)" "i < 140" and turn: "has_turn s i"
  shows "\<exists>j. first_choice s = Some j \<and> j \<le> i \<and> MarkedPrior s \<le> int j \<and> eligible s j"
proof (cases "flag s = 0 \<and> eligible s (nat (MarkedPrior s))")
  case True
  then show ?thesis using ok turn by (auto simp: first_choice_def has_turn_def sched_ok_def)
next
  case False
  have i: "eligible s i" using p(1) turn by (auto simp: eligible_def has_turn_def)
  let ?l = "[nat (MarkedPrior s)..<140]"
  have il: "i \<in> set ?l" using turn p(2) by (auto simp: has_turn_def)
  then obtain j where j: "find (eligible s) ?l = Some j" using i by (metis find_None_iff not_Some_eq)
  then obtain n where n: "n < length ?l" "eligible s (?l ! n)" "j = ?l ! n" "\<forall>m < n. \<not> eligible s (?l ! m)"
    by (auto simp: find_Some_iff)
  have "j \<le> i"
  proof (rule ccontr)
    assume "\<not> j \<le> i"
    then have "i - nat (MarkedPrior s) < n" "?l ! (i - nat (MarkedPrior s)) = i"
      using n(1,3) il by auto
    then show False using n(4) i by metis
  qed
  moreover have "first_choice s = Some j" using False j by (auto simp: first_choice_def)
  moreover have "MarkedPrior s \<le> int j" using n(1,3) ok by (auto simp: sched_ok_def)
  ultimately show ?thesis using n(2,3) by blast
qed

lemma first_choice_after:
  assumes "sched_ok st s" "first_choice s = Some j"
  shows "MarkedPrior s \<le> int j \<and> j < 140"
  using assms by (auto simp: first_choice_def find_Some_iff sched_ok_def split: if_splits)

lemma get_lowers_bound:
  assumes ok: "sched_ok st s" "slots_within s" and p: "p \<in> set (level s i)" "i < 140"
    and get: "get_spec st s (q, s')" and q: "q \<noteq> p"
  shows "p \<in> set (level s' i) \<and> wait_bound s' i p < wait_bound s i p"
proof -
  have lv: "levels_ok st s" "length (slot s) = 140" using ok(1) by (simp_all add: sched_ok_def levels_ok_def)
  have ok': "sched_ok st s'" "slots_within s'" using get_spec_ok [OF ok(1) get] get_spec_slots [OF ok get] .
  have limit: "round_left s' \<le> 9870" using round_limit [OF ok'(2)] ok'(1) by (simp add: sched_ok_def levels_ok_def)
  show ?thesis
  proof (cases "first_choice s")
    case (Some j)
    then have srv: "served st s j q s'" using get by (auto simp: get_spec_def)
    note j = first_choice_after [OF ok(1) Some]
    have el: "slot s ! j < 140 - int j" using first_choice_eligible [OF ok(1) Some] by (simp add: eligible_def)
    have left: "round_left s' < round_left s" using served_left [OF lv(1) srv] j el by blast
    note lev = served_level [OF lv(1) srv p(2)]
    show ?thesis
    proof (cases "i = j")
      case True
      then show ?thesis using lev p(1) q left by (auto simp: wait_bound_def)
    next
      case False
      have "has_turn s' i" if turn: "has_turn s i"
      proof -
        have "j \<le> i" using first_choice_turn [OF ok(1) p turn] Some by auto
        then show ?thesis using turn srv False lv(2) by (auto simp: has_turn_def served_def)
      qed
      then show ?thesis using lev p(1) left False by (auto simp: wait_bound_def)
    qed
  next
    case None
    then have behind: "\<not> has_turn s i" using first_choice_turn [OF ok(1) p] by auto
    show ?thesis
    proof (cases "gives_up s")
      case True
      then have s': "s' = (new_round s)\<lparr>count := 140\<rparr>" using get None by (simp add: get_spec_def)
      have "level s' i = level s i" "has_turn s' i" using p(2) lv(2) by (simp_all add: s' new_round_def has_turn_def)
      then show ?thesis using p(1) behind limit by (simp add: wait_bound_def)
    next
      case False
      then obtain l where l: "lowest_waiting s = Some l" "served st (new_round s) l q s'"
        using get None by (auto simp: get_spec_def)
      have lv': "levels_ok st (new_round s)" using lv(1) by simp
      have lev: "level s i = (if i = l then q # level s' i else level s' i)"
        using served_level [OF lv' l(2) p(2)] by (simp add: new_round_def)
      show ?thesis
      proof (cases "i = l")
        case True
        then have "level s i = q # level s' i" using lev by simp
        then show ?thesis using p(1) q behind limit by (auto simp: wait_bound_def)
      next
        case False
        have "l \<le> i"
        proof (rule ccontr)
          assume "\<not> l \<le> i"
          moreover have "level s i \<noteq> []" using p(1) by auto
          ultimately show False using l(1) p(2) by (auto simp: lowest_waiting_def find_Some_iff)
        qed
        then have "has_turn s' i" using l(2) False p(2) lv(2) by (auto simp: has_turn_def served_def new_round_def)
        then show ?thesis using lev p(1) False behind limit by (simp add: wait_bound_def)
      qed
    qed
  qed
qed

section \<open>Sequences of calls\<close>

text \<open>\<open>passed_over p x n y\<close>: from \<open>x\<close> to \<open>y\<close> there are \<open>n\<close> calls of \<open>get_proc\<close>, none of which returns
  \<open>p\<close>, and any number of calls of \<open>put_proc\<close> and \<open>add_proc\<close>. In between the PCBs change in any way
  that leaves the waiting processes alive and at their priorities.\<close>

inductive passed_over :: "pcb_ptr \<Rightarrow> pcb_store \<times> sched_t \<Rightarrow> nat \<Rightarrow> pcb_store \<times> sched_t \<Rightarrow> bool" for p x where
  start: "passed_over p x 0 x"
| get: "passed_over p x n (st, s) \<Longrightarrow> get_proc st s = Inr (q, s') \<Longrightarrow> q \<noteq> p \<Longrightarrow> passed_over p x (Suc n) (st, s')"
| put: "passed_over p x n (st, s) \<Longrightarrow> put_proc st s (Some a) = Inr (st', s') \<Longrightarrow> passed_over p x n (st', s')"
| add: "passed_over p x n (st, s) \<Longrightarrow> add_proc st s (Some a) = Inr (st', s') \<Longrightarrow> passed_over p x n (st', s')"
| pcbs: "passed_over p x n (st, s) \<Longrightarrow> \<forall>q \<in># waiting s. live st' q \<and> prio_of st' q = prio_of st q \<Longrightarrow>
     passed_over p x n (st', s)"

text \<open>\<open>put_proc\<close> adds at the end of a level, or nothing.\<close>

lemma put_appends:
  assumes ok: "pool_ok st s" and put: "put_proc st s (Some a) = Inr (st', s')"
  shows "pool_ok st' s' \<and> slot s' = slot s \<and> MarkedPrior s' = MarkedPrior s \<and>
     (\<forall>i < 140. \<exists>qs. level s' i = level s i @ qs)"
proof -
  have adm: "admissible st (Some a)" by (rule put_proc_level [OF ok put])
  have ok': "pool_ok st' s'" using pool.put_conserves [OF ok adm put] by blast
  obtain b where b: "st a = Some b" "uint (prio b) < 140"
    using adm by (auto simp: admissible_def live_def prio_of_def pcb_at_def)
  then obtain j where j: "uint (prio b) = int j" "j < 140"
    by (metis nat_less_iff nat_numeral of_nat_less_iff of_nat_numeral int_nat_eq uint_ge_0)
  obtain r where app: "appended (s\<lparr>running_list := r\<rparr>) j (Some a) s'"
    using put_proc_spec [of st s a b j] ok b(1) j put by (auto simp: pool_ok_def)
  then obtain q where s': "s' = s\<lparr>running_list := r, mlq_ready_queue := (mlq_ready_queue s)[j := q]\<rparr>"
    and q: "q_list q = (if length (level s j) < 10 then level s j @ [Some a] else level s j)"
    by (auto simp: appended_def)
  have len: "length (mlq_ready_queue s) = 140" using ok by (simp add: pool_ok_def sched_ok_def levels_ok_def)
  have "\<exists>qs. level s' i = level s i @ qs" for i
    using q len j(2) by (cases "i = j") (simp_all add: s')
  then show ?thesis using ok' by (simp add: s')
qed

lemma put_keeps_bound:
  assumes ok: "pool_ok st s" and put: "put_proc st s (Some a) = Inr (st', s')"
    and p: "p \<in> set (level s i)" "i < 140"
  shows "p \<in> set (level s' i) \<and> wait_bound s' i p = wait_bound s i p"
proof -
  obtain qs where l: "level s' i = level s i @ qs" and same: "slot s' = slot s" "MarkedPrior s' = MarkedPrior s"
    using put_appends [OF ok put] p(2) by blast
  have "left_at s' = left_at s" using same by (auto simp: left_at_def fun_eq_iff)
  then have "has_turn s' i = has_turn s i" "round_left s' = round_left s"
    using same by (simp_all add: has_turn_def round_left_def)
  then show ?thesis using l p(1) by (simp add: wait_bound_def before_append)
qed

lemma put_keeps_slots:
  assumes "pool_ok st s" "put_proc st s (Some a) = Inr (st', s')" "slots_within s"
  shows "slots_within s'"
  using put_appends [OF assms(1,2)] assms(3) by (simp add: slots_within_def)

lemma passed_over_bound:
  assumes "passed_over p (st, s) n y" "pool_ok st s" "slots_within s" "p \<in> set (level s i)" "i < 140"
  shows "pool_ok (fst y) (snd y) \<and> slots_within (snd y) \<and> p \<in> set (level (snd y) i) \<and>
     n + wait_bound (snd y) i p \<le> wait_bound s i p"
  using assms
proof (induction rule: passed_over.induct)
  case start
  then show ?case by simp
next
  case (get n st1 s1 q s2)
  then have h: "pool_ok st1 s1" "slots_within s1" "p \<in> set (level s1 i)" "n + wait_bound s1 i p \<le> wait_bound s i p"
    by simp_all
  then have ok: "sched_ok st1 s1" by (simp add: pool_ok_def)
  have g: "get_spec st1 s1 (q, s2)" using get_mlq_proc_spec [OF ok] get.hyps(2) by (auto simp: get_proc_def)
  have "p \<in> set (level s2 i) \<and> wait_bound s2 i p < wait_bound s1 i p"
    by (rule get_lowers_bound [OF ok h(2,3) assms(5) g get.hyps(3)])
  moreover have "pool_ok st1 s2" using pool.get_admissible [OF h(1) get.hyps(2)] by blast
  moreover have "slots_within s2" by (rule get_spec_slots [OF ok h(2) g])
  ultimately show ?case using h(4) by simp
next
  case (put n st1 s1 a st2 s2)
  then show ?case using put_appends [of st1 s1 a st2 s2] put_keeps_bound [of st1 s1 a st2 s2 p i]
      put_keeps_slots [of st1 s1 a st2 s2] by simp
next
  case (add n st1 s1 a st2 s2)
  then show ?case using put_appends [of st1 s1 a st2 s2] put_keeps_bound [of st1 s1 a st2 s2 p i]
      put_keeps_slots [of st1 s1 a st2 s2] by (simp add: add_proc_eq)
next
  case (pcbs n st1 s1 st2)
  then show ?case using pool.frame_law [of st1 s1 st2] by simp
qed

lemma wait_limit:
  assumes "pool_ok st s" "slots_within s" "p \<in> set (level s i)" "i < 140"
  shows "wait_bound s i p < 197420"
proof -
  have lv: "levels_ok st s" "length (slot s) = 140" using assms(1) by (simp_all add: pool_ok_def sched_ok_def levels_ok_def)
  have "length (level s i) \<le> 10"
    using lv(1) assms(4) length_q_list [of st "mlq_ready_queue s ! i"] by (auto simp: levels_ok_def queue_ok_def)
  then have "before p (level s i) \<le> 9" using before_length [OF assms(3)] by linarith
  then show ?thesis using round_limit [OF assms(2) lv(2)] by (simp add: wait_bound_def)
qed

section \<open>Properties\<close>

text \<open>C12. Bounded waiting: a process that waits in a ready queue is among the next 197420 results of
  \<open>get_proc\<close>, whatever its priority, and whatever processes are put back or added meanwhile. As
  long as it has not been returned it stays in its queue, and fewer calls than that were made.\<close>

theorem bounded_waiting:
  assumes "pool_ok st s" "slots_within s" "p \<in># waiting s" "passed_over p (st, s) n (st', s')"
  shows "n < 197420 \<and> p \<in># waiting s'"
proof -
  obtain i where i: "i < 140" "p \<in> set (level s i)"
    using assms(1,3) in_waiting [of st s p] by (auto simp: pool_ok_def sched_ok_def)
  have run: "pool_ok st' s'" "p \<in> set (level s' i)" "n + wait_bound s' i p \<le> wait_bound s i p"
    using passed_over_bound [OF assms(4,1,2) i(2,1)] by simp_all
  then have "p \<in># waiting s'" using i(1) in_waiting [of st' s' p] by (auto simp: pool_ok_def sched_ok_def)
  then show ?thesis using wait_limit [OF assms(1,2) i(2,1)] run(3) by simp
qed

text \<open>Processes 6 and 7 wait at level 7, and process 5 at level 3 is served first.\<close>

theorem bounded_waiting_witness:
  "\<exists>n st' s'. passed_over (Some 7) (demo_store, demo_sched) (Suc n) (st', s') \<and> n < 197420 \<and> Some 7 \<in># waiting s'"
proof -
  have ok: "pool_ok demo_store demo_sched"
    using demo_sched_ok by (simp add: pool_ok_def list_ok_def demo_sched_def static_sched_def static_queue_def MAX_QUEUE_SIZE_def)
  have slots: "slots_within demo_sched" by (simp add: slots_within_def demo_sched_def static_sched_def MAX_PRIO_def)
  have "Some 7 \<in> set (level demo_sched 7)" by (simp add: demo_levels)
  then have w: "Some 7 \<in># waiting demo_sched"
    using in_waiting [of demo_store demo_sched "Some 7"] demo_sched_ok by (auto simp: sched_ok_def)
  obtain p s' where g: "get_proc demo_store demo_sched = Inr (p, s')" "get_spec demo_store demo_sched (p, s')"
    using get_mlq_proc_spec [OF demo_sched_ok] by (auto simp: get_proc_def)
  have "first_choice demo_sched = Some 3"
    unfolding first_choice_def eligible_def by code_simp
  then have "p = Some 5" using g(2) by (auto simp: get_spec_def served_def demo_levels)
  then have run: "passed_over (Some 7) (demo_store, demo_sched) (Suc 0) (demo_store, s')"
    by (intro passed_over.get [OF passed_over.start g(1)]) simp
  from bounded_waiting [OF ok slots w run] run show ?thesis by (intro exI [of _ 0] exI [of _ demo_store] exI [of _ s']) simp
qed

end
