(* ===== verification/Slots.thy ===== *)
theory Slots
  imports System
begin

text \<open>
  The threads of \<open>src/os.c\<close> against the timer of \<open>src/timer.c\<close>: each thread's position agrees
  with what the timer knows of it, so the slots of the timer are a barrier for the CPUs and
  the loader. Also the bounds of \<open>time_left\<close>, and the states that the program never leaves.
\<close>

section \<open>The time slice\<close>

definition slice_ok :: "int \<Rightarrow> cpu_t \<Rightarrow> bool" where
  "slice_ok ts c \<longleftrightarrow> 0 \<le> time_left c \<and> time_left c \<le> ts \<and> (c_pc c = C_Run \<longrightarrow> 0 < time_left c)"

lemma cpu_step_slice:
  assumes "cpu_step env s k = Some (Inr t)" "slice_ok (time_slot (conf s)) (cpus s ! k)" "0 < time_slot (conf s)"
  shows "\<exists>c. cpus t = (cpus s)[k := c] \<and> slice_ok (time_slot (conf s)) c"
  using assms
  by (auto simp: cpu_step_def Let_def cpu_loop_def cpu_run_def cpu_recheck_def fetch_def result_simps slice_ok_def
      split: cpu_pc.splits option.splits if_splits)

lemma reachable_slice:
  assumes "os_reachable env argv s" "0 < time_slot (conf s)"
  shows "\<forall>c \<in> set (cpus s). slice_ok (time_slot (conf s)) c"
  using assms
proof (induction rule: os_reachable.induct)
  case (boot s)
  then show ?case by (elim bootE) (auto simp: idle_cpu_def slice_ok_def)
next
  case (more s t)
  have conf: "conf t = conf s" using more.hyps(2) by (rule os_step_conf)
  with more have all: "\<forall>c \<in> set (cpus s). slice_ok (time_slot (conf s)) c" "0 < time_slot (conf s)" by simp_all
  from more.hyps(2) show ?case
  proof cases
    case (cpu k)
    then have "slice_ok (time_slot (conf s)) (cpus s ! k)" using all(1) by simp
    then obtain c where "cpus t = (cpus s)[k := c]" "slice_ok (time_slot (conf s)) c"
      using cpu_step_slice cpu(2) all(2) by blast
    then show ?thesis using all(1) conf set_update_subset_insert [of "cpus s" k c] by auto
  next
    case (loader a)
    then show ?thesis using ld_step_frame all(1) conf by simp
  next
    case main
    then show ?thesis using main_step_frame all(1) conf by simp
  qed (use all(1) conf in simp)
qed

section \<open>Threads and timer devices\<close>

fun cpu_dev :: "cpu_pc \<Rightarrow> device_pc" where
  "cpu_dev C_Wait = In_Next_Slot" | "cpu_dev C_Stopped = Detached" | "cpu_dev _ = Working"

fun ld_dev :: "ld_pc \<Rightarrow> device_pc" where
  "ld_dev L_Asleep = In_Next_Slot" | "ld_dev L_Wait = In_Next_Slot" | "ld_dev L_Stopped = Detached" | "ld_dev _ = Working"

definition all_stopped :: "os_t \<Rightarrow> bool" where
  "all_stopped s \<longleftrightarrow> (\<forall>c \<in> set (cpus s). c_pc c = C_Stopped) \<and> l_pc (ldr s) = L_Stopped"

definition clock_inv :: "os_t \<Rightarrow> bool" where
  "clock_inv s \<longleftrightarrow> timer_reachable (tmr s) \<and>
     (\<forall>k < length (cpus s). c_timer (cpus s ! k) = k \<and> dpc (tmr s) k = cpu_dev (c_pc (cpus s ! k))) \<and>
     l_timer (ldr s) = length (cpus s) \<and> dpc (tmr s) (length (cpus s)) = ld_dev (l_pc (ldr s)) \<and>
     (if m_pc s = M_Return then dev_list (tmr s) = [] else set (dev_list (tmr s)) = {..length (cpus s)}) \<and> (m_pc s \<noteq> M_Join \<longrightarrow> all_stopped s)"

lemma boot_clock: "boot env argv = Inr s \<Longrightarrow> clock_inv s"
  by (erule bootE) (simp add: clock_inv_def idle_cpu_def)

text \<open>A step of a CPU moves its timer device as its new position says, and no other.\<close>

lemma cpu_step_clock:
  assumes "cpu_step env s k = Some (Inr t)" "c_timer (cpus s ! k) = k" "dpc (tmr s) k = cpu_dev (c_pc (cpus s ! k))"
    "k \<in> set (dev_list (tmr s))"
  shows "\<exists>c. cpus t = (cpus s)[k := c] \<and> c_timer c = k \<and> (tmr t = tmr s \<or> tstep (tmr s) (tmr t)) \<and>
     dpc (tmr t) = (dpc (tmr s))(k := cpu_dev (c_pc c)) \<and> dev_list (tmr t) = dev_list (tmr s)"
proof -
  let ?c = "cpus s ! k"
  have same: "dpc (tmr s) = (dpc (tmr s))(k := Working)" if "cpu_dev (c_pc ?c) = Working"
    using assms(3) that by auto
  show ?thesis
  proof (cases "c_pc ?c")
    case C_Slot
    then have "t = set_cpu (set_tmr s (next_slot_begin (tmr s) k)) k (?c\<lparr>c_pc := C_Wait\<rparr>)"
      using assms(1,2) by (simp add: cpu_step_def Let_def)
    moreover have "tstep (tmr s) (next_slot_begin (tmr s) k)"
      using assms(3,4) C_Slot by (intro tstep.slot_begin) simp_all
    ultimately show ?thesis using assms(2) by (intro exI [of _ "?c\<lparr>c_pc := C_Wait\<rparr>"]) (simp add: next_slot_begin_def)
  next
    case C_Wait
    then obtain u where u: "next_slot_end (tmr s) k = Some u" "t = set_cpu (set_tmr s u) k (?c\<lparr>c_pc := C_Loop\<rparr>)"
      using assms(1,2) by (auto simp: cpu_step_def Let_def split: option.splits)
    moreover have "tstep (tmr s) u" using assms(3,4) C_Wait u(1) by (intro tstep.slot_end) simp_all
    ultimately show ?thesis using assms(2)
      by (intro exI [of _ "?c\<lparr>c_pc := C_Loop\<rparr>"]) (auto simp: next_slot_end_def split: if_splits)
  next
    case C_Detach
    then have "t = set_cpu (set_tmr s (detach_event (tmr s) k)) k (?c\<lparr>c_pc := C_Stopped\<rparr>)"
      using assms(1,2) by (simp add: cpu_step_def Let_def)
    moreover have "tstep (tmr s) (detach_event (tmr s) k)"
      using assms(3,4) C_Detach by (intro tstep.detach) simp_all
    ultimately show ?thesis using assms(2) by (intro exI [of _ "?c\<lparr>c_pc := C_Stopped\<rparr>"]) (simp add: detach_event_def)
  next
    case C_Stopped
    then show ?thesis using assms(1) by (simp add: cpu_step_def)
  qed (use same assms(1,2) in \<open>auto simp: cpu_step_def Let_def cpu_loop_def cpu_run_def cpu_recheck_def fetch_def result_simps
      split: option.splits if_splits\<close>)
qed


lemma ld_step_clock:
  assumes "ld_step env s a = Some (Inr t)" "l_timer (ldr s) = n" "dpc (tmr s) n = ld_dev (l_pc (ldr s))"
    "n \<in> set (dev_list (tmr s))"
  shows "l_timer (ldr t) = n \<and> (tmr t = tmr s \<or> tstep (tmr s) (tmr t)) \<and>
     dpc (tmr t) = (dpc (tmr s))(n := ld_dev (l_pc (ldr t))) \<and> dev_list (tmr t) = dev_list (tmr s)"
proof -
  have same: "dpc (tmr s) = (dpc (tmr s))(n := Working)" if "ld_dev (l_pc (ldr s)) = Working"
    using assms(3) that by auto
  have slot: "tstep (tmr s) (next_slot_begin (tmr s) n) \<and> tstep (tmr s) (detach_event (tmr s) n)" if "ld_dev (l_pc (ldr s)) = Working"
    using assms(3,4) that by (simp add: tstep.slot_begin tstep.detach)
  have slot_end: "tstep (tmr s) u \<and> dpc u = (dpc (tmr s))(n := Working) \<and> dev_list u = dev_list (tmr s)"
    if "ld_dev (l_pc (ldr s)) = In_Next_Slot" "next_slot_end (tmr s) n = Some u" for u
    using assms(3,4) that tstep.slot_end [of n "tmr s" u] by (auto simp: next_slot_end_def split: if_splits)
  have adm: "l_timer (ldr u) = n \<and> tmr u = tmr s \<and> l_pc (ldr u) = L_Slot" if "ld_admit env s = Inr u" for u
    using that assms(2) by (auto simp: ld_admit_def result_simps)
  have load: "l_timer (ldr u) = n \<and> tmr u = tmr s \<and> l_pc (ldr u) = L_Start" if "ld_load env s a = Inr u" for u
    using that assms(2) by (auto simp: ld_load_def Let_def result_simps)
  show ?thesis
  proof (cases "l_pc (ldr s)")
    case L_Loop
    then have "ld_load env s a = Inr t \<or> t = set_ldr (s\<lparr>os_done := 1\<rparr>) ((ldr s)\<lparr>l_pc := L_Detach\<rparr>)"
      using assms(1) by (auto simp: ld_step_def Let_def split: if_splits)
    then show ?thesis using load same assms(2) L_Loop by auto
  next
    case L_Start
    then have "ld_admit env s = Inr t \<or> t = set_ldr s ((ldr s)\<lparr>l_pc := L_Sleep\<rparr>)"
      using assms(1) by (auto simp: ld_step_def Let_def result_simps split: if_splits)
    then show ?thesis using adm same assms(2) L_Start by auto
  next
    case L_Asleep
    then obtain u where u: "next_slot_end (tmr s) n = Some u" "t = set_ldr (set_tmr s u) ((ldr s)\<lparr>l_pc := L_Start\<rparr>)"
      using assms(1,2) by (auto simp: ld_step_def Let_def split: option.splits)
    then show ?thesis using slot_end [OF _ u(1)] L_Asleep assms(2) by simp
  next
    case L_Wait
    then obtain u where u: "next_slot_end (tmr s) n = Some u" "t = set_ldr (set_tmr s u) ((ldr s)\<lparr>l_pc := L_Loop\<rparr>)"
      using assms(1,2) by (auto simp: ld_step_def Let_def split: option.splits)
    then show ?thesis using slot_end [OF _ u(1)] L_Wait assms(2) by simp
  qed (use assms(1,2) slot in \<open>auto simp: ld_step_def Let_def next_slot_begin_def detach_event_def\<close>)
qed

lemma timer_step_devs: "timer_step u = Some v \<Longrightarrow> dpc v = dpc u \<and> dev_list v = dev_list u"
  by (auto simp: timer_step_def split: timer_pc.splits list.splits if_splits)

lemma clock_step:
  assumes inv: "clock_inv s" and st: "os_step env s t"
  shows "clock_inv t"
  using st
proof cases
  case (cpu k)
  have notstop: "c_pc (cpus s ! k) \<noteq> C_Stopped" using cpu(2) by (auto simp: cpu_step_def Let_def)
  then have join: "m_pc s = M_Join" using inv cpu(1) unfolding clock_inv_def all_stopped_def by (metis nth_mem)
  then have dev: "set (dev_list (tmr s)) = {..length (cpus s)}" using inv by (simp add: clock_inv_def)
  obtain c where c: "cpus t = (cpus s)[k := c]" "c_timer c = k" "tmr t = tmr s \<or> tstep (tmr s) (tmr t)"
    "dpc (tmr t) = (dpc (tmr s))(k := cpu_dev (c_pc c))" "dev_list (tmr t) = dev_list (tmr s)"
    using cpu_step_clock [OF cpu(2)] inv cpu(1) dev by (auto simp: clock_inv_def)
  have "timer_reachable (tmr t)" using c(3) inv timer_reachable.more by (auto simp: clock_inv_def)
  then show ?thesis
    using inv c dev join cpu_step_frame [OF cpu(2)] cpu(1) by (auto simp: clock_inv_def nth_list_update)
next
  case (loader a)
  have "l_pc (ldr s) \<noteq> L_Stopped" using loader(2) by (auto simp: ld_step_def Let_def)
  then have join: "m_pc s = M_Join" using inv unfolding clock_inv_def all_stopped_def by metis
  then have dev: "set (dev_list (tmr s)) = {..length (cpus s)}" using inv by (simp add: clock_inv_def)
  have l: "l_timer (ldr t) = length (cpus s)" "tmr t = tmr s \<or> tstep (tmr s) (tmr t)"
    "dpc (tmr t) = (dpc (tmr s))(length (cpus s) := ld_dev (l_pc (ldr t)))" "dev_list (tmr t) = dev_list (tmr s)"
    using ld_step_clock [OF loader(2), of "length (cpus s)"] inv dev by (auto simp: clock_inv_def)
  have "timer_reachable (tmr t)" using l(2) inv timer_reachable.more by (auto simp: clock_inv_def)
  then show ?thesis
    using inv l dev join ld_step_frame [OF loader(2)] by (auto simp: clock_inv_def)
next
  case (timer u)
  have "timer_reachable u" using inv timer(2) by (meson clock_inv_def timer_reachable.more tstep.timer)
  then show ?thesis using inv timer timer_step_devs [OF timer(2)] by (simp add: clock_inv_def all_stopped_def)
next
  case main
  have r: "timer_reachable (tmr s)" using inv by (simp add: clock_inv_def)
  show ?thesis
  proof (cases "m_pc s")
    case M_Join
    then have "all_stopped s" and t: "t = set_tmr (s\<lparr>m_pc := M_Stop\<rparr>) (stop_request (tmr s))"
      using main by (auto simp: main_step_def all_stopped_def split: if_splits)
    moreover have "timer_reachable (stop_request (tmr s))" using r tstep.stop by (meson timer_reachable.more)
    ultimately show ?thesis using inv M_Join by (simp add: clock_inv_def all_stopped_def set_tmr_def stop_request_def)
  next
    case M_Stop
    then obtain u where u: "stop_join (tmr s) = Some u" and t: "t = set_tmr (s\<lparr>m_pc := M_Return\<rparr>) u"
      using main by (auto simp: main_step_def split: option.splits)
    have "timer_reachable u" using r u tstep.join by (meson timer_reachable.more)
    moreover have "dpc u = dpc (tmr s)" "dev_list u = []" using u by (auto simp: stop_join_def split: if_splits)
    ultimately show ?thesis using inv M_Stop t by (simp add: clock_inv_def all_stopped_def set_tmr_def)
  qed (use main in \<open>simp add: main_step_def\<close>)
qed

lemma reachable_clock: "os_reachable env argv s \<Longrightarrow> clock_inv s"
  by (induction rule: os_reachable.induct) (auto intro: boot_clock clock_step)

section \<open>States the program never leaves\<close>

definition idle :: "cpu_t \<Rightarrow> bool" where
  "idle c \<longleftrightarrow> c_proc c = None \<and> c_pc c \<in> {C_Loop, C_Slot, C_Wait}"

text \<open>Nothing waits, nothing is left to load, and every CPU has found its variable NULL.\<close>

definition idle_inv :: "os_t \<Rightarrow> bool" where
  "idle_inv s \<longleftrightarrow> pool_ok (store s) (sch s) \<and> waiting (sch s) = {#} \<and> \<not> preparing (ldr s) \<and>
     num_processes (conf s) \<le> int (l_i (ldr s)) \<and> (\<forall>c \<in> set (cpus s). idle c) \<and> cpus s \<noteq> [] \<and> m_pc s = M_Join"

lemma idle_fetch:
  assumes "pool_ok (store s) (sch s)" "waiting (sch s) = {#}" "fetch s = Inr (p, s')"
  shows "p = None \<and> (\<exists>sc. s' = set_sch s sc \<and> pool_ok (store s) sc \<and> waiting sc = {#})"
proof -
  obtain sc where "get_proc (store s) (sch s) = Inr (p, sc)" "s' = set_sch s sc"
    using assms(3) by (auto simp: fetch_def result_simps)
  then show ?thesis using pool.get_admissible [OF assms(1)] assms(2) by fastforce
qed

lemma idle_cpu_step:
  assumes inv: "idle_inv s" and k: "k < length (cpus s)" and st: "cpu_step env s k = Some (Inr t)"
  shows "pool_ok (store t) (sch t) \<and> waiting (sch t) = {#} \<and> (\<exists>c. cpus t = (cpus s)[k := c] \<and> idle c)"
proof -
  let ?c = "cpus s ! k"
  have c: "idle ?c" and ok: "pool_ok (store s) (sch s)" "waiting (sch s) = {#}" using inv k by (simp_all add: idle_inv_def)
  show ?thesis
  proof (cases "c_pc ?c = C_Loop")
    case True
    then obtain p s' where f: "fetch s = Inr (p, s')"
      and t: "t = set_cpu s' k (?c\<lparr>c_proc := p, c_pc := if p = None then C_Slot else C_Recheck\<rparr>)"
      using st c by (auto simp: cpu_step_def cpu_loop_def idle_def result_simps)
    from idle_fetch [OF ok f] show ?thesis by (auto simp: t idle_def)
  next
    case False
    let ?d = "?c\<lparr>c_pc := if c_pc ?c = C_Slot then C_Wait else C_Loop\<rparr>"
    have "cpus t = (cpus s)[k := ?d] \<and> mach t = mach s" "idle ?d"
      using False st c by (auto simp: cpu_step_def Let_def idle_def split: option.splits)
    then show ?thesis using ok by metis
  qed
qed

lemma idle_step:
  assumes inv: "idle_inv s" and st: "os_step env s t"
  shows "idle_inv t"
  using st
proof cases
  case (cpu k)
  obtain c where "cpus t = (cpus s)[k := c]" "idle c" "pool_ok (store t) (sch t)" "waiting (sch t) = {#}"
    using idle_cpu_step [OF inv cpu] by blast
  then show ?thesis
    using inv cpu_step_frame [OF cpu(2)] set_update_subset_insert [of "cpus s" k c] by (auto simp: idle_inv_def)
next
  case (loader a)
  then show ?thesis using inv
    by (auto simp: ld_step_def Let_def idle_inv_def preparing_def split: ld_pc.splits option.splits if_splits)
next
  case (timer u)
  then show ?thesis using inv by (simp add: idle_inv_def)
next
  case main
  have "\<not> (\<forall>c \<in> set (cpus s). c_pc c = C_Stopped)" "m_pc s = M_Join"
    using inv by (cases "cpus s"; auto simp: idle_inv_def idle_def)+
  then have "main_step s = None" unfolding main_step_def by simp
  with main show ?thesis by simp
qed

lemma idle_steps: "os_steps env s t \<Longrightarrow> idle_inv s \<Longrightarrow> idle_inv t"
  by (induction rule: os_steps.induct) (auto intro: idle_step)

section \<open>Properties\<close>

text \<open>C14. The CPUs and the loader work in lock step: in every reachable state, a CPU that is not
  waiting in \<open>next_slot\<close> and has not stopped has been through exactly as many slots as the
  timer has counted, so all CPUs at work are in the same slot; and the timer does not
  advance the time while one of them is at work.\<close>

theorem cpus_in_lock_step:
  assumes "os_reachable env argv s" "k < length (cpus s)" "c_pc (cpus s ! k) \<notin> {C_Wait, C_Stopped}"
  shows "slots (tmr s) k = ticks (tmr s) \<and> current_time (tmr s) = word_of_nat (ticks (tmr s)) \<and>
     (\<forall>t. timer_step (tmr s) = Some t \<longrightarrow> current_time t = current_time (tmr s))"
proof -
  have inv: "clock_inv s" using assms(1) by (rule reachable_clock)
  then have tm: "timer_inv (tmr s)" by (simp add: clock_inv_def reachable_inv)
  have w: "dpc (tmr s) k = Working" using inv assms(2,3) by (cases "c_pc (cpus s ! k)") (auto simp: clock_inv_def)
  have "m_pc s = M_Join" using inv assms(2,3) unfolding clock_inv_def all_stopped_def by (metis insertCI nth_mem)
  then have "k \<in> set (dev_list (tmr s))" using inv assms(2) by (simp add: clock_inv_def)
  with tm have dev: "device_ok (tmr s) k" by (simp add: timer_inv_def)
  have "slots (tmr s) k = ticks (tmr s)" using dev w by (simp add: device_ok_def)
  moreover have "current_time (tmr s) = word_of_nat (ticks (tmr s))" using tm by (simp add: timer_inv_def current_time_def)
  ultimately show ?thesis using time_stands [OF dev] w by blast
qed

text \<open>C27. The time slice is respected: when the configured slot is positive, \<open>time_left\<close> of every
  CPU stays between 0 and the slot, and is positive whenever an instruction is executed; so
  a process runs at most that many instructions before the CPU puts it back, and the
  counter never overflows.\<close>

theorem time_slice_bounds:
  assumes "os_reachable env argv s" "0 < time_slot (conf s)" "c \<in> set (cpus s)"
  shows "0 \<le> time_left c \<and> time_left c \<le> time_slot (conf s) \<and> (c_pc c = C_Run \<longrightarrow> 0 < time_left c)"
  using reachable_slice [OF assms(1,2)] assms(3) by (simp add: slice_ok_def)

text \<open>C25. An idle CPU never stops: it only looks at \<open>done\<close> after it had a process. Once no
  process waits, none is left to load and every CPU is idle, then whatever happens, no CPU
  stops, \<open>main\<close> waits for them forever, and the program does not end.\<close>

theorem idle_system_never_ends:
  assumes "os_reachable env argv s" "waiting (sch s) = {#}" "\<not> preparing (ldr s)"
    and "num_processes (conf s) \<le> int (l_i (ldr s))" "cpus s \<noteq> []"
    and "\<forall>c \<in> set (cpus s). c_proc c = None \<and> c_pc c \<in> {C_Loop, C_Slot, C_Wait}"
    and "os_steps env s t"
  shows "(\<forall>c \<in> set (cpus t). c_pc c \<noteq> C_Stopped) \<and> m_pc t = M_Join"
proof -
  note reachable_os [OF assms(1)]
  moreover have "\<not> all_stopped s" using assms(5,6) by (cases "cpus s") (auto simp: all_stopped_def)
  then have "m_pc s = M_Join" using reachable_clock [OF assms(1)] by (auto simp: clock_inv_def)
  ultimately have "idle_inv s" using assms(2-6) os_inv_pool by (simp add: idle_inv_def idle_def)
  then have "idle_inv t" by (rule idle_steps [OF assms(7)])
  then show ?thesis by (auto simp: idle_inv_def idle_def)
qed


theorem cpus_in_lock_step_witness:
  "\<exists>s. os_reachable tiny_env [''os'', ''tiny''] s \<and> c_proc (cpus s ! 0) = Some 5 \<and> slots (tmr s) 0 = 1"
proof -
  obtain s t where s: "os_step tiny_env s t" "os_reachable tiny_env [''os'', ''tiny''] s" "ticks (tmr s) = 1"
    "cpus s = [\<lparr>c_pc = C_Run, c_timer = 0, c_proc = Some 5, time_left = 6\<rparr>]" by (rule tiny_state)
  then have "slots (tmr s) 0 = 1" using cpus_in_lock_step [OF s(2), of 0] by simp
  with s(2,4) show ?thesis by auto
qed

theorem time_slice_bounds_witness:
  "\<exists>s c. os_reachable tiny_env [''os'', ''tiny''] s \<and> c \<in> set (cpus s) \<and> c_pc c = C_Run \<and> 0 < time_left c \<and> time_left c \<le> 6"
proof -
  obtain s t where s: "os_step tiny_env s t" "os_reachable tiny_env [''os'', ''tiny''] s" "time_slot (conf s) = 6"
    "cpus s = [\<lparr>c_pc = C_Run, c_timer = 0, c_proc = Some 5, time_left = 6\<rparr>]" by (rule tiny_state)
  let ?c = "\<lparr>c_pc = C_Run, c_timer = 0, c_proc = Some 5, time_left = 6\<rparr>"
  have "?c \<in> set (cpus s)" "c_pc ?c = C_Run" using s(4) by simp_all
  moreover from time_slice_bounds [OF s(2) _ this(1)] s(3) have "0 < time_left ?c" "time_left ?c \<le> 6" by simp_all
  ultimately show ?thesis using s(2) by blast
qed

text \<open>A configuration without processes.\<close>

definition empty_env :: env_t where
  "empty_env = tiny_env\<lparr>env_fs := [''input/none'' \<mapsto> ''6 2 0'' @ [newline] @ ''512 256 0 0 0'' @ [newline]]\<rparr>"

lemma empty_run: "map_option (\<lambda>s. (digest s, list_all (\<lambda>q. qsize q = 0) (mlq_ready_queue (sch s)), l_i (ldr s)))
     (start_run empty_env [''os'', ''none''] []) =
   Some ((map idle_cpu [0, 1], L_Loop, 0, 6, 0, []), True, 0)"
  by code_simp

theorem idle_system_never_ends_witness:
  "\<exists>s. os_reachable empty_env [''os'', ''none''] s \<and> (\<forall>t. os_steps empty_env s t \<longrightarrow> m_pc t = M_Join)"
proof -
  obtain s where s: "start_run empty_env [''os'', ''none''] [] = Some s" "list_all (\<lambda>q. qsize q = 0) (mlq_ready_queue (sch s))"
    "cpus s = map idle_cpu [0, 1]" "l_pc (ldr s) = L_Loop" "num_processes (conf s) = 0" "ld_processes (conf s) = []"
    using empty_run by (auto simp: map_option_eq_Some digest_def)
  have r: "os_reachable empty_env [''os'', ''none''] s" using start_run_reachable [OF s(1)] .
  have "q_list q = []" if "q \<in> set (mlq_ready_queue (sch s))" for q using s(2) that by (simp add: list_all_iff q_list_def)
  then have w: "waiting (sch s) = {#}" by (simp add: waiting_def)
  have "m_pc t = M_Join" if "os_steps empty_env s t" for t
    using idle_system_never_ends [OF r w _ _ _ _ that] s(3-6)
    by (simp add: preparing_def idle_cpu_def)
  with r show ?thesis by blast
qed

end
