(* ===== verification/Waits.thy ===== *)
theory Waits
  imports Fair Slots
begin

text \<open>
  Bounded waiting in the running simulator: the potential of \<open>Fair\<close> along the steps of \<open>System\<close>.
  While a process stays in a ready queue, whatever step the CPUs, the loader, the timer or \<open>main\<close>
  take, its potential never grows, and every call of \<open>get_proc\<close> lowers it. The lemmas also cover
  \<open>killall\<close> as a single step; the property at the end is about programs that do not call it.
\<close>

section \<open>What a step does to the scheduler\<close>

text \<open>The CPU's next step is a call of \<open>get_proc\<close>.\<close>

definition asks :: "cpu_t \<Rightarrow> bool" where
  "asks c \<longleftrightarrow> c_pc c = C_Fetch \<or> c_pc c = C_Loop \<and> c_proc c = None"

inductive sched_effect :: "os_t \<Rightarrow> os_t \<Rightarrow> bool" where
  none: "sch t = sch s \<Longrightarrow> sched_effect s t"
| get: "get_proc (store s) (sch s) = Inr (q, sch t) \<Longrightarrow> sched_effect s t"
| put: "similar (store s) st \<Longrightarrow> put_proc st (sch s) (Some a) = Inr (store t, sch t) \<Longrightarrow> sched_effect s t"
| drop: "similar (store s) (store t) \<Longrightarrow> pool_ok (store t) (sch t) \<Longrightarrow> fronts_dropped (sch s) (sch t) \<Longrightarrow> sched_effect s t"

lemma fetch_get: "fetch s = Inr (p, s') \<Longrightarrow> get_proc (store s) (sch s) = Inr (p, sch s')"
  by (auto simp: fetch_def result_simps)

lemma asking_gets:
  assumes "asks (cpus s ! k)" "cpu_step env s k = Some (Inr t)"
  shows "\<exists>q. get_proc (store s) (sch s) = Inr (q, sch t)"
proof -
  obtain q s' where "fetch s = Inr (q, s')" "sch t = sch s'"
    using assms by (auto simp: asks_def cpu_step_def cpu_loop_def result_simps)
  then show ?thesis using fetch_get by metis
qed

lemma cpu_step_effect:
  assumes inv: "os_inv C s" and k: "k < length (cpus s)" and st: "cpu_step env s k = Some (Inr t)"
  shows "sched_effect s t"
proof (cases "asks (cpus s ! k)")
  case True
  then show ?thesis using asking_gets [OF True st] sched_effect.get by blast
next
  case False
  let ?c = "cpus s ! k"
  have ok: "cpu_ok (store s) ?c" using os_inv_cpu [OF inv k] .
  show ?thesis
  proof (cases "c_pc ?c")
    case C_Loop
    with False obtain a where "c_proc ?c = Some a" by (auto simp: asks_def)
    with C_Loop st consider "sch t = sch s" | "put_proc (store s) (sch s) (Some a) = Inr (store t, sch t)"
      by (auto simp: cpu_step_def cpu_loop_def Let_def result_simps split: if_splits)
    then show ?thesis by cases (simp_all add: sched_effect.none sched_effect.put [OF similar_refl])
  next
    case C_Run
    with ok obtain a where a: "c_proc ?c = Some a" by (auto simp: cpu_ok_def)
    with ok C_Run obtain b where b: "store s a = Some b" by (auto simp: cpu_ok_def holding_def admissible_def live_def)
    obtain v mc n where run: "run (env_host env) (mach s) (Some a) = Inr (v, mc)" and t: "mach t = mc"
      using st C_Run a by (auto simp: cpu_step_def cpu_run_def Let_def result_simps)
    show ?thesis
      using run_pool [OF run b os_inv_pool [OF inv]] by (intro sched_effect.drop) (simp_all add: t pool_shrinks_def)
  qed (use False st in \<open>auto simp: asks_def cpu_step_def Let_def split: option.splits intro: sched_effect.none\<close>)
qed

lemma ld_step_effect:
  assumes "ld_step env s a = Some (Inr t)"
  shows "sched_effect s t"
proof -
  consider "sch t = sch s" | "ld_admit env s = Inr t"
    using assms by (auto simp: ld_step_def Let_def ld_load_def result_simps split: ld_pc.splits option.splits if_splits)
  then show ?thesis
  proof cases
    case 2
    then obtain x b where x: "store s x = Some b"
      and put: "put_proc ((store s)(x \<mapsto> give_memory env (l_i (ldr s)) b)) (sch s) (Some x) = Inr (store t, sch t)"
      by (auto simp: ld_admit_def result_simps add_proc_eq)
    have "similar (store s) ((store s)(x \<mapsto> give_memory env (l_i (ldr s)) b))"
      by (rule similar_update, rule x) (simp add: kept_def on_devices_def give_memory_def)
    then show ?thesis using put sched_effect.put by blast
  qed (rule sched_effect.none)
qed

lemma os_step_effect:
  assumes "os_inv C s" "os_step env s t"
  shows "sched_effect s t"
  using assms(2)
proof cases
  case (cpu k)
  then show ?thesis using cpu_step_effect [OF assms(1)] by blast
next
  case (loader a)
  then show ?thesis using ld_step_effect by blast
next
  case main
  then show ?thesis using main_step_frame by (simp add: sched_effect.none)
qed (simp add: sched_effect.none)

section \<open>The potential along a step\<close>

lemma waits_once:
  assumes "os_inv C s"
  shows "Multiset.count (waiting (sch s)) p \<le> 1"
proof -
  have "Multiset.count (waiting (sch s)) p \<le> Multiset.count (places s) p" by (simp add: places_def)
  also have "\<dots> \<le> 1" using assms by (simp add: os_inv_def)
  finally show ?thesis .
qed

lemma level_once:
  assumes "os_inv C s" "i < 140"
  shows "distinct (level (sch s) i)"
proof -
  have "level (sch s) i \<in> set (map q_list (mlq_ready_queue (sch s)))"
    using os_inv_pool [OF assms(1)] assms(2) by (auto simp: pool_ok_def sched_ok_def levels_ok_def)
  then have "mset (level (sch s) i) \<subseteq># waiting (sch s)"
    unfolding waiting_def by (auto dest!: split_list)
  then have "Multiset.count (mset (level (sch s) i)) p \<le> 1" for p
    using waits_once [OF assms(1), of p] mset_subset_eq_count le_trans by metis
  then show ?thesis by (simp add: distinct_count_atmost_1 le_Suc_eq count_greater_zero_iff flip: not_in_iff)
qed

lemma before_drop:
  assumes "distinct ps" "p \<in> set (drop n ps)"
  shows "before p (drop n ps) \<le> before p ps"
  using assms
proof (induction ps arbitrary: n)
  case (Cons q ps)
  then show ?case by (cases n) (auto dest: in_set_dropD intro: le_SucI)
qed simp

lemma prio_level:
  assumes "pool_ok st s" "p \<in> set (level s i)" "i < 140"
  shows "uint (prio_of st p) = int i"
  using assms by (simp add: pool_ok_def sched_ok_def levels_ok_def)

lemma drop_lowers_bound:
  assumes inv: "os_inv C s" and p: "p \<in> set (level (sch s) i)" "i < 140" and stays: "p \<in># waiting (sch t)"
    and sim: "similar (store s) (store t)" and ok: "pool_ok (store t) (sch t)" and drop: "fronts_dropped (sch s) (sch t)"
  shows "p \<in> set (level (sch t) i) \<and> wait_bound (sch t) i p \<le> wait_bound (sch s) i p"
proof -
  obtain j where j: "j < 140" "p \<in> set (level (sch t) j)"
    using stays in_waiting [of "store t" "sch t" p] ok by (auto simp: pool_ok_def sched_ok_def)
  have "int i = int j"
    using prio_level [OF ok j(2,1)] prio_level [OF os_inv_pool [OF inv] p] similar_live(2) [OF sim] by simp
  then have pt: "p \<in> set (level (sch t) i)" using j(2) by simp
  obtain n where n: "level (sch t) i = drop n (level (sch s) i)" using drop p(2) by (auto simp: fronts_dropped_def)
  have "before p (level (sch t) i) \<le> before p (level (sch s) i)"
    using before_drop [OF level_once [OF inv p(2)]] pt n by simp
  moreover have "left_at (sch t) = left_at (sch s)" "has_turn (sch t) i = has_turn (sch s) i"
    using drop by (auto simp: fronts_dropped_def left_at_def has_turn_def fun_eq_iff)
  ultimately show ?thesis using pt by (simp add: wait_bound_def round_left_def)
qed

lemma get_passes:
  assumes inv: "os_inv C s" "slots_within (sch s)" and p: "p \<in> set (level (sch s) i)" "i < 140"
    and stays: "p \<in># waiting (sch t)" and get: "get_proc (store s) (sch s) = Inr (q, sch t)"
  shows "p \<in> set (level (sch t) i) \<and> wait_bound (sch t) i p < wait_bound (sch s) i p"
proof -
  have ok: "sched_ok (store s) (sch s)" using os_inv_pool [OF inv(1)] by (simp add: pool_ok_def)
  have "get_spec (store s) (sch s) (q, sch t)" using get_mlq_proc_spec [OF ok] get by (auto simp: get_proc_def)
  moreover have "q \<noteq> p"
  proof
    assume q: "q = p"
    have "admissible (store s) p"
      using waiting_admissible [OF os_inv_pool [OF inv(1)]] p in_waiting [of "store s" "sch s" p] ok
      by (auto simp: sched_ok_def)
    then have "waiting (sch s) = add_mset p (waiting (sch t))"
      using pool.get_law [OF os_inv_pool [OF inv(1)]] get q by (auto simp: admissible_def live_def)
    then have "2 \<le> Multiset.count (waiting (sch s)) p" using stays by (simp add: Suc_le_eq)
    then show False using waits_once [OF inv(1), of p] by simp
  qed
  ultimately show ?thesis using get_lowers_bound [OF ok inv(2) p] by blast
qed

lemma effect_slots:
  assumes "sched_effect s t" "pool_ok (store s) (sch s)" "slots_within (sch s)"
  shows "slots_within (sch t)"
  using assms(1)
proof cases
  case (get q)
  have ok: "sched_ok (store s) (sch s)" using assms(2) by (simp add: pool_ok_def)
  have "get_spec (store s) (sch s) (q, sch t)" using get_mlq_proc_spec [OF ok] get by (auto simp: get_proc_def)
  then show ?thesis by (rule get_spec_slots [OF ok assms(3)])
next
  case (put st a)
  then show ?thesis using put_keeps_slots [OF pool_similar [OF assms(2)]] assms(3) by blast
qed (use assms(3) in \<open>simp_all add: fronts_dropped_def slots_within_def\<close>)

lemma effect_keeps_bound:
  assumes eff: "sched_effect s t" and inv: "os_inv C s" "slots_within (sch s)"
    and p: "p \<in> set (level (sch s) i)" "i < 140" and stays: "p \<in># waiting (sch t)"
  shows "p \<in> set (level (sch t) i) \<and> wait_bound (sch t) i p \<le> wait_bound (sch s) i p"
  using eff
proof cases
  case (get q)
  then show ?thesis using get_passes [OF inv p stays] by (simp add: less_imp_le)
next
  case (put st a)
  have "pool_ok st (sch s)" using pool_similar [OF os_inv_pool [OF inv(1)]] put(1) .
  from put_keeps_bound [OF this put(2) p] show ?thesis by simp
next
  case drop
  then show ?thesis by (rule drop_lowers_bound [OF inv(1) p stays])
qed (use p in \<open>simp add: wait_bound_def has_turn_def round_left_def left_at_def\<close>)

section \<open>The slots until a CPU asks\<close>

text \<open>How many slots the CPU can pass before it calls \<open>get_proc\<close> again, for time slices of \<open>T\<close>.\<close>

definition rem_slots :: "nat \<Rightarrow> cpu_t \<Rightarrow> nat" where
  "rem_slots T c =
     (case c_pc c of
        C_Loop \<Rightarrow> if c_proc c = None then 0 else nat (time_left c)
      | C_Recheck \<Rightarrow> if c_proc c = None then 1 else if time_left c = 0 then T else nat (time_left c)
      | C_Run \<Rightarrow> nat (time_left c)
      | C_Slot \<Rightarrow> if c_proc c = None then 1 else Suc (nat (time_left c))
      | C_Wait \<Rightarrow> if c_proc c = None then 1 else Suc (nat (time_left c))
      | _ \<Rightarrow> 0)"

lemma rem_slots_limit: "slice_ok (int T) c \<Longrightarrow> rem_slots T c \<le> Suc T"
  by (auto simp: rem_slots_def slice_ok_def split: cpu_pc.splits)

lemma rem_after_asking:
  assumes "asks (cpus s ! k)" "cpu_step env s k = Some (Inr t)" "k < length (cpus s)"
    and "slice_ok (int T) (cpus s ! k)" "0 < T"
  shows "rem_slots T (cpus t ! k) \<le> T \<and> slots (tmr t) k = slots (tmr s) k"
  using assms
  by (auto simp: asks_def cpu_step_def cpu_loop_def fetch_def Let_def result_simps rem_slots_def slice_ok_def)

lemma rem_decreases:
  assumes "\<not> asks (cpus s ! k)" "cpu_step env s k = Some (Inr t)" "k < length (cpus s)"
    and "slice_ok (int T) (cpus s ! k)" "T = nat (time_slot (conf s))" "0 < time_slot (conf s)" "c_timer (cpus s ! k) = k"
  shows "slots (tmr t) k + rem_slots T (cpus t ! k) \<le> slots (tmr s) k + rem_slots T (cpus s ! k)"
proof (cases "c_pc (cpus s ! k)")
  case C_Loop
  then show ?thesis using assms
    by (auto simp: asks_def cpu_step_def cpu_loop_def Let_def result_simps rem_slots_def split: if_splits)
next
  case C_Recheck
  then show ?thesis using assms by (auto simp: cpu_step_def cpu_recheck_def rem_slots_def Let_def)
next
  case C_Run
  then obtain r mc where run: "run (env_host env) (mach s) (c_proc (cpus s ! k)) = Inr (r, mc)"
    and t: "t = set_cpu (s\<lparr>mach := mc\<rparr>) k ((cpus s ! k)\<lparr>time_left := time_left (cpus s ! k) - 1, c_pc := C_Slot\<rparr>)"
    using assms(2) by (auto simp: cpu_step_def cpu_run_def Let_def result_simps)
  have "c_proc (cpus s ! k) \<noteq> None" using run by (auto simp: run_def result_simps)
  then show ?thesis using C_Run assms(3,4) by (auto simp: t rem_slots_def slice_ok_def)
next
  case C_Wait
  then show ?thesis using assms
    by (auto simp: cpu_step_def Let_def rem_slots_def next_slot_end_def split: option.splits if_splits)
qed (use assms in \<open>auto simp: asks_def cpu_step_def Let_def rem_slots_def next_slot_begin_def detach_event_def\<close>)

text \<open>The steps of the other threads.\<close>

lemma others_keep:
  assumes "os_reachable env argv s" "os_step env s t" "k < length (cpus s)"
    and "cpu_step env s k \<noteq> Some (Inr t)"
  shows "cpus t ! k = cpus s ! k \<and> slots (tmr t) k = slots (tmr s) k"
proof -
  have clock: "clock_inv s" using assms(1) by (rule reachable_clock)
  from assms(2) show ?thesis
  proof cases
    case (cpu j)
    have "j \<noteq> k" using cpu assms(4) by auto
    moreover have "c_timer (cpus s ! j) = j" using clock cpu(1) by (simp add: clock_inv_def)
    ultimately show ?thesis using cpu
      by (auto simp: cpu_step_def cpu_loop_def cpu_run_def fetch_def Let_def result_simps next_slot_begin_def
          next_slot_end_def detach_event_def split: cpu_pc.splits option.splits if_splits)
  next
    case (loader a)
    have "l_timer (ldr s) \<noteq> k" using clock assms(3) by (simp add: clock_inv_def)
    then show ?thesis using loader
      by (auto simp: ld_step_def ld_load_def ld_admit_def Let_def result_simps next_slot_begin_def
          next_slot_end_def detach_event_def split: ld_pc.splits option.splits if_splits)
  next
    case (timer t')
    then show ?thesis by (auto simp: timer_step_def split: timer_pc.splits list.splits if_splits)
  next
    case main
    then show ?thesis
      by (auto simp: main_step_def stop_request_def stop_join_def split: main_pc.splits if_splits option.splits)
  qed
qed

section \<open>Runs\<close>

lemma os_step_cpus: "os_step env s t \<Longrightarrow> length (cpus t) = length (cpus s)"
  by (erule os_stepE) (auto dest: cpu_step_frame ld_step_frame main_step_frame)

text \<open>A run from \<open>s\<close> in which \<open>p\<close> waits in every state.\<close>

inductive keeps_waiting :: "env_t \<Rightarrow> pcb_ptr \<Rightarrow> os_t \<Rightarrow> os_t \<Rightarrow> bool" for env p s where
  start: "p \<in># waiting (sch s) \<Longrightarrow> keeps_waiting env p s s"
| step: "keeps_waiting env p s t \<Longrightarrow> os_step env t u \<Longrightarrow> p \<in># waiting (sch u) \<Longrightarrow> keeps_waiting env p s u"

lemma reachable_slots:
  assumes "os_reachable env argv s"
  shows "slots_within (sch s)"
  using assms
proof (induction rule: os_reachable.induct)
  case (boot s)
  then have "sch s = init_scheduler static_sched" by (rule bootE)
  then show ?case by (simp add: slots_within_def init_scheduler_def static_sched_def MAX_PRIO_def)
next
  case (more s t)
  note inv = reachable_os [OF more.hyps(1)]
  show ?case by (rule effect_slots [OF os_step_effect [OF inv more.hyps(2)] os_inv_pool [OF inv] more.IH])
qed

text \<open>The slots that CPU \<open>k\<close> has passed, and a bound on those it can still pass while \<open>p\<close> waits.\<close>

definition slot_bound :: "os_t \<Rightarrow> nat \<Rightarrow> nat \<Rightarrow> pcb_ptr \<Rightarrow> nat" where
  "slot_bound s k i p = slots (tmr s) k + nat (time_slot (conf s)) * wait_bound (sch s) i p +
     rem_slots (nat (time_slot (conf s))) (cpus s ! k)"

lemma slot_bound_step:
  assumes reach: "os_reachable env argv s" and slice: "0 < time_slot (conf s)" and st: "os_step env s t"
    and k: "k < length (cpus s)" and p: "p \<in> set (level (sch s) i)" "i < 140" and stays: "p \<in># waiting (sch t)"
  shows "p \<in> set (level (sch t) i) \<and> slot_bound t k i p \<le> slot_bound s k i p"
proof -
  let ?T = "nat (time_slot (conf s))"
  note inv = reachable_os [OF reach] and slots = reachable_slots [OF reach]
  have conf: "conf t = conf s" using os_step_conf [OF st] .
  have slice_k: "slice_ok (int ?T) (cpus s ! k)" using reachable_slice [OF reach slice] slice k by simp
  have clock: "c_timer (cpus s ! k) = k" using reachable_clock [OF reach] k by (simp add: clock_inv_def)
  have keeps: "p \<in> set (level (sch t) i)" "wait_bound (sch t) i p \<le> wait_bound (sch s) i p"
    using effect_keeps_bound [OF os_step_effect [OF inv st] inv slots p stays] by simp_all
  then have calls: "?T * wait_bound (sch t) i p \<le> ?T * wait_bound (sch s) i p" by simp
  consider (asks) "asks (cpus s ! k)" "cpu_step env s k = Some (Inr t)"
    | (works) "\<not> asks (cpus s ! k)" "cpu_step env s k = Some (Inr t)" | (other) "cpu_step env s k \<noteq> Some (Inr t)" by blast
  then have "slot_bound t k i p \<le> slot_bound s k i p"
  proof cases
    case asks
    then obtain q where "get_proc (store s) (sch s) = Inr (q, sch t)" using asking_gets by blast
    then have "Suc (wait_bound (sch t) i p) \<le> wait_bound (sch s) i p"
      using get_passes [OF inv slots p stays] by (simp add: Suc_le_eq)
    then have "?T * Suc (wait_bound (sch t) i p) \<le> ?T * wait_bound (sch s) i p" by (rule mult_le_mono2)
    then show ?thesis using rem_after_asking [OF asks k slice_k] slice by (simp add: slot_bound_def conf)
  next
    case works
    then show ?thesis using rem_decreases [OF works k slice_k HOL.refl slice clock] calls
      unfolding slot_bound_def conf by linarith
  next
    case other
    then show ?thesis using others_keep [OF reach st k] calls by (simp add: slot_bound_def conf)
  qed
  then show ?thesis using keeps(1) by blast
qed

lemma keeps_waiting_cpus: "keeps_waiting env p s t \<Longrightarrow> length (cpus t) = length (cpus s) \<and> p \<in># waiting (sch s)"
  by (induction rule: keeps_waiting.induct) (auto simp: os_step_cpus)

lemma keeps_waiting_stopped:
  assumes "keeps_waiting env p s t" "os_reachable env argv s" "k < length (cpus s)" "c_pc (cpus s ! k) = C_Stopped"
  shows "os_reachable env argv t \<and> c_pc (cpus t ! k) = C_Stopped"
  using assms(1)
proof (induction rule: keeps_waiting.induct)
  case (step t u)
  then have t: "os_reachable env argv t" "c_pc (cpus t ! k) = C_Stopped" by simp_all
  then have "cpu_step env t k \<noteq> Some (Inr u)" by (simp add: cpu_step_def Let_def)
  with others_keep [OF t(1) step.hyps(2)] keeps_waiting_cpus [OF step.hyps(1)] assms(3) t(2)
  have "c_pc (cpus u ! k) = C_Stopped" by simp
  then show ?case using os_reachable.more [OF t(1) step.hyps(2)] by simp
qed (use assms in simp)

text \<open>A CPU that has not stopped has passed all slots of the timer but the last, or all.\<close>

lemma slots_behind:
  assumes "os_reachable env argv s" "k < length (cpus s)" "c_pc (cpus s ! k) \<noteq> C_Stopped"
  shows "slots (tmr s) k \<le> ticks (tmr s) \<and> ticks (tmr s) \<le> Suc (slots (tmr s) k)"
proof -
  have inv: "clock_inv s" using assms(1) by (rule reachable_clock)
  then have tm: "timer_inv (tmr s)" by (simp add: clock_inv_def reachable_inv)
  have "\<not> all_stopped s" using assms(2,3) by (auto simp: all_stopped_def)
  then have "k \<in> set (dev_list (tmr s))" using inv assms(2) by (simp add: clock_inv_def)
  with tm have "device_ok (tmr s) k" by (simp add: timer_inv_def)
  moreover have "dpc (tmr s) k = cpu_dev (c_pc (cpus s ! k))" using inv assms(2) by (simp add: clock_inv_def)
  then have "dpc (tmr s) k \<noteq> Detached" using assms(3) by (cases "c_pc (cpus s ! k)") simp_all
  ultimately show ?thesis by (auto simp: device_ok_def split: device_pc.splits if_splits)
qed

lemma keeps_waiting_bound:
  assumes "keeps_waiting env p s t" "os_reachable env argv s" "0 < time_slot (conf s)"
    and "k < length (cpus s)" "p \<in> set (level (sch s) i)" "i < 140"
  shows "os_reachable env argv t \<and> conf t = conf s \<and> length (cpus t) = length (cpus s) \<and>
     p \<in> set (level (sch t) i) \<and> slot_bound t k i p \<le> slot_bound s k i p"
  using assms(1)
proof (induction rule: keeps_waiting.induct)
  case (step t u)
  then have t: "os_reachable env argv t" "0 < time_slot (conf t)" "k < length (cpus t)" "p \<in> set (level (sch t) i)"
    using assms by simp_all
  from slot_bound_step [OF t(1,2) step.hyps(2) t(3,4) assms(6) step.hyps(3)] show ?case
    using step.IH os_reachable.more [OF t(1) step.hyps(2)] os_step_conf [OF step.hyps(2)] os_step_cpus [OF step.hyps(2)] by simp
qed (use assms in simp)

section \<open>Properties\<close>

text \<open>C5. No process starves, when the configured time slice is positive and no program calls
  \<open>killall\<close> or \<open>memmap\<close> with \<open>SYSMEM_INC_OP\<close>: while a process waits in a ready queue, whatever the
  threads do, at most 197420 times the time slice (and two) slots pass, as long as one CPU has
  not stopped. With more slots than that the process has been dispatched, or every CPU has
  stopped. (With a slice of 0 a running process is never put back.)\<close>

theorem waiting_time_is_bounded:
  assumes "os_reachable env argv s" "serial_programs env (conf s)" "0 < time_slot (conf s)"
    and "keeps_waiting env p s t" "k < length (cpus t)" "c_pc (cpus t ! k) \<noteq> C_Stopped"
  shows "ticks (tmr t) \<le> ticks (tmr s) + 197420 * nat (time_slot (conf s)) + 2"
proof -
  let ?T = "nat (time_slot (conf s))"
  have ok: "pool_ok (store s) (sch s)" using os_inv_pool [OF reachable_os [OF assms(1)]] .
  have "p \<in># waiting (sch s)" using keeps_waiting_cpus [OF assms(4)] by simp
  then obtain i where i: "i < 140" "p \<in> set (level (sch s) i)"
    using in_waiting [of "store s" "sch s" p] ok by (auto simp: pool_ok_def sched_ok_def)
  have k: "k < length (cpus s)" using keeps_waiting_cpus [OF assms(4)] assms(5) by simp
  note run = keeps_waiting_bound [OF assms(4,1,3) k i(2,1)]
  have "slice_ok (int ?T) (cpus s ! k)" using reachable_slice [OF assms(1,3)] assms(3) k by simp
  then have "rem_slots ?T (cpus s ! k) \<le> Suc ?T" by (rule rem_slots_limit)
  moreover have "?T * wait_bound (sch s) i p \<le> ?T * 197419"
    using wait_limit [OF ok reachable_slots [OF assms(1)] i(2,1)] by (intro mult_le_mono2) simp
  moreover have "slots (tmr t) k \<le> slot_bound t k i p" by (simp add: slot_bound_def)
  then have "slots (tmr t) k \<le> slot_bound s k i p" using run by simp
  ultimately have "slots (tmr t) k \<le> slots (tmr s) k + (?T * 197419 + Suc ?T)" unfolding slot_bound_def by linarith
  moreover have "c_pc (cpus s ! k) \<noteq> C_Stopped" using keeps_waiting_stopped [OF assms(4,1) k] assms(6) by blast
  then have "slots (tmr s) k \<le> ticks (tmr s)" using slots_behind [OF assms(1) k] by simp
  moreover have "ticks (tmr t) \<le> Suc (slots (tmr t) k)" using run assms(5,6) slots_behind [of env argv t k] by simp
  ultimately show ?thesis by simp
qed

text \<open>Executing a schedule while the process is in some ready queue.\<close>

definition in_queues :: "pcb_ptr \<Rightarrow> os_t \<Rightarrow> bool" where
  "in_queues p s \<longleftrightarrow> list_ex (\<lambda>q. List.member (q_list q) p) (mlq_ready_queue (sch s))"

primrec waits_along :: "env_t \<Rightarrow> pcb_ptr \<Rightarrow> action list \<Rightarrow> os_t \<Rightarrow> os_t option" where
  "waits_along env p [] s = Some s"
| "waits_along env p (x # xs) s =
     (case perform env x s of None \<Rightarrow> None | Some t \<Rightarrow> if in_queues p t then waits_along env p xs t else None)"

lemma in_queues_waiting: "in_queues p s \<Longrightarrow> p \<in># waiting (sch s)"
  by (auto simp: in_queues_def list_ex_iff waiting_def)

lemma waits_along_run:
  "waits_along env p xs t = Some u \<Longrightarrow> keeps_waiting env p s t \<Longrightarrow> keeps_waiting env p s u"
proof (induction xs arbitrary: t)
  case (Cons x xs)
  then obtain v where "perform env x t = Some v" "in_queues p v" "waits_along env p xs v = Some u"
    by (auto split: option.splits if_splits)
  then show ?case using Cons.IH keeps_waiting.step [OF Cons.prems(2) perform_step] in_queues_waiting by blast
qed simp

text \<open>The process has been loaded; the CPU asks for it and gets nothing, as always the first time;
  then a slot passes while the process waits.\<close>

lemma waiting_run:
  "map_option (\<lambda>s. (map ld_path (ld_processes (conf s)), time_slot (conf s), ticks (tmr s), in_queues (Some 5) s,
       map_option (\<lambda>t. (map c_pc (cpus t), ticks (tmr t)))
         (waits_along tiny_env (Some 5) ([Cpu 0, Cpu 0, Ld 6] @ replicate 9 Tick_Timer) s)))
     (start_run tiny_env [''os'', ''tiny''] [Ld 5, Ld 6]) = Some ([''input/proc/p''], 6, 0, True, Some ([C_Wait], 1))"
  by code_simp

theorem waiting_time_is_bounded_witness:
  "\<exists>s t. os_reachable tiny_env [''os'', ''tiny''] s \<and> keeps_waiting tiny_env (Some 5) s t \<and>
     ticks (tmr s) < ticks (tmr t) \<and> ticks (tmr t) \<le> 1184522"
proof -
  obtain s t where s: "start_run tiny_env [''os'', ''tiny''] [Ld 5, Ld 6] = Some s" "time_slot (conf s) = 6"
      "ticks (tmr s) = 0" "in_queues (Some 5) s" "map ld_path (ld_processes (conf s)) = [''input/proc/p'']"
    and t: "waits_along tiny_env (Some 5) ([Cpu 0, Cpu 0, Ld 6] @ replicate 9 Tick_Timer) s = Some t"
      "map c_pc (cpus t) = [C_Wait]" "ticks (tmr t) = 1"
    using waiting_run by (auto simp: map_option_eq_Some)
  have reach: "os_reachable tiny_env [''os'', ''tiny''] s" by (rule start_run_reachable [OF s(1)])
  have run: "keeps_waiting tiny_env (Some 5) s t"
    by (rule waits_along_run [OF t(1) keeps_waiting.start [OF in_queues_waiting [OF s(4)]]])
  have "0 < length (cpus t)" "c_pc (cpus t ! 0) \<noteq> C_Stopped" using t(2) by auto
  from waiting_time_is_bounded [OF reach tiny_programs(1) [OF s(5)] _ run this] s(2,3) have "ticks (tmr t) \<le> 1184522" by simp
  then show ?thesis using reach run s(3) t(3) by (intro exI [of _ s] exI [of _ t]) simp
qed

end
