(* ===== verification/Locks.thy ===== *)
theory Locks
  imports System
begin

text \<open>
  The two mutexes of the simulator, \<open>mmvm_lock\<close> of \<open>src/libmem.c\<close> and \<open>queue_lock\<close> of
  \<open>src/sched.c\<close>, over whole runs: no call leaves one of them locked, and no thread locks one that
  it already holds. The reasoning is that of \<open>Libmem\<close>, with the predicate \<open>safe\<close>, carried through
  the system calls, the instructions, the loader and the scheduler.
\<close>

section \<open>Memory calls of a process\<close>

abbreviation frees :: "('r \<times> caller_t) result \<Rightarrow> bool" where
  "frees r \<equiv> safe (\<lambda>(_, c'). \<not> mmvm_lock c') r"

abbreviation frees_mem :: "('r \<times> machine) result \<Rightarrow> bool" where
  "frees_mem r \<equiv> safe (\<lambda>(_, mc'). \<not> vm_lock mc') r"

lemma safe_pcb [safe_intros]: "safe (\<lambda>_. True) (pcb_at st p)"
  by (auto simp: pcb_at_def split: option.splits intro!: safe_bind safe_intros)

lemma safeD: "safe P r \<Longrightarrow> r = Inr x \<Longrightarrow> P x"
  by simp

lemma on_caller_frees:
  assumes "\<And>c. \<not> mmvm_lock c \<Longrightarrow> frees (f c)" "\<not> vm_lock mc"
  shows "frees_mem (on_caller mc p f)"
proof -
  have "frees (f (view mc b))" for b using assms by (simp add: view_def)
  then show ?thesis unfolding on_caller_def
    by (intro safe_bind safe_intros safe_and_then [where Q = "\<lambda>(_, c'). \<not> mmvm_lock c'"]) auto
qed

lemma frees_calls:
  assumes "\<not> mmvm_lock c"
  shows "frees (inc_vma_limit junk c i sz)" "frees (mm_swap_page c x y)"
    "frees (and_then (MEMPHY_read (mram c) a) (\<lambda>(_, ram, val). Inr (val, c\<lparr>mram := ram\<rparr>)))"
    "frees (and_then (MEMPHY_write (mram c) a v) (\<lambda>(code, ram). Inr (code, c\<lparr>mram := ram\<rparr>)))"
    "frees (and_then (libread c r w d) (\<lambda>(_, c, data). Inr (data, c)))"
    "frees (and_then (libread c r w d) (\<lambda>(stat, c, _). Inr (stat, c)))"
proof -
  show "frees (inc_vma_limit junk c i sz)" using safe_inc_vma_limit [of c junk i sz] assms
    by (auto simp: safe_def split: sum.splits)
  show "frees (mm_swap_page c x y)" "frees (and_then (MEMPHY_read (mram c) a) (\<lambda>(_, ram, val). Inr (val, c\<lparr>mram := ram\<rparr>)))"
    "frees (and_then (MEMPHY_write (mram c) a v) (\<lambda>(code, ram). Inr (code, c\<lparr>mram := ram\<rparr>)))"
    using assms unfolding mm_swap_page_def by (auto intro!: safe_bind safe_intros)
  show "frees (and_then (libread c r w d) (\<lambda>(_, c, data). Inr (data, c)))"
    "frees (and_then (libread c r w d) (\<lambda>(stat, c, _). Inr (stat, c)))"
    by (rule safe_and_then [OF safe_lib(3) [OF assms]]; auto)+
qed

section \<open>System calls and instructions\<close>

lemma memmap_frees:
  assumes "\<not> vm_lock mc"
  shows "safe (\<lambda>(_, mc', _). \<not> vm_lock mc') (memmap_call h mc p rs)"
proof -
  note on = safe_and_then [OF on_caller_frees [OF frees_calls(1) assms]] safe_and_then [OF on_caller_frees [OF frees_calls(2) assms]]
    safe_and_then [OF on_caller_frees [OF frees_calls(3) assms]] safe_and_then [OF on_caller_frees [OF frees_calls(4) assms]]
  show ?thesis unfolding memmap_call_def Let_def using assms by (auto intro!: safe_bind safe_intros on)
qed

lemma read_name_frees: "\<not> vm_lock mc \<Longrightarrow> frees_mem (read_name mc p r i name)"
proof (induction mc p r i name rule: read_name.induct)
  case (1 mc p r i name)
  show ?case
    by (subst read_name.simps, rule safe_and_then [OF on_caller_frees [OF frees_calls(5) 1(2)]]) (use 1(1) in auto)
qed

lemma safe_scan_steps [safe_intros]:
  "safe (\<lambda>_. True) (push_kill ks p)" "safe (\<lambda>_. True) (shift_down ps j n)"
proof -
  show "safe (\<lambda>_. True) (push_kill ks p)" by (simp add: push_kill_def)
  show "safe (\<lambda>_. True) (shift_down ps j n)"
    by (induction n arbitrary: ps j) (auto intro!: safe_bind safe_intros)
qed

lemma kill_running_safe: "safe (\<lambda>_. True) (kill_running name st q i ks)"
proof (induction name st q i ks rule: kill_running.induct)
  case (1 name st q i ks)
  show ?case by (subst kill_running.simps) (auto intro!: safe_bind safe_intros intro: 1)
qed

lemma kill_ready_safe: "safe (\<lambda>_. True) (kill_ready name st q j ks)"
proof (induction name st q j ks rule: kill_ready.induct)
  case (1 name st q j ks)
  show ?case by (subst kill_ready.simps) (auto intro!: safe_bind safe_intros intro: 1)
qed

lemma kill_levels_safe: "safe (\<lambda>_. True) (kill_levels name st qs ks)"
  by (induction qs arbitrary: st ks) (auto intro!: safe_and_then [OF kill_ready_safe] safe_and_then)

lemma free_allocs_frees: "\<not> vm_lock mc \<Longrightarrow> safe (\<lambda>mc'. \<not> vm_lock mc') (free_allocs h mc p j n)"
proof (induction n arbitrary: mc j)
  case (Suc n)
  have call: "frees_mem (on_caller mc p (\<lambda>c. mm_free h c i r))" for i r
    by (rule on_caller_frees [OF safe_mm_free Suc.prems])
  show ?case using Suc by (auto intro!: safe_bind safe_intros safe_and_then [OF call])
qed simp

lemma free_killed_frees: "\<not> vm_lock mc \<Longrightarrow> safe (\<lambda>mc'. \<not> vm_lock mc') (free_killed h mc ps)"
  by (induction ps arbitrary: mc) (auto intro!: safe_bind safe_intros safe_and_then [OF free_allocs_frees])

lemma killall_frees: "\<not> vm_lock mc \<Longrightarrow> frees_mem (killall_call h mc p rs)"
  unfolding killall_call_def Let_def
  by (auto intro!: safe_bind safe_intros kill_running_safe kill_levels_safe safe_and_then [OF free_killed_frees]
      safe_and_then [OF read_name_frees])

lemma syscall_frees: "\<not> vm_lock mc \<Longrightarrow> frees_mem (syscall h mc p nr rs)"
  unfolding syscall_def list_syscall_def
  by (auto split: option.splits handler.splits intro!: safe_and_then [OF memmap_frees] killall_frees)

lemma exec_ins_frees: "\<not> vm_lock mc \<Longrightarrow> frees_mem (exec_ins h mc p x)"
  unfolding exec_ins_def libsyscall_def
  by (auto split: ins_opcode_t.splits intro!: on_caller_frees safe_lib frees_calls syscall_frees)

lemma run_frees: "\<not> vm_lock mc \<Longrightarrow> frees_mem (run h mc p)"
  unfolding run_def by (auto intro!: safe_bind safe_intros exec_ins_frees)

section \<open>The loader and the scheduler\<close>

lemma get_opcode_safe [safe_intros]: "safe (\<lambda>_. True) (get_opcode w)"
  by (simp add: get_opcode_def Let_def)

lemma read_opcode_safe [safe_intros]: "safe (\<lambda>_. True) (read_opcode s)"
  unfolding read_opcode_def by (auto split: option.splits prod.splits intro!: safe_bind safe_intros)

lemma load_ins_safe [safe_intros]: "safe (\<lambda>_. True) (load_ins x s)"
  unfolding load_ins_def read_syscall_def Let_def case_prod_unfold
  by (auto split: ins_opcode_t.splits intro!: safe_bind safe_intros)

lemma load_text_safe [safe_intros]: "safe (\<lambda>_. True) (load_text junk n i s)"
  by (induction n arbitrary: i s) (auto intro!: safe_bind safe_intros)

lemma load_safe: "safe (\<lambda>_. True) (load hp fs n pth)"
  unfolding load_def Let_def case_prod_unfold by (auto split: option.splits intro!: safe_bind safe_intros)

lemma enqueue_safe [safe_intros]: "safe (\<lambda>_. True) (enqueue q p)"
  by (auto simp: enqueue_def intro!: safe_bind safe_intros)

lemma put_proc_safe: "\<not> queue_lock s \<Longrightarrow> safe (\<lambda>_. True) (put_proc st s p)"
  unfolding put_proc_def note_running_def put_mlq_proc_def and_then_assoc
  by (auto simp: lock_queue_def unlock_queue_def intro!: safe_bind safe_intros)

section \<open>The simulator\<close>

lemma ld_step_safe:
  assumes "ld_step env s a = Some r" "\<not> queue_lock (sch s)"
  shows "r \<noteq> Inl Self_Deadlock"
proof -
  have "safe (\<lambda>_. True) (ld_load env s a)"
    unfolding ld_load_def Let_def case_prod_unfold by (auto intro!: safe_bind safe_intros load_safe)
  moreover have "safe (\<lambda>_. True) (ld_admit env s)"
    unfolding ld_admit_def add_proc_eq case_prod_unfold
    by (auto intro!: safe_bind safe_intros put_proc_safe assms(2))
  ultimately have "safe (\<lambda>_. True) r"
    using assms(1)
    by (auto simp: ld_step_def Let_def split: ld_pc.splits option.splits if_splits intro!: safe_bind safe_intros)
  then show ?thesis by auto
qed

lemma cpu_step_lock:
  assumes "cpu_step env s k = Some (Inr t)" "\<not> vm_lock (mach s)"
  shows "\<not> vm_lock (mach t)"
proof (cases "c_pc (cpus s ! k) = C_Run")
  case True
  then obtain r mc where "run (env_host env) (mach s) (c_proc (cpus s ! k)) = Inr (r, mc)" "mach t = mc"
    using assms(1) by (auto simp: cpu_step_def Let_def cpu_run_def result_simps)
  then show ?thesis using safeD [OF run_frees [OF assms(2)]] by fastforce
next
  case False
  have "vm_lock (mach (set_store u st)) = vm_lock (mach u)" "vm_lock (mach (set_sch u sc)) = vm_lock (mach u)" for u st sc
    by (simp_all add: set_store_def set_sch_def)
  with False assms show ?thesis
    by (auto simp: cpu_step_def Let_def cpu_loop_def fetch_def result_simps
        split: cpu_pc.splits option.splits if_splits)
qed

lemma ld_step_lock: "ld_step env s a = Some (Inr t) \<Longrightarrow> vm_lock (mach t) = vm_lock (mach s)"
proof -
  assume st: "ld_step env s a = Some (Inr t)"
  have "vm_lock (mach (set_store u st)) = vm_lock (mach u)" "vm_lock (mach (set_sch u sc)) = vm_lock (mach u)" for u st sc
    by (simp_all add: set_store_def set_sch_def)
  then show ?thesis using st
    by (auto simp: ld_step_def Let_def ld_load_def ld_admit_def result_simps
        split: ld_pc.splits option.splits if_splits)
qed

lemma reachable_unlocked: "os_reachable env argv s \<Longrightarrow> \<not> vm_lock (mach s)"
proof (induction rule: os_reachable.induct)
  case (boot s)
  then show ?case by (auto simp: boot_def Let_def result_simps case_prod_unfold split: if_splits)
next
  case (more s t)
  from more.hyps(2) show ?case
    using more.IH by cases (auto dest: cpu_step_lock ld_step_lock main_step_frame)
qed

section \<open>Properties\<close>

text \<open>C9. Locks are always given back: between the steps of any interleaving both mutexes are free,
  and no step of a CPU or of the loader blocks on a mutex that its own thread holds, whatever
  the programs do, system calls and failing memory calls included.\<close>

theorem locks_are_released:
  assumes "os_reachable env argv s" "k < length (cpus s)"
  shows "\<not> vm_lock (mach s) \<and> \<not> queue_lock (sch s) \<and>
     cpu_step env s k \<noteq> Some (Inl Self_Deadlock) \<and> ld_step env s a \<noteq> Some (Inl Self_Deadlock)"
proof -
  have v: "\<not> vm_lock (mach s)" by (rule reachable_unlocked [OF assms(1)])
  have q: "\<not> queue_lock (sch s)"
    using os_inv_pool [OF reachable_os [OF assms(1)]] by (simp add: pool_ok_def sched_ok_def)
  have "safe (\<lambda>_. True) (cpu_run env s k c)" for c
    unfolding cpu_run_def case_prod_unfold
    by (rule safe_and_then [OF run_frees [OF v]]) (auto intro!: safe_bind safe_intros)
  then have "cpu_run env s k c \<noteq> Inl Self_Deadlock" for c using safe_Inl by metis
  then have "cpu_step env s k \<noteq> Some (Inl Self_Deadlock)"
    using cpu_step_total [OF assms] by (cases "c_pc (cpus s ! k) = C_Run") (auto simp: cpu_step_def Let_def)
  then show ?thesis using v q ld_step_safe [OF _ q] by blast
qed

theorem locks_are_released_witness:
  "\<exists>s. os_reachable tiny_env [''os'', ''tiny''] s \<and> c_pc (cpus s ! 0) = C_Run \<and> \<not> vm_lock (mach s) \<and>
     cpu_step tiny_env s 0 \<noteq> Some (Inl Self_Deadlock)"
proof -
  obtain s t where s: "os_reachable tiny_env [''os'', ''tiny''] s"
    "cpus s = [\<lparr>c_pc = C_Run, c_timer = 0, c_proc = Some 5, time_left = 6\<rparr>]" by (rule tiny_state)
  then have "c_pc (cpus s ! 0) = C_Run" "0 < length (cpus s)" by simp_all
  with locks_are_released [OF s(1), of 0 0] s(1) show ?thesis by blast
qed

end
