(* ===== verification/Admitted.thy ===== *)
theory Admitted
  imports Locks
begin

text \<open>
  What every admitted process keeps. The loader gives a process its memory when it admits it;
  from then on the scheduler only links its queues, instructions change it, and the CPU frees
  it. The locale \<open>pcb_law\<close> states what a law about PCBs needs to hold of every admitted process
  in every reachable state.
\<close>

section \<open>Laws about PCBs\<close>

text \<open>The PCBs of \<open>st'\<close> were there before, and those that satisfied the law still do.\<close>

definition carries :: "(pcb_t \<Rightarrow> bool) \<Rightarrow> pcb_store \<Rightarrow> pcb_store \<Rightarrow> bool" where
  "carries law st st' \<longleftrightarrow> (\<forall>a b'. st' a = Some b' \<longrightarrow> (\<exists>b. st a = Some b \<and> (law b \<longrightarrow> law b')))"

lemma carries_refl [simp]: "carries law st st"
  by (simp add: carries_def)

lemma carries_trans: "carries law st st' \<Longrightarrow> carries law st' st'' \<Longrightarrow> carries law st st''"
  unfolding carries_def by metis

lemma carries_free [simp]: "carries law st (st(a := None))"
  by (simp add: carries_def)

lemma carries_update: "st a = Some b \<Longrightarrow> (law b \<Longrightarrow> law b') \<Longrightarrow> carries law st (st(a \<mapsto> b'))"
  by (simp add: carries_def)

text \<open>The law holds of every process but the one the loader prepares.\<close>

definition settled :: "(pcb_t \<Rightarrow> bool) \<Rightarrow> os_t \<Rightarrow> bool" where
  "settled law s \<longleftrightarrow> (\<forall>a b. store s a = Some b \<longrightarrow> preparing (ldr s) \<and> l_proc (ldr s) = Some a \<or> law b)"

lemma settled_carries: "settled law s \<Longrightarrow> carries law (store s) (store t) \<Longrightarrow> ldr t = ldr s \<Longrightarrow> settled law t"
  unfolding settled_def carries_def by metis

lemma settled_running:
  assumes "os_inv C s" "k < length (cpus s)" "settled law s" "c_pc (cpus s ! k) \<noteq> C_Fetch" "c_proc (cpus s ! k) = Some a"
  obtains b where "store s a = Some b" "law b"
proof -
  have h: "holding (cpus s ! k) = [Some a]" using assms(4,5) by (simp add: holding_def)
  then obtain b where "store s a = Some b"
    using os_inv_cpu [OF assms(1,2)] by (auto simp: cpu_ok_def admissible_def live_def)
  moreover from this have "law b" using assms(3) held_apart(2) [OF assms(1,2) h] by (auto simp: settled_def)
  ultimately show thesis by (rule that)
qed

lemma set_mach [simp]: "mach (set_store s st) = (mach s)\<lparr>pcbs := st\<rparr>" "mach (set_sch s sc) = (mach s)\<lparr>sched := sc\<rparr>"
  by (simp_all add: set_store_def set_sch_def)

text \<open>A step of a CPU executes an instruction, or it leaves the memory alone.\<close>

lemma cpu_step_cases:
  assumes "os_inv C s" "k < length (cpus s)" "cpu_step env s k = Some (Inr t)"
  obtains (run) a r where "c_pc (cpus s ! k) = C_Run" "c_proc (cpus s ! k) = Some a"
      "run (env_host env) (mach s) (Some a) = Inr (r, mach t)"
  | (quiet) "dev_ram (mach t) = dev_ram (mach s)" "dev_swp (mach t) = dev_swp (mach s)"
      "\<And>law. (\<And>b. law b \<Longrightarrow> law (link_queues b)) \<Longrightarrow> carries law (store s) (store t)"
proof (cases "c_pc (cpus s ! k) = C_Run")
  case True
  then obtain a where a: "c_proc (cpus s ! k) = Some a" using os_inv_cpu [OF assms(1,2)] by (auto simp: cpu_ok_def)
  then obtain r where "run (env_host env) (mach s) (Some a) = Inr (r, mach t)"
    using True assms(3) by (auto simp: cpu_step_def Let_def cpu_run_def result_simps)
  with True a show ?thesis by (rule run)
next
  case False
  have "dev_ram (mach t) = dev_ram (mach s) \<and> dev_swp (mach t) = dev_swp (mach s)"
    using False assms(3)
    by (auto simp: cpu_step_def Let_def cpu_loop_def fetch_def result_simps
        split: cpu_pc.splits option.splits if_splits)
  moreover have "carries law (store s) (store t)" if link: "\<And>b. law b \<Longrightarrow> law (link_queues b)" for law
  proof -
    have put: "carries law st st'" if "put_proc st sc (Some a) = Inr (st', sc')" for st sc a st' sc'
      using that by (elim put_proc_store) (simp add: carries_update link)
    show ?thesis
      using False assms(3)
      by (auto simp: cpu_step_def Let_def cpu_loop_def fetch_def result_simps
          split: cpu_pc.splits option.splits if_splits dest: put)
  qed
  ultimately show ?thesis using quiet by blast
qed

section \<open>Laws of all admitted processes\<close>

locale pcb_law =
  fixes env :: env_t and law :: "pcb_t \<Rightarrow> bool"
  assumes link_law: "law b \<Longrightarrow> law (link_queues b)"
    and given_law: "law (give_memory env i b)"
    and run_law: "run (env_host env) mc (Some a) = Inr (r, mc') \<Longrightarrow> pcbs mc a = Some b \<Longrightarrow> law b \<Longrightarrow>
      \<not> vm_lock mc \<Longrightarrow> pool_ok (pcbs mc) (sched mc) \<Longrightarrow> carries law (pcbs mc) (pcbs mc')"
begin

lemma cpu_step_law:
  assumes "os_inv C s" "\<not> vm_lock (mach s)" "k < length (cpus s)" "settled law s" "cpu_step env s k = Some (Inr t)"
  shows "settled law t"
proof -
  have "carries law (store s) (store t)"
  proof (rule cpu_step_cases [OF assms(1,3,5)])
    fix a r assume run: "c_pc (cpus s ! k) = C_Run" "c_proc (cpus s ! k) = Some a"
      "run (env_host env) (mach s) (Some a) = Inr (r, mach t)"
    then obtain b where "store s a = Some b" "law b" using settled_running [OF assms(1,3,4)] by auto
    with run(3) show ?thesis using run_law assms(2) os_inv_pool [OF assms(1)] by blast
  qed (use link_law in blast)
  then show ?thesis using settled_carries [OF assms(4)] cpu_step_frame [OF assms(5)] by blast
qed

lemma ld_step_law:
  assumes "ld_step env s a = Some (Inr t)" "settled law s"
  shows "settled law t"
proof -
  have admit: "settled law t" if adm: "ld_admit env s = Inr t"
  proof -
    obtain x b st sc where x: "l_proc (ldr s) = Some x" "store s x = Some b"
      and put: "put_proc ((store s)(x \<mapsto> give_memory env (l_i (ldr s)) b)) (sch s) (Some x) = Inr (st, sc)"
      and t: "t = set_ldr (set_sch (set_store s st) sc) ((ldr s)\<lparr>l_i := Suc (l_i (ldr s)), l_pc := L_Slot\<rparr>)"
      using adm by (auto simp: ld_admit_def result_simps add_proc_eq)
    have "st = (store s)(x \<mapsto> link_queues (give_memory env (l_i (ldr s)) b))" using put by (elim put_proc_store) simp
    then have "law b'" if "st y = Some b'" for y b'
      using that assms(2) x link_law [OF given_law] by (auto simp: settled_def split: if_splits)
    then show ?thesis by (auto simp: t settled_def)
  qed
  show ?thesis
  proof (cases "l_pc (ldr s) = L_Start")
    case True
    then show ?thesis using assms admit
      by (fastforce simp: ld_step_def Let_def result_simps settled_def preparing_def split: if_splits)
  next
    case False
    then show ?thesis using assms
      by (fastforce simp: ld_step_def Let_def ld_load_def result_simps settled_def preparing_def
          split: ld_pc.splits option.splits if_splits)
  qed
qed

lemma reachable_law: "os_reachable env argv s \<Longrightarrow> settled law s"
proof (induction rule: os_reachable.induct)
  case (boot s)
  then show ?case by (elim bootE) (simp add: settled_def)
next
  case (more s t)
  note inv = reachable_os [OF more.hyps(1)] and free = reachable_unlocked [OF more.hyps(1)]
  from more.hyps(2) show ?case
  proof cases
    case (cpu k)
    then show ?thesis using cpu_step_law [OF inv free] more.IH by blast
  next
    case (loader a)
    then show ?thesis using ld_step_law more.IH by blast
  next
    case (timer u)
    then show ?thesis using more.IH by (auto simp: settled_def)
  next
    case main
    then show ?thesis using main_step_frame [OF main] more.IH by (auto simp: settled_def)
  qed
qed

text \<open>So it holds of the process that a CPU is about to run.\<close>

lemma running_law:
  assumes "os_reachable env argv s" "k < length (cpus s)" "c_pc (cpus s ! k) \<noteq> C_Fetch" "c_proc (cpus s ! k) = Some a"
  obtains b where "store s a = Some b" "law b"
  using settled_running [OF reachable_os [OF assms(1)] assms(2) reachable_law [OF assms(1)] assms(3,4)] .

end

text \<open>The devices that the loader gives to a process stay its devices.\<close>

interpretation dev: pcb_law env on_devices
proof
  fix b i mc a r mc' assume run: "run (env_host env) mc (Some a) = Inr (r, mc')" "pcbs mc a = Some b" "pool_ok (pcbs mc) (sched mc)"
  have "similar (pcbs mc) (pcbs mc')" using run_pool [OF run] by (simp add: pool_shrinks_def)
  then show "carries on_devices (pcbs mc) (pcbs mc')"
    unfolding carries_def
  proof (intro allI impI)
    fix x b' assume "pcbs mc' x = Some b'"
    with similar_at [OF \<open>similar (pcbs mc) (pcbs mc')\<close>, of x]
    show "\<exists>b. pcbs mc x = Some b \<and> (on_devices b \<longrightarrow> on_devices b')" by (auto simp: kept_def)
  qed
qed (simp_all add: on_devices_def link_queues_def give_memory_def)

end
