(* ===== verification/Progress.thy ===== *)
theory Progress
  imports Slots
begin

text \<open>
  Progress of the running simulator, whatever the interleaving: between two ticks of the
  timer the threads have a bounded amount of work, so every long enough run advances the
  time; and until \<open>main\<close> has returned some thread can always go on. No assumption on the
  fairness of the thread scheduler is made: the slots of the timer make it unnecessary.
\<close>

section \<open>Runs between ticks\<close>

text \<open>A clock, and a rank that every step which does not advance the clock makes smaller.\<close>

locale progress_measure =
  fixes step :: "'s \<Rightarrow> 's \<Rightarrow> bool" and inv :: "'s \<Rightarrow> bool"
    and clock :: "'s \<Rightarrow> nat" and rank :: "'s \<Rightarrow> nat" and limit :: nat
  assumes keeps: "inv s \<Longrightarrow> step s t \<Longrightarrow> inv t"
    and advances: "inv s \<Longrightarrow> step s t \<Longrightarrow> clock t = Suc (clock s) \<or> clock t = clock s \<and> rank t < rank s"
    and limited: "inv s \<Longrightarrow> rank s \<le> limit"
begin

lemma steps_limit:
  assumes "(step ^^ m) s t" "inv s"
  shows "inv t \<and> clock s \<le> clock t \<and> m + rank t \<le> rank s + (clock t - clock s) * Suc limit"
  using assms(1)
proof (induction m arbitrary: t)
  case 0
  then show ?case using assms(2) by simp
next
  case (Suc m)
  then obtain u where u: "(step ^^ m) s u" "step u t" by auto
  from Suc.IH [OF u(1)] have iu: "inv u" "clock s \<le> clock u" "m + rank u \<le> rank s + (clock u - clock s) * Suc limit"
    by blast+
  have "inv t" using keeps [OF iu(1) u(2)] .
  moreover have "Suc m + rank t \<le> rank s + (clock t - clock s) * Suc limit \<and> clock s \<le> clock t"
    using advances [OF iu(1) u(2)]
  proof
    assume c: "clock t = Suc (clock u)"
    then have "(clock t - clock s) * Suc limit = (clock u - clock s) * Suc limit + Suc limit"
      using iu(2) by (simp add: Suc_diff_le)
    then show ?thesis using c iu(2,3) limited [OF \<open>inv t\<close>] by linarith
  next
    assume c: "clock t = clock u \<and> rank t < rank u"
    then have "Suc m + rank t \<le> rank s + (clock u - clock s) * Suc limit" using iu(3) by linarith
    then show ?thesis using c iu(2) by simp
  qed
  ultimately show ?case by blast
qed

end

section \<open>Positions\<close>

text \<open>How far a thread is from the end of its slot. A thread in \<open>next_slot\<close> whose slot is over
  (the flag is false) has the next one before it.\<close>

fun cpu_rank :: "bool \<Rightarrow> cpu_pc \<Rightarrow> nat" where
  "cpu_rank now C_Wait = (if now then 0 else 7)"
| "cpu_rank now C_Loop = 6" | "cpu_rank now C_Fetch = 5" | "cpu_rank now C_Recheck = 4"
| "cpu_rank now C_Run = 3" | "cpu_rank now C_Slot = 2" | "cpu_rank now C_Detach = 1" | "cpu_rank now C_Stopped = 0"

fun ld_rank :: "bool \<Rightarrow> ld_pc \<Rightarrow> nat" where
  "ld_rank now L_Wait = (if now then 0 else 7)" | "ld_rank now L_Asleep = (if now then 0 else 6)"
| "ld_rank now L_Loop = 6" | "ld_rank now L_Start = 5" | "ld_rank now L_Sleep = 4" | "ld_rank now L_Slot = 4"
| "ld_rank now L_Detach = 1" | "ld_rank now L_Stopped = 0"

definition timer_rank :: "timer_t \<Rightarrow> nat" where
  "timer_rank u = (case tpc u of
      Release ds f e \<Rightarrow> length ds + length (dev_list u) + 4
    | Decide f e \<Rightarrow> length (dev_list u) + 3
    | Check \<Rightarrow> length (dev_list u) + 2
    | Wait ds f e \<Rightarrow> length ds + 1
    | _ \<Rightarrow> 0)"

fun main_rank :: "main_pc \<Rightarrow> nat" where
  "main_rank M_Join = 2" | "main_rank M_Stop = 1" | "main_rank M_Return = 0"

definition in_slot :: "os_t \<Rightarrow> nat \<Rightarrow> bool" where
  "in_slot s d \<longleftrightarrow> slots (tmr s) d = ticks (tmr s)"

definition os_rank :: "os_t \<Rightarrow> nat" where
  "os_rank s = (\<Sum>k < length (cpus s). cpu_rank (in_slot s k) (c_pc (cpus s ! k))) +
     ld_rank (in_slot s (length (cpus s))) (l_pc (ldr s)) + timer_rank (tmr s) + main_rank (m_pc s)"

text \<open>The device of a thread that has not stopped.\<close>

lemma clock_timer: "clock_inv s \<Longrightarrow> timer_inv (tmr s)"
  by (simp add: clock_inv_def reachable_inv)

lemma clock_join:
  assumes "clock_inv s" "k < length (cpus s) \<and> c_pc (cpus s ! k) \<noteq> C_Stopped \<or> l_pc (ldr s) \<noteq> L_Stopped"
  shows "m_pc s = M_Join"
  using assms unfolding clock_inv_def all_stopped_def by (metis nth_mem)

lemma clock_device:
  assumes "clock_inv s" "m_pc s = M_Join" "d \<le> length (cpus s)"
  shows "d \<in> set (dev_list (tmr s)) \<and> device_ok (tmr s) d"
proof -
  have "d \<in> set (dev_list (tmr s))" using assms by (simp add: clock_inv_def)
  then show ?thesis using clock_timer [OF assms(1)] by (simp add: timer_inv_def)
qed

lemma clock_cpu: "clock_inv s \<Longrightarrow> k < length (cpus s) \<Longrightarrow>
    c_timer (cpus s ! k) = k \<and> dpc (tmr s) k = cpu_dev (c_pc (cpus s ! k))"
  by (simp add: clock_inv_def)

lemma clock_ldr: "clock_inv s \<Longrightarrow>
    l_timer (ldr s) = length (cpus s) \<and> dpc (tmr s) (length (cpus s)) = ld_dev (l_pc (ldr s))"
  by (simp add: clock_inv_def)

text \<open>What a thread's device says of its slot: at work it is in the current one, and it may
  leave \<open>next_slot\<close> only when that slot is over.\<close>

lemma device_now:
  assumes "device_ok u d"
  shows "dpc u d = Working \<Longrightarrow> slots u d = ticks u"
    and "dpc u d = In_Next_Slot \<Longrightarrow> next_slot_end u d = Some v \<Longrightarrow> Suc (slots u d) = ticks u"
  using assms by (auto simp: device_ok_def next_slot_end_def split: if_splits)

text \<open>The change of the timer by a step of the thread that owns device \<open>d\<close>.\<close>

definition own_slot :: "timer_t \<Rightarrow> nat \<Rightarrow> timer_t \<Rightarrow> bool" where
  "own_slot u d v \<longleftrightarrow> ticks v = ticks u \<and> (\<forall>x. x \<noteq> d \<longrightarrow> slots v x = slots u x) \<and> tpc v = tpc u \<and> dev_list v = dev_list u"

lemma own_slot_simps [simp]:
  "own_slot u d u" "own_slot u d (next_slot_begin u d)" "own_slot u d (detach_event u d)"
  "next_slot_end u d = Some v \<Longrightarrow> own_slot u d v"
  by (auto simp: own_slot_def next_slot_begin_def detach_event_def next_slot_end_def split: if_splits)

lemma own_slot_rank: "own_slot u d v \<Longrightarrow> timer_rank v = timer_rank u"
  by (cases "tpc u") (simp_all add: own_slot_def timer_rank_def)

lemma next_slot_end_slots: "next_slot_end u d = Some v \<Longrightarrow> slots v d = Suc (slots u d) \<and> ticks v = ticks u"
  by (auto simp: next_slot_end_def split: if_splits)

lemma cpu_step_rank:
  assumes inv: "clock_inv s" and k: "k < length (cpus s)" and st: "cpu_step env s k = Some (Inr t)"
  shows "own_slot (tmr s) k (tmr t) \<and> (\<exists>c. cpus t = (cpus s)[k := c] \<and>
     cpu_rank (in_slot t k) (c_pc c) < cpu_rank (in_slot s k) (c_pc (cpus s ! k)))"
proof -
  let ?c = "cpus s ! k"
  have "c_pc ?c \<noteq> C_Stopped" using st by (auto simp: cpu_step_def Let_def)
  then have "m_pc s = M_Join" using clock_join [OF inv, of k] k by simp
  then have dev: "device_ok (tmr s) k" using clock_device [OF inv, of k] k by simp
  have c: "c_timer ?c = k" "dpc (tmr s) k = cpu_dev (c_pc ?c)" using clock_cpu [OF inv k] by simp_all
  show ?thesis
  proof (cases "c_pc ?c")
    case C_Slot
    then have "in_slot (set_cpu (set_tmr s (next_slot_begin (tmr s) k)) k c) k" for c
      using device_now(1) [OF dev] c(2) by (simp add: in_slot_def next_slot_begin_def)
    then show ?thesis using st C_Slot c(1) by (auto simp: cpu_step_def Let_def)
  next
    case C_Wait
    then obtain u where u: "next_slot_end (tmr s) k = Some u" and t: "t = set_cpu (set_tmr s u) k (?c\<lparr>c_pc := C_Loop\<rparr>)"
      using st c(1) by (auto simp: cpu_step_def Let_def split: option.splits)
    have "\<not> in_slot s k" using device_now(2) [OF dev _ u] C_Wait c(2) by (auto simp: in_slot_def)
    then show ?thesis using u C_Wait by (auto simp: t)
  qed (use st c(1) in \<open>auto simp: cpu_step_def Let_def cpu_loop_def cpu_run_def cpu_recheck_def fetch_def result_simps
      split: option.splits if_splits\<close>)
qed

lemma ld_step_rank:
  assumes inv: "clock_inv s" and st: "ld_step env s a = Some (Inr t)"
  shows "own_slot (tmr s) (length (cpus s)) (tmr t) \<and>
     ld_rank (in_slot t (length (cpus s))) (l_pc (ldr t)) < ld_rank (in_slot s (length (cpus s))) (l_pc (ldr s))"
proof -
  let ?n = "length (cpus s)"
  have "l_pc (ldr s) \<noteq> L_Stopped" using st by (auto simp: ld_step_def Let_def)
  then have "m_pc s = M_Join" using clock_join [OF inv] by simp
  then have dev: "device_ok (tmr s) ?n" using clock_device [OF inv, of ?n] by simp
  have l: "l_timer (ldr s) = ?n" "dpc (tmr s) ?n = ld_dev (l_pc (ldr s))" using clock_ldr [OF inv] by simp_all
  have waits: "in_slot (set_ldr (set_tmr s (next_slot_begin (tmr s) ?n)) x) ?n" if "ld_dev (l_pc (ldr s)) = Working" for x
    using device_now(1) [OF dev] l(2) that by (simp add: in_slot_def next_slot_begin_def)
  have goes: "\<not> in_slot s ?n" if "ld_dev (l_pc (ldr s)) = In_Next_Slot" "next_slot_end (tmr s) ?n = Some u" for u
    using device_now(2) [OF dev _ that(2)] l(2) that(1) by (auto simp: in_slot_def)
  show ?thesis
  proof (cases "l_pc (ldr s)")
    case L_Loop
    then have "ld_load env s a = Inr t \<or> t = set_ldr (s\<lparr>os_done := 1\<rparr>) ((ldr s)\<lparr>l_pc := L_Detach\<rparr>)"
      using st by (auto simp: ld_step_def Let_def split: if_splits)
    then show ?thesis using L_Loop by (auto simp: ld_load_def Let_def result_simps)
  next
    case L_Start
    then have "ld_admit env s = Inr t \<or> t = set_ldr s ((ldr s)\<lparr>l_pc := L_Sleep\<rparr>)"
      using st by (auto simp: ld_step_def Let_def result_simps split: if_splits)
    then show ?thesis using L_Start by (auto simp: ld_admit_def result_simps)
  next
    case L_Asleep
    then obtain u where u: "next_slot_end (tmr s) ?n = Some u" "t = set_ldr (set_tmr s u) ((ldr s)\<lparr>l_pc := L_Start\<rparr>)"
      using st l(1) by (auto simp: ld_step_def Let_def split: option.splits)
    then show ?thesis using goes [OF _ u(1)] L_Asleep by simp
  next
    case L_Wait
    then obtain u where u: "next_slot_end (tmr s) ?n = Some u" "t = set_ldr (set_tmr s u) ((ldr s)\<lparr>l_pc := L_Loop\<rparr>)"
      using st l(1) by (auto simp: ld_step_def Let_def split: option.splits)
    then show ?thesis using goes [OF _ u(1)] L_Wait by simp
  qed (use st l(1) waits in \<open>auto simp: ld_step_def Let_def\<close>)
qed

lemma timer_step_rank:
  assumes "timer_step u = Some v"
  shows "slots v = slots u \<and> (ticks v = Suc (ticks u) \<or> ticks v = ticks u \<and> timer_rank v < timer_rank u)"
proof (cases "tpc u")
  case (Wait ds f e)
  with assms show ?thesis by (cases ds) (auto simp: timer_step_def timer_rank_def split: if_splits)
next
  case (Release ds f e)
  with assms show ?thesis by (cases ds) (auto simp: timer_step_def timer_rank_def)
qed (use assms in \<open>auto simp: timer_step_def timer_rank_def\<close>)

lemma timer_rank_limit:
  assumes "timer_inv u"
  shows "timer_rank u \<le> 2 * length (dev_list u) + 4"
proof -
  have short: "length ds \<le> length (dev_list u)" if "distinct ds" "set ds \<subseteq> set (dev_list u)" for ds
    using card_mono [OF _ that(2)] card_length [of "dev_list u"] that(1) by (simp add: distinct_card)
  show ?thesis
  proof (cases "tpc u")
    case (Wait ds f e)
    with assms have "length ds \<le> length (dev_list u)" by (intro short) (simp_all add: timer_inv_def visiting_def)
    with Wait show ?thesis by (simp add: timer_rank_def)
  next
    case (Release ds f e)
    with assms have "length ds \<le> length (dev_list u)" by (intro short) (simp_all add: timer_inv_def visiting_def)
    with Release show ?thesis by (simp add: timer_rank_def)
  qed (simp_all add: timer_rank_def)
qed

section \<open>Every step uses up the slot\<close>

lemma sum_cpu_less:
  assumes "k < (n :: nat)" "f k < (g k :: nat)" "\<And>j. j < n \<Longrightarrow> j \<noteq> k \<Longrightarrow> f j = g j"
  shows "(\<Sum>j < n. f j) < (\<Sum>j < n. g j)"
proof (rule sum_strict_mono_ex1)
  have "f j \<le> g j" if "j < n" for j using assms(2,3) that by (cases "j = k") auto
  then show "\<forall>j \<in> {..<n}. f j \<le> g j" by simp
  show "\<exists>j \<in> {..<n}. f j < g j" using assms(1,2) by auto
qed simp

lemma os_step_rank:
  assumes inv: "clock_inv s" and st: "os_step env s t"
  shows "ticks (tmr t) = Suc (ticks (tmr s)) \<or> ticks (tmr t) = ticks (tmr s) \<and> os_rank t < os_rank s"
  using st
proof cases
  case (cpu k)
  obtain c where own: "own_slot (tmr s) k (tmr t)" and c: "cpus t = (cpus s)[k := c]"
    "cpu_rank (in_slot t k) (c_pc c) < cpu_rank (in_slot s k) (c_pc (cpus s ! k))"
    using cpu_step_rank [OF inv cpu] by blast
  have same: "in_slot t j = in_slot s j" if "j \<noteq> k" for j
    using own that by (simp add: own_slot_def in_slot_def)
  have "(\<Sum>j < length (cpus s). cpu_rank (in_slot t j) (c_pc (cpus t ! j))) <
      (\<Sum>j < length (cpus s). cpu_rank (in_slot s j) (c_pc (cpus s ! j)))"
    using c cpu(1) same by (intro sum_cpu_less [OF cpu(1)]) simp_all
  moreover have "ticks (tmr t) = ticks (tmr s)" using own by (simp add: own_slot_def)
  ultimately show ?thesis
    using cpu_step_frame [OF cpu(2)] c(1) cpu(1) same [of "length (cpus s)"] own_slot_rank [OF own] by (simp add: os_rank_def)
next
  case (loader a)
  have own: "own_slot (tmr s) (length (cpus s)) (tmr t)"
    and r: "ld_rank (in_slot t (length (cpus s))) (l_pc (ldr t)) < ld_rank (in_slot s (length (cpus s))) (l_pc (ldr s))"
    using ld_step_rank [OF inv loader(2)] by simp_all
  have "in_slot t j = in_slot s j" if "j < length (cpus s)" for j
    using own that by (simp add: own_slot_def in_slot_def)
  then have "(\<Sum>j < length (cpus s). cpu_rank (in_slot t j) (c_pc (cpus s ! j))) =
      (\<Sum>j < length (cpus s). cpu_rank (in_slot s j) (c_pc (cpus s ! j)))" by simp
  then show ?thesis
    using ld_step_frame [OF loader(2)] own_slot_rank [OF own] own r by (simp add: os_rank_def own_slot_def)
next
  case (timer u)
  then show ?thesis using timer_step_rank [OF timer(2)] by (auto simp: os_rank_def in_slot_def)
next
  case main
  show ?thesis
  proof (cases "m_pc s")
    case M_Join
    then have "t = set_tmr (s\<lparr>m_pc := M_Stop\<rparr>) (stop_request (tmr s))" using main by (auto simp: main_step_def split: if_splits)
    moreover have "timer_rank (stop_request u) = timer_rank u" for u
      by (cases "tpc u") (simp_all add: timer_rank_def stop_request_def)
    ultimately show ?thesis using M_Join
      by (simp add: os_rank_def in_slot_def set_tmr_def) (simp add: stop_request_def)
  next
    case M_Stop
    then obtain u where "stop_join (tmr s) = Some u" "t = set_tmr (s\<lparr>m_pc := M_Return\<rparr>) u"
      using main by (auto simp: main_step_def split: option.splits)
    then have "tpc (tmr s) = Exited" "t = set_tmr (s\<lparr>m_pc := M_Return\<rparr>) ((tmr s)\<lparr>dev_list := []\<rparr>)"
      by (auto simp: stop_join_def split: if_splits)
    then show ?thesis using M_Stop by (simp add: os_rank_def in_slot_def set_tmr_def timer_rank_def)
  qed (use main in \<open>simp add: main_step_def\<close>)
qed

lemma os_rank_limit:
  assumes inv: "clock_inv s"
  shows "os_rank s \<le> 9 * length (cpus s) + 15"
proof -
  let ?n = "length (cpus s)"
  have "cpu_rank now p \<le> 7" for now p by (cases p) simp_all
  then have "(\<Sum>k < ?n. cpu_rank (in_slot s k) (c_pc (cpus s ! k))) \<le> (\<Sum>k < ?n. 7)"
    by (intro sum_mono) simp
  moreover have "ld_rank (in_slot s ?n) (l_pc (ldr s)) \<le> 7" by (cases "l_pc (ldr s)") simp_all
  moreover have "timer_rank (tmr s) + main_rank (m_pc s) \<le> 2 * length (cpus s) + 8"
  proof (cases "m_pc s = M_Return")
    case True
    then show ?thesis using timer_rank_limit [OF clock_timer [OF inv]] inv by (simp add: clock_inv_def)
  next
    case False
    then have "set (dev_list (tmr s)) = {..length (cpus s)}" using inv by (simp add: clock_inv_def)
    moreover have "distinct (dev_list (tmr s))" using clock_timer [OF inv] by (simp add: timer_inv_def)
    ultimately have "length (dev_list (tmr s)) = Suc (length (cpus s))" by (metis card_atMost distinct_card)
    moreover have "main_rank (m_pc s) \<le> 2" by (cases "m_pc s") simp_all
    ultimately show ?thesis using timer_rank_limit [OF clock_timer [OF inv]] by linarith
  qed
  ultimately show ?thesis by (simp add: os_rank_def)
qed

section \<open>The end of the timer\<close>

definition all_finished :: "timer_t \<Rightarrow> bool" where
  "all_finished u \<longleftrightarrow> (\<forall>d \<in> set (dev_list u). t_fsh (ids u d) \<noteq> 0)"

text \<open>The counters of a pass are equal only if every device seen so far has detached.\<close>

definition pass_ok :: "timer_t \<Rightarrow> bool" where
  "pass_ok u \<longleftrightarrow> (case tpc u of
      Wait ds f e \<Rightarrow> f \<le> e \<and> (f = e \<longrightarrow> (\<forall>d \<in> set (dev_list u) - set ds. t_fsh (ids u d) \<noteq> 0))
    | Tick f e \<Rightarrow> f = e \<longrightarrow> all_finished u
    | Release ds f e \<Rightarrow> f = e \<longrightarrow> all_finished u
    | Decide f e \<Rightarrow> f = e \<longrightarrow> all_finished u
    | Exited \<Rightarrow> timer_stop u \<noteq> 0 \<or> all_finished u
    | _ \<Rightarrow> True)"

lemma pass_ok_mono:
  assumes "pass_ok u" "tpc v = tpc u" "dev_list v = dev_list u" "timer_stop u \<noteq> 0 \<longrightarrow> timer_stop v \<noteq> 0"
    and "\<And>d. t_fsh (ids u d) \<noteq> 0 \<Longrightarrow> t_fsh (ids v d) \<noteq> 0"
  shows "pass_ok v"
  using assms by (cases "tpc u") (auto simp: pass_ok_def all_finished_def)

lemma pass_ok_timer:
  assumes "pass_ok u" "timer_step u = Some v"
  shows "pass_ok v"
proof (cases "tpc u")
  case (Wait ds f e)
  show ?thesis
  proof (cases ds)
    case Nil
    with assms Wait show ?thesis by (auto simp: pass_ok_def all_finished_def timer_step_def)
  next
    case (Cons d ds')
    with assms(2) Wait have "v = u\<lparr>tpc := Wait ds' (if t_fsh (ids u d) \<noteq> 0 then f + 1 else f) (e + 1)\<rparr>"
      by (simp add: timer_step_def split: if_splits)
    with assms(1) Wait Cons show ?thesis by (auto simp: pass_ok_def)
  qed
next
  case (Release ds f e)
  with assms show ?thesis
    by (cases ds) (auto simp: pass_ok_def all_finished_def timer_step_def)
qed (use assms in \<open>auto simp: pass_ok_def all_finished_def timer_step_def split: if_splits\<close>)

lemma reachable_pass: "timer_reachable u \<Longrightarrow> pass_ok u"
proof (induction rule: timer_reachable.induct)
  case init
  then show ?case by (simp add: pass_ok_def static_timer_def)
next
  case (more u v)
  have inv: "timer_inv u" using more.hyps(1) by (rule reachable_inv)
  from more.hyps(2) show ?case
  proof cases
    case (attach d)
    then have "tpc u = Not_Started" "tpc v = tpc u"
      using inv by (auto simp: attach_event_def Let_def timer_inv_def split: if_splits)
    then show ?thesis by (simp add: pass_ok_def)
  next
    case start
    then show ?thesis by (simp add: pass_ok_def start_timer_def)
  next
    case timer
    then show ?thesis using pass_ok_timer more.IH by blast
  next
    case join
    then show ?thesis by (auto simp: pass_ok_def all_finished_def stop_join_def split: if_splits)
  qed (rule pass_ok_mono [OF more.IH];
    auto simp: next_slot_begin_def next_slot_end_def detach_event_def stop_request_def split: if_splits)+
qed

text \<open>Until \<open>main\<close> asks for it the timer thread ends only after all threads have detached.\<close>

definition runs_on :: "os_t \<Rightarrow> bool" where
  "runs_on s \<longleftrightarrow> clock_inv s \<and> tpc (tmr s) \<noteq> Not_Started \<and> (m_pc s = M_Join \<longrightarrow> timer_stop (tmr s) = 0) \<and>
     finite (dom (store s))"

lemma timer_step_stop: "timer_step u = Some v \<Longrightarrow> timer_stop v = timer_stop u \<and> tpc v \<noteq> Not_Started"
  by (auto simp: timer_step_def split: timer_pc.splits list.splits if_splits)

lemma cpu_step_stop:
  assumes "cpu_step env s k = Some (Inr t)"
  shows "timer_stop (tmr t) = timer_stop (tmr s) \<and> tpc (tmr t) = tpc (tmr s)"
  using assms
  by (auto simp: cpu_step_def Let_def cpu_loop_def cpu_run_def fetch_def result_simps next_slot_begin_def
      next_slot_end_def detach_event_def split: cpu_pc.splits option.splits if_splits)

lemma ld_step_stop:
  assumes "ld_step env s a = Some (Inr t)"
  shows "timer_stop (tmr t) = timer_stop (tmr s) \<and> tpc (tmr t) = tpc (tmr s)"
  using assms
  by (auto simp: ld_step_def Let_def ld_load_def ld_admit_def result_simps next_slot_begin_def
      next_slot_end_def detach_event_def split: ld_pc.splits option.splits if_splits)

lemma runs_on_step:
  assumes on: "runs_on s" and st: "os_step env s t" and pl: "place_move s (place_of s) (place_of t)"
  shows "runs_on t"
proof -
  have "clock_inv t" using clock_step [OF _ st] on by (simp add: runs_on_def)
  moreover have "finite (dom (store t))"
    using place_move_dom [OF pl] on by (simp add: place_of_def runs_on_def)
  moreover have "tpc (tmr t) \<noteq> Not_Started \<and> (m_pc t = M_Join \<longrightarrow> timer_stop (tmr t) = 0)"
    using st
  proof cases
    case (cpu k)
    then show ?thesis using cpu_step_stop [OF cpu(2)] cpu_step_frame [OF cpu(2)] on by (simp add: runs_on_def)
  next
    case (loader a)
    then show ?thesis using ld_step_stop [OF loader(2)] ld_step_frame [OF loader(2)] on by (simp add: runs_on_def)
  next
    case (timer u)
    then show ?thesis using timer_step_stop [OF timer(2)] on by (simp add: runs_on_def)
  next
    case main
    then show ?thesis using on
      by (auto simp: runs_on_def main_step_def set_tmr_def stop_request_def stop_join_def
          split: main_pc.splits option.splits if_splits)
  qed
  ultimately show ?thesis by (simp add: runs_on_def)
qed

lemma reachable_runs_on: "os_reachable env argv s \<Longrightarrow> runs_on s"
proof (induction rule: os_reachable.induct)
  case (boot s)
  then have "clock_inv s" by (rule boot_clock)
  with boot show ?case by (elim bootE) (simp add: runs_on_def)
next
  case (more s t)
  then show ?case
    using runs_on_step step_ok [OF reachable_os [OF more.hyps(1)] order_refl reachable_length [OF more.hyps(1)] more.hyps(2)]
    by blast
qed

text \<open>A thread at work is never disabled, and one in \<open>next_slot\<close> goes on once it is released.\<close>

lemma cpu_enabled:
  assumes "clock_inv s" "k < length (cpus s)"
    and "dpc (tmr s) k = Working \<or> (dpc (tmr s) k = In_Next_Slot \<and> (\<exists>u. next_slot_end (tmr s) k = Some u))"
  shows "cpu_step env s k \<noteq> None"
  using clock_cpu [OF assms(1,2)] assms(3)
  by (cases "c_pc (cpus s ! k)") (auto simp: cpu_step_def Let_def)

lemma ld_enabled:
  assumes "clock_inv s" "d = length (cpus s)"
    and "dpc (tmr s) d = Working \<or> (dpc (tmr s) d = In_Next_Slot \<and> (\<exists>u. next_slot_end (tmr s) d = Some u))"
  shows "ld_step env s a \<noteq> None"
  using clock_ldr [OF assms(1)] assms(2,3)
  by (cases "l_pc (ldr s)") (auto simp: ld_step_def Let_def)

lemma os_enabled:
  assumes on: "runs_on s" and m: "m_pc s \<noteq> M_Return"
  shows "(\<exists>t. os_step env s t) \<or> (\<exists>k < length (cpus s). \<exists>e. cpu_step env s k = Some (Inl e)) \<or>
     (\<exists>a e. store s a = None \<and> ld_step env s a = Some (Inl e))"
proof -
  let ?n = "length (cpus s)"
  have inv: "clock_inv s" and tm: "timer_reachable (tmr s)" using on by (simp_all add: runs_on_def clock_inv_def)
  obtain a where a: "store s a = None"
    using on ex_new_if_finite [of "dom (store s)"] by (auto simp: runs_on_def)
  have dev: "set (dev_list (tmr s)) = {..?n}" using inv m by (simp add: clock_inv_def)
  have thread: ?thesis if "d \<in> set (dev_list (tmr s))"
    "dpc (tmr s) d = Working \<or> (dpc (tmr s) d = In_Next_Slot \<and> (\<exists>u. next_slot_end (tmr s) d = Some u))" for d
  proof -
    note w = that
    show ?thesis
    proof (cases "d < ?n")
      case True
      then obtain r where "cpu_step env s d = Some r" using cpu_enabled [OF inv _ w(2), of env] by auto
      then show ?thesis using True os_step.cpu by (cases r) blast+
    next
      case False
      then have "d = ?n" using w(1) dev by simp
      then obtain r where "ld_step env s a = Some r" using ld_enabled [OF inv _ w(2), of env a] by auto
      then show ?thesis using a os_step.loader by (cases r) blast+
    qed
  qed
  show ?thesis
  proof (cases "tpc (tmr s) = Exited")
    case False
    moreover have "tpc (tmr s) \<noteq> Not_Started" using on by (simp add: runs_on_def)
    ultimately consider u where "timer_step (tmr s) = Some u" | d where "d \<in> set (dev_list (tmr s))"
      "dpc (tmr s) d = Working \<or> (dpc (tmr s) d = In_Next_Slot \<and> (\<exists>u. next_slot_end (tmr s) d = Some u))"
      using timer_alive [OF reachable_inv [OF tm]] by blast
    then show ?thesis using thread os_step.timer by cases blast+
  next
    case True
    show ?thesis
    proof (cases "m_pc s")
      case M_Join
      then have stop: "timer_stop (tmr s) = 0" using on by (simp add: runs_on_def)
      then have fin: "all_finished (tmr s)" using reachable_pass [OF tm] True by (simp add: pass_ok_def)
      have "dpc (tmr s) d = Detached" if "d \<in> set (dev_list (tmr s))" for d
      proof -
        have "device_ok (tmr s) d" using that reachable_inv [OF tm] by (simp add: timer_inv_def)
        moreover have "t_fsh (ids (tmr s) d) \<noteq> 0" using fin that by (simp add: all_finished_def)
        ultimately show ?thesis by (cases "dpc (tmr s) d") (auto simp: device_ok_def)
      qed
      then have det: "dpc (tmr s) d = Detached" if "d \<le> ?n" for d using that dev by simp
      have "c_pc c = C_Stopped" if "c \<in> set (cpus s)" for c
      proof -
        from that obtain k where "k < ?n" "c = cpus s ! k" by (auto simp: in_set_conv_nth)
        then show ?thesis using det [of k] clock_cpu [OF inv] by (cases "c_pc c") auto
      qed
      moreover have "l_pc (ldr s) = L_Stopped"
        using det [of ?n] clock_ldr [OF inv] by (cases "l_pc (ldr s)") auto
      ultimately have "\<exists>t. main_step s = Some t" using M_Join by (auto simp: main_step_def)
      then show ?thesis using os_step.main by blast
    next
      case M_Stop
      then have "\<exists>t. main_step s = Some t" using True by (simp add: main_step_def stop_join_def)
      then show ?thesis using os_step.main by blast
    qed (use m in simp)
  qed
qed

interpretation progress: progress_measure "os_step env" "\<lambda>s. clock_inv s \<and> length (cpus s) = n" "\<lambda>s. ticks (tmr s)" os_rank
    "9 * n + 15" for env n
proof
  fix s t assume inv: "clock_inv s \<and> length (cpus s) = n" and st: "os_step env s t"
  have "length (cpus t) = length (cpus s)"
    using st by cases (auto dest: cpu_step_frame ld_step_frame main_step_frame)
  then show "clock_inv t \<and> length (cpus t) = n" using clock_step inv st by auto
  show "ticks (tmr t) = Suc (ticks (tmr s)) \<or> ticks (tmr t) = ticks (tmr s) \<and> os_rank t < os_rank s"
    using os_step_rank inv st by blast
next
  fix s assume "clock_inv s \<and> length (cpus s) = n"
  then show "os_rank s \<le> 9 * n + 15" using os_rank_limit by blast
qed

lemma run_limit:
  assumes "os_reachable env argv s" "(os_step env ^^ m) s t"
  shows "ticks (tmr s) \<le> ticks (tmr t) \<and>
     m \<le> (9 * length (cpus s) + 15) + (ticks (tmr t) - ticks (tmr s)) * (9 * length (cpus s) + 16)"
proof -
  have inv: "clock_inv s" using reachable_clock [OF assms(1)] .
  then have "clock_inv s \<and> length (cpus s) = length (cpus s)" by simp
  from progress.steps_limit [OF assms(2) this]
  have l: "ticks (tmr s) \<le> ticks (tmr t)"
    "m + os_rank t \<le> os_rank s + (ticks (tmr t) - ticks (tmr s)) * Suc (9 * length (cpus s) + 15)" by blast+
  have e: "Suc (9 * length (cpus s) + 15) = 9 * length (cpus s) + 16" by simp
  have "m \<le> (9 * length (cpus s) + 15) + (ticks (tmr t) - ticks (tmr s)) * (9 * length (cpus s) + 16)"
    using l(2) [unfolded e] os_rank_limit [OF inv] by linarith
  then show ?thesis using l(1) by blast
qed

section \<open>Properties\<close>

text \<open>C10. Time always advances: whatever the interleaving, in one slot of the timer the threads
  together take at most \<open>9 n + 16\<close> steps for \<open>n\<close> CPUs; so a run that is longer than that per
  slot has advanced the time. No fairness of the thread scheduler is assumed.\<close>

theorem time_always_advances:
  assumes "os_reachable env argv s" "(os_step env ^^ m) s t"
  shows "ticks (tmr s) \<le> ticks (tmr t) \<and> m < (ticks (tmr t) - ticks (tmr s) + 1) * (9 * length (cpus s) + 16)"
  using run_limit [OF assms] by (simp add: distrib_right)

text \<open>C8. No deadlock: in every reachable state in which \<open>main\<close> has not returned, some thread can
  take a step, or a CPU or the loader has run into undefined behaviour or \<open>exit(1)\<close>. In particular the
  timer thread does not end while a CPU or the loader still waits in \<open>next_slot\<close>.\<close>

theorem os_never_deadlocks:
  assumes "os_reachable env argv s" "m_pc s \<noteq> M_Return"
  shows "(\<exists>t. os_step env s t) \<or> (\<exists>k < length (cpus s). \<exists>e. cpu_step env s k = Some (Inl e)) \<or>
     (\<exists>a e. store s a = None \<and> ld_step env s a = Some (Inl e))"
  using os_enabled [OF reachable_runs_on [OF assms(1)] assms(2)] .


theorem time_always_advances_witness:
  "\<exists>s t. os_reachable tiny_env [''os'', ''tiny''] s \<and> (os_step tiny_env ^^ Suc 0) s t \<and> ticks (tmr s) \<le> ticks (tmr t) \<and>
     Suc 0 < (ticks (tmr t) - ticks (tmr s) + 1) * (9 * length (cpus s) + 16)"
proof -
  obtain s t where s: "os_step tiny_env s t" "os_reachable tiny_env [''os'', ''tiny''] s" by (rule tiny_state)
  have run: "(os_step tiny_env ^^ Suc 0) s t" using s(1) by (simp add: eq_OO)
  from time_always_advances [OF s(2) run] s(2) run show ?thesis by blast
qed

theorem os_never_deadlocks_witness:
  "\<exists>s. os_reachable empty_env [''os'', ''none''] s \<and> ((\<exists>t. os_step empty_env s t) \<or>
     (\<exists>k < length (cpus s). \<exists>e. cpu_step empty_env s k = Some (Inl e)) \<or>
     (\<exists>a e. store s a = None \<and> ld_step empty_env s a = Some (Inl e)))"
proof -
  obtain s where s: "start_run empty_env [''os'', ''none''] [] = Some s" "cpus s = map idle_cpu [0, 1]"
    using empty_run by (auto simp: map_option_eq_Some digest_def)
  have r: "os_reachable empty_env [''os'', ''none''] s" using start_run_reachable [OF s(1)] .
  have "m_pc s \<noteq> M_Return" using s(2) reachable_clock [OF r]
    by (cases "m_pc s") (auto simp: clock_inv_def all_stopped_def idle_cpu_def)
  from os_never_deadlocks [OF r this] r show ?thesis by blast
qed

end
