(* ===== verification/Stopping.thy ===== *)
theory Stopping
  imports Progress
begin

text \<open>
  When a CPU gives up. A CPU stops once \<open>get_proc\<close> has returned NULL after it ended or put back a
  process. Under a condition on the configuration (at most ten processes, none of priority 0,
  none calling \<open>killall\<close>) this happens only when all work is done: after its first call \<open>get_proc\<close>
  returns NULL only when nothing waits, and a CPU that gets nothing has looked after every
  process was put back. Without the condition a CPU can stop while a process waits.
\<close>

section \<open>When the scheduler returns NULL\<close>

text \<open>The scheduler has been asked before: it is not at the start of a pass with the counter at 0.\<close>

definition warm :: "sched_t \<Rightarrow> bool" where
  "warm sc \<longleftrightarrow> count sc \<noteq> 0 \<or> MarkedPrior sc \<noteq> 0"

lemma served_warm:
  assumes "levels_ok st s" "\<forall>p \<in># waiting s. prio_of st p \<noteq> 0" "served st s i p s'"
  shows "warm s'"
proof -
  have l: "i < 140" "p \<in> set (level s i)" "MarkedPrior s' = int i" using assms(3) by (auto simp: served_def)
  then have "p \<in># waiting s" using in_waiting [OF assms(1)] by blast
  then have pr: "prio_of st p \<noteq> 0" using assms(2) by blast
  have "uint (prio_of st p) = int i" using assms(1) l by (simp add: levels_ok_def)
  then have "i \<noteq> 0" using pr by (cases "i = 0") (simp_all add: uint_0_iff)
  then show ?thesis using l(3) by (simp add: warm_def)
qed

lemma get_warm:
  assumes "pool_ok st s" "\<forall>p \<in># waiting s. prio_of st p \<noteq> 0" "get_proc st s = Inr (p, s')"
  shows "warm s' \<and> (p = None \<and> warm s \<longrightarrow> waiting s = {#})"
proof
  have ok: "sched_ok st s" and lv: "levels_ok st s" using assms(1) by (simp_all add: pool_ok_def sched_ok_def)
  have sp: "get_spec st s (p, s')" using get_mlq_proc_spec [OF ok] assms(3) by (simp add: get_proc_def)
  then consider i where "served st s i p s'" | "s' = (new_round s)\<lparr>count := 140\<rparr>" | i where "served st (new_round s) i p s'"
    by (auto simp: get_spec_def split: option.splits if_splits)
  then show "warm s'"
  proof cases
    case 1
    then show ?thesis using served_warm [OF lv assms(2)] by blast
  next
    case 2
    then show ?thesis by (simp add: warm_def)
  next
    case 3
    then show ?thesis using served_warm [of st "new_round s"] lv assms(2) by simp
  qed
  show "p = None \<and> warm s \<longrightarrow> waiting s = {#}"
  proof (intro impI, elim conjE)
    assume "p = None" "warm s"
    then have "lowest_waiting s = None"
      using get_spec_null [OF ok] sp by (auto simp: gives_up_def warm_def)
    then have "\<forall>i < 140. level s i = []" by (auto simp: lowest_waiting_def find_None_iff)
    then have "p \<notin># waiting s" for p using in_waiting [OF lv, of p] by auto
    then show "waiting s = {#}" by (metis multiset_nonemptyE)
  qed
qed

lemma put_warm:
  assumes "pool_ok st s" "admissible st p" "put_proc st s p = Inr (st', s')"
  shows "warm s' = warm s"
proof -
  obtain a b where p: "p = Some a" "st a = Some b" using assms(2) by (auto simp: admissible_def live_def)
  then have "prio_of st p = prio b" by (simp add: prio_of_def pcb_at_def)
  then obtain i where i: "uint (prio b) = int i" "i < 140"
    using assms(2) by (metis admissible_def nat_less_iff nat_numeral of_nat_less_iff of_nat_numeral int_nat_eq uint_ge_0)
  have s: "sched_ok st s" "list_ok (running_list s)" using assms(1) by (simp_all add: pool_ok_def)
  obtain r where "appended (s\<lparr>running_list := r\<rparr>) i (Some a) s'"
    using put_proc_spec [OF s p(2) i] assms(3) p(1) by auto
  then show ?thesis by (auto simp: appended_def warm_def)
qed

text \<open>Putting a process back changes no program counter.\<close>

definition rem :: "pcb_store \<Rightarrow> pcb_ptr \<Rightarrow> nat" where
  "rem st p = (case p of None \<Rightarrow> 0 | Some a \<Rightarrow>
     (case st a of None \<Rightarrow> 0 | Some b \<Rightarrow> unat (code_size (code b)) - unat (pc b)))"

text \<open>The PCBs change by at most one step of a program counter, and none comes into being.\<close>

definition pc_step :: "pcb_store \<Rightarrow> pcb_store \<Rightarrow> bool" where
  "pc_step st st' \<longleftrightarrow> (\<forall>a b'. st' a = Some b' \<longrightarrow> (\<exists>b. st a = Some b \<and> code b' = code b \<and>
     (pc b' = pc b \<or> pc b < code_size (code b) \<and> pc b' = pc b + 1)))"

definition pcs_ok :: "pcb_store \<Rightarrow> bool" where
  "pcs_ok st \<longleftrightarrow> (\<forall>a b. st a = Some b \<longrightarrow> pc b \<le> code_size (code b))"

lemma word_Suc_le: "x < y \<Longrightarrow> x + 1 \<le> (y :: u32) \<and> unat (x + 1) = Suc (unat x)"
proof -
  assume a: "x < y"
  have "x + 1 \<noteq> 0"
  proof
    assume "x + 1 = 0"
    then have "x = -1" by (simp add: eq_neg_iff_add_eq_0)
    then show False using a word_n1_ge [of y] by (simp add: not_less [symmetric])
  qed
  then have "unat (x + 1) = Suc (unat x)" using unatSuc [of x] by (simp add: add.commute)
  then show ?thesis using a by (simp add: word_le_nat_alt word_less_nat_alt)
qed

lemma pcs_ok_step: "pc_step st st' \<Longrightarrow> pcs_ok st \<Longrightarrow> pcs_ok st'"
  unfolding pcs_ok_def pc_step_def using word_Suc_le by metis

lemma rem_link: "st a = Some b \<Longrightarrow> rem (st(a \<mapsto> link_queues b)) = rem st"
  by (auto simp: rem_def fun_eq_iff link_queues_def split: option.splits)

lemma put_proc_rem: "put_proc st s (Some a) = Inr (st', s') \<Longrightarrow> rem st' = rem st"
  by (elim put_proc_store) (simp add: rem_link)

lemma pc_step_refl [simp]: "pc_step st st"
  by (simp add: pc_step_def)

lemma pc_step_link: "st a = Some b \<Longrightarrow> pc_step st (st(a \<mapsto> link_queues b))"
  by (auto simp: pc_step_def link_queues_def)

text \<open>An instruction other than \<open>killall\<close> moves the program counter unless the process is at its end.\<close>

lemma run_counts:
  assumes "run h mc (Some a) = Inr (r, mc')" "pcbs mc a = Some b" "\<not> at_killall b"
  obtains m where "sched mc' = sched mc"
    "pcbs mc' = (pcbs mc)(a \<mapsto> b\<lparr>pc := (if pc b < code_size (code b) then pc b + 1 else pc b), p_mm := m\<rparr>)"
proof (cases "pc b < code_size (code b)")
  case True
  let ?b = "b\<lparr>pc := pc b + 1\<rparr>"
  let ?mc = "mc\<lparr>pcbs := (pcbs mc)(a \<mapsto> ?b)\<rparr>"
  obtain x where x: "arr_get (code_text (code b)) (uint (pc b)) = Inr x" and e: "exec_ins h ?mc (Some a) x = Inr (r, mc')"
    using assms(1,2) True by (cases "arr_get (code_text (code b)) (uint (pc b))") (auto simp: run_def pcb_at_def split: if_splits)
  have nk: "no_killall x" using assms(3) True x by (simp add: at_killall_def)
  have "pcbs ?mc a = Some ?b" by simp
  from exec_ins_frame [OF e this nk] obtain m where "sched mc' = sched mc" "\<And>x. x \<noteq> a \<Longrightarrow> pcbs mc' x = pcbs mc x"
    "pcbs mc' a = Some (?b\<lparr>p_mm := m\<rparr>)" by (auto simp: own_memory_def)
  then show thesis using True by (intro that [of m]) (auto simp: fun_eq_iff)
next
  case False
  then have "mc' = mc" using assms(1,2) by (auto simp: run_def pcb_at_def split: if_splits)
  moreover have "b\<lparr>pc := pc b, p_mm := p_mm b\<rparr> = b" by simp
  ultimately show thesis using False assms(2) by (intro that [of "p_mm b"]) (simp_all add: fun_upd_idem)
qed

lemma run_rem:
  assumes "st' = st(a \<mapsto> b\<lparr>pc := (if pc b < code_size (code b) then pc b + 1 else pc b), p_mm := m\<rparr>)" "st a = Some b"
  shows "rem st' (Some a) = rem st (Some a) - 1" "p \<noteq> Some a \<Longrightarrow> rem st' p = rem st p" "pc_step st st'"
proof -
  show "rem st' (Some a) = rem st (Some a) - 1"
    using assms word_Suc_le [of "pc b" "code_size (code b)"] by (simp add: rem_def word_less_nat_alt)
  show "p \<noteq> Some a \<Longrightarrow> rem st' p = rem st p" using assms by (auto simp: rem_def split: option.splits)
  show "pc_step st st'" using assms by (auto simp: pc_step_def)
qed

section \<open>What a CPU does to the places\<close>

text \<open>Steps that only move the CPU, from position \<open>q\<close> to \<open>q'\<close> with \<open>p\<close> in its variable.\<close>

definition local_move :: "os_t \<Rightarrow> pcb_ptr \<Rightarrow> cpu_pc \<Rightarrow> cpu_pc \<Rightarrow> bool" where
  "local_move s p q q' \<longleftrightarrow> q = C_Slot \<and> q' = C_Wait \<or> q = C_Wait \<and> q' = C_Loop \<or> q = C_Detach \<and> q' = C_Stopped \<and> p = None \<or>
     q = C_Recheck \<and> q' = (if p \<noteq> None then C_Run else if os_done s \<noteq> 0 then C_Detach else C_Slot) \<or>
     q = C_Loop \<and> q' = C_Recheck \<and> (\<exists>a b. p = Some a \<and> store s a = Some b \<and> pc b \<noteq> code_size (code b))"

inductive cpu_move :: "os_t \<Rightarrow> nat \<Rightarrow> os_t \<Rightarrow> cpu_t \<Rightarrow> bool" for s k t c where
  local: "store t = store s \<Longrightarrow> sch t = sch s \<Longrightarrow> c_proc c = c_proc (cpus s ! k) \<Longrightarrow>
    local_move s (c_proc c) (c_pc (cpus s ! k)) (c_pc c) \<Longrightarrow> cpu_move s k t c"
| get: "c_pc (cpus s ! k) = C_Fetch \<or> c_pc (cpus s ! k) = C_Loop \<and> c_proc (cpus s ! k) = None \<Longrightarrow>
    get_proc (store s) (sch s) = Inr (c_proc c, sch t) \<Longrightarrow> store t = store s \<Longrightarrow>
    c_pc c = C_Recheck \<or> c_pc c = C_Slot \<and> c_proc c = None \<Longrightarrow> cpu_move s k t c"
| free: "c_pc (cpus s ! k) = C_Loop \<Longrightarrow> c_proc (cpus s ! k) = Some a \<Longrightarrow> store s a = Some b \<Longrightarrow>
    pc b = code_size (code b) \<Longrightarrow> store t = (store s)(a := None) \<Longrightarrow> sch t = sch s \<Longrightarrow> c_pc c = C_Fetch \<Longrightarrow> cpu_move s k t c"
| put: "c_pc (cpus s ! k) = C_Loop \<Longrightarrow> c_proc (cpus s ! k) = Some a \<Longrightarrow> store s a = Some b \<Longrightarrow>
    pc b \<noteq> code_size (code b) \<Longrightarrow> put_proc (store s) (sch s) (Some a) = Inr (store t, sch t) \<Longrightarrow> c_pc c = C_Fetch \<Longrightarrow>
    cpu_move s k t c"
| run: "c_pc (cpus s ! k) = C_Run \<Longrightarrow> c_proc (cpus s ! k) = Some a \<Longrightarrow> store s a = Some b \<Longrightarrow>
    store t = (store s)(a \<mapsto> b\<lparr>pc := (if pc b < code_size (code b) then pc b + 1 else pc b), p_mm := m\<rparr>) \<Longrightarrow>
    sch t = sch s \<Longrightarrow> c_pc c = C_Slot \<Longrightarrow> c_proc c = Some a \<Longrightarrow> cpu_move s k t c"

lemma cpu_step_move:
  assumes inv: "os_inv C s" and k: "k < length (cpus s)" and nk: "\<not> killing s" and st: "cpu_step env s k = Some (Inr t)"
  shows "\<exists>c. cpus t = (cpus s)[k := c] \<and> cpu_move s k t c"
proof -
  let ?c = "cpus s ! k"
  have ok: "cpu_ok (store s) ?c" using os_inv_cpu [OF inv k] .
  note l = cpu_move.local [of t s _ k, unfolded local_move_def]
  show ?thesis
  proof (cases "c_pc ?c")
    case C_Loop
    then have lp: "cpu_loop s k ?c = Inr t" using st by (simp add: cpu_step_def)
    show ?thesis
    proof (cases "c_proc ?c")
      case None
      then obtain p sc where g: "get_proc (store s) (sch s) = Inr (p, sc)"
        and t: "t = set_cpu (set_sch s sc) k (?c\<lparr>c_proc := p, c_pc := if p = None then C_Slot else C_Recheck\<rparr>)"
        using lp by (auto simp: cpu_loop_def fetch_def result_simps)
      show ?thesis
        by (rule exI [of _ "?c\<lparr>c_proc := p, c_pc := if p = None then C_Slot else C_Recheck\<rparr>"], intro conjI cpu_move.get)
          (use g None C_Loop in \<open>simp_all add: t\<close>)
    next
      case (Some a)
      obtain b where b: "store s a = Some b" using lp Some by (auto simp: cpu_loop_def result_simps)
      consider "pc b = code_size (code b)" | "pc b \<noteq> code_size (code b)" "time_left ?c = 0"
        | "pc b \<noteq> code_size (code b)" "time_left ?c \<noteq> 0" by blast
      then show ?thesis
      proof cases
        case 1
        then have "t = set_cpu (set_store s ((store s)(a := None))) k (?c\<lparr>time_left := 0, c_pc := C_Fetch\<rparr>)"
          using lp Some b by (simp add: cpu_loop_def pcb_at_def)
        then show ?thesis using 1 C_Loop Some b
          by (intro exI [of _ "?c\<lparr>time_left := 0, c_pc := C_Fetch\<rparr>"] conjI cpu_move.free) auto
      next
        case 2
        then obtain st sc where "put_proc (store s) (sch s) (Some a) = Inr (st, sc)"
          and "t = set_cpu (set_sch (set_store s st) sc) k (?c\<lparr>c_pc := C_Fetch\<rparr>)"
          using lp Some b by (auto simp: cpu_loop_def pcb_at_def result_simps)
        then show ?thesis using 2 C_Loop Some b
          by (intro exI [of _ "?c\<lparr>c_pc := C_Fetch\<rparr>"] conjI cpu_move.put) auto
      next
        case 3
        then have "t = set_cpu s k (?c\<lparr>c_pc := C_Recheck\<rparr>)" using lp Some b by (simp add: cpu_loop_def pcb_at_def)
        then show ?thesis using 3 C_Loop Some b by (intro exI [of _ "?c\<lparr>c_pc := C_Recheck\<rparr>"] conjI l) auto
      qed
    qed
  next
    case C_Fetch
    then obtain p sc where g: "get_proc (store s) (sch s) = Inr (p, sc)"
      and t: "t = set_cpu (set_sch s sc) k (?c\<lparr>c_proc := p, c_pc := C_Recheck\<rparr>)"
      using st by (auto simp: cpu_step_def fetch_def result_simps)
    show ?thesis
      by (rule exI [of _ "?c\<lparr>c_proc := p, c_pc := C_Recheck\<rparr>"], intro conjI cpu_move.get)
        (use g C_Fetch in \<open>simp_all add: t\<close>)
  next
    case C_Recheck
    then have "t = set_cpu s k (cpu_recheck s ?c)" using st by (simp add: cpu_step_def)
    then show ?thesis using C_Recheck by (intro exI [of _ "cpu_recheck s ?c"] conjI l) (auto simp: cpu_recheck_def)
  next
    case C_Run
    with ok obtain a where a: "c_proc ?c = Some a" by (auto simp: cpu_ok_def)
    with ok C_Run obtain b where b: "store s a = Some b" by (auto simp: cpu_ok_def holding_def admissible_def live_def)
    have "\<not> at_killall b"
    proof
      assume "at_killall b"
      then show False using nk k C_Run a b unfolding killing_def by (auto dest: nth_mem)
    qed
    moreover obtain v mc n where run: "run (env_host env) (mach s) (Some a) = Inr (v, mc)"
      and t: "t = set_cpu (s\<lparr>mach := mc\<rparr>) k (?c\<lparr>time_left := n, c_pc := C_Slot\<rparr>)"
      using st a C_Run by (auto simp: cpu_step_def Let_def cpu_run_def result_simps)
    ultimately obtain m where "sched mc = sch s"
      "pcbs mc = (store s)(a \<mapsto> b\<lparr>pc := (if pc b < code_size (code b) then pc b + 1 else pc b), p_mm := m\<rparr>)"
      using run_counts [OF run b] by blast
    then show ?thesis using C_Run a b
      by (intro exI [of _ "?c\<lparr>time_left := n, c_pc := C_Slot\<rparr>"] conjI cpu_move.run [where m = m]) (simp_all add: t set_cpu_def)
  next
    case C_Slot
    then show ?thesis using st by (intro exI [of _ "?c\<lparr>c_pc := C_Wait\<rparr>"] conjI l) (auto simp: cpu_step_def Let_def)
  next
    case C_Wait
    then obtain u where "t = set_cpu (set_tmr s u) k (?c\<lparr>c_pc := C_Loop\<rparr>)"
      using st by (auto simp: cpu_step_def Let_def split: option.splits)
    then show ?thesis using C_Wait by (intro exI [of _ "?c\<lparr>c_pc := C_Loop\<rparr>"] conjI l) auto
  next
    case C_Detach
    then show ?thesis using st ok by (intro exI [of _ "?c\<lparr>c_pc := C_Stopped\<rparr>"] conjI l) (auto simp: cpu_step_def Let_def cpu_ok_def)
  qed (use st in \<open>simp add: cpu_step_def\<close>)
qed

lemma cpu_move_pcs: "cpu_move s k t c \<Longrightarrow> pc_step (store s) (store t)"
proof (induction rule: cpu_move.induct)
  case (free a b)
  then show ?case by (auto simp: pc_step_def)
next
  case (put a b)
  then show ?case by (elim put_proc_store) (simp add: pc_step_link)
next
  case (run a b m)
  then show ?case using run_rem(3) by blast
qed simp_all

section \<open>A CPU that finds nothing\<close>

text \<open>The states the argument is about: the invariants, no \<open>killall\<close>, and no process of priority 0
  in a ready queue.\<close>

definition calm :: "(code_seg_t \<times> u32) set \<Rightarrow> os_t \<Rightarrow> bool" where
  "calm C s \<longleftrightarrow> os_inv C s \<and> clock_inv s \<and> \<not> killing s \<and> (\<forall>p \<in># waiting (sch s). prio_of (store s) p \<noteq> 0)"

lemma calmD: "calm C s \<Longrightarrow> os_inv C s" "calm C s \<Longrightarrow> clock_inv s" "calm C s \<Longrightarrow> \<not> killing s"
  "calm C s \<Longrightarrow> \<forall>p \<in># waiting (sch s). prio_of (store s) p \<noteq> 0" "calm C s \<Longrightarrow> pool_ok (store s) (sch s)"
  by (auto simp: calm_def os_inv_def)

text \<open>The loader has put a process into a ready queue in this slot.\<close>

definition admitted_now :: "os_t \<Rightarrow> bool" where
  "admitted_now s \<longleftrightarrow> l_pc (ldr s) \<in> {L_Slot, L_Wait} \<and> in_slot s (length (cpus s))"

definition nothing_left :: "os_t \<Rightarrow> bool" where
  "nothing_left s \<longleftrightarrow> waiting (sch s) = {#} \<or> admitted_now s"

text \<open>CPU \<open>k\<close> has asked the scheduler in this slot and got nothing.\<close>

definition looked :: "os_t \<Rightarrow> nat \<Rightarrow> bool" where
  "looked s k \<longleftrightarrow> c_proc (cpus s ! k) = None \<and>
     (c_pc (cpus s ! k) \<in> {C_Recheck, C_Slot, C_Detach, C_Stopped} \<or> c_pc (cpus s ! k) = C_Wait \<and> in_slot s k)"

text \<open>When all CPUs have got nothing, nothing waits but what the loader has brought in since.
  A CPU stops only after the loader has finished.\<close>

definition looks_ok :: "os_t \<Rightarrow> bool" where
  "looks_ok s \<longleftrightarrow> (warm (sch s) \<or> (\<forall>c \<in> set (cpus s). c_pc c = C_Loop \<and> c_proc c = None) \<and> nothing_left s) \<and>
     ((\<forall>k < length (cpus s). looked s k) \<longrightarrow> nothing_left s)"

definition done_ok :: "os_t \<Rightarrow> bool" where
  "done_ok s \<longleftrightarrow> (\<forall>c \<in> set (cpus s). c_pc c \<in> {C_Detach, C_Stopped} \<longrightarrow> os_done s \<noteq> 0) \<and>
     (os_done s \<noteq> 0 \<longrightarrow> l_pc (ldr s) \<in> {L_Detach, L_Stopped}) \<and>
     (l_pc (ldr s) \<in> {L_Detach, L_Stopped} \<longrightarrow> num_processes (conf s) \<le> int (l_i (ldr s)))"

lemma looks_cpu:
  assumes calm: "calm C s" and look: "looks_ok s" and k: "k < length (cpus s)" and st: "cpu_step env s k = Some (Inr t)"
  shows "looks_ok t"
proof -
  obtain c where ct: "cpus t = (cpus s)[k := c]" and move: "cpu_move s k t c"
    using cpu_step_move [OF calmD(1) [OF calm] k calmD(3) [OF calm] st] by blast
  have own: "own_slot (tmr s) k (tmr t)" using cpu_step_rank [OF calmD(2) [OF calm] k st] by blast
  have fr: "conf t = conf s" "ldr t = ldr s" "os_done t = os_done s" using cpu_step_frame [OF st] by simp_all
  have adm: "admitted_now t = admitted_now s"
    using own k fr(2) ct by (simp add: admitted_now_def own_slot_def in_slot_def)
  have other: "looked s j" if "looked t j" "j \<noteq> k" for j
    using that own ct by (simp add: looked_def own_slot_def in_slot_def)
  have all: "\<forall>j < length (cpus s). looked s j" if "\<forall>j < length (cpus t). looked t j" "looked s k"
    using that other ct by (metis length_list_update)
  have cold: "warm (sch s)" if "c_pc (cpus s ! k) \<noteq> C_Loop \<or> c_proc (cpus s ! k) \<noteq> None"
    using look k that by (auto simp: looks_ok_def)
  have quiet: ?thesis if "warm (sch t)" "\<not> looked t k"
    using that k ct by (auto simp: looks_ok_def)
  have lt: "cpus t ! k = c" using ct k by simp
  from move show ?thesis
  proof cases
    case local
    then have w: "warm (sch s)" "nothing_left t = nothing_left s"
      using cold adm by (auto simp: local_move_def nothing_left_def)
    have "looked s k" if "looked t k"
      using that local lt by (auto simp: looked_def local_move_def)
    moreover have "k < length (cpus t)" using k ct by simp
    ultimately have "(\<forall>j < length (cpus t). looked t j) \<longrightarrow> nothing_left s" using all look by (auto simp: looks_ok_def)
    then show ?thesis using w local(2) by (simp add: looks_ok_def)
  next
    case get
    from get_warm [OF calmD(5,4) [OF calm] get(2)] have w: "warm (sch t)"
      "c_proc c = None \<and> warm (sch s) \<Longrightarrow> waiting (sch s) = {#}" by simp_all
    show ?thesis
    proof (cases "c_proc c")
      case None
      then have same: "waiting (sch t) = waiting (sch s)"
        using pool.get_admissible [OF calmD(5) [OF calm] get(2)] by (auto simp: admissible_def live_def)
      have "nothing_left t"
      proof (cases "warm (sch s)")
        case True
        then show ?thesis using w(2) None same by (simp add: nothing_left_def)
      next
        case False
        then show ?thesis using look same adm by (simp add: looks_ok_def nothing_left_def)
      qed
      then show ?thesis using w(1) by (simp add: looks_ok_def)
    next
      case (Some a)
      then show ?thesis using w(1) lt by (intro quiet) (auto simp: looked_def)
    qed
  next
    case (free a b)
    then show ?thesis using cold lt by (intro quiet) (auto simp: looked_def)
  next
    case (put a b)
    have "admissible (store s) (Some a)"
      using os_inv_cpu [OF calmD(1) [OF calm] k] put by (simp add: cpu_ok_def holding_def)
    from put_warm [OF calmD(5) [OF calm] this put(5)] show ?thesis
      using cold lt put by (intro quiet) (auto simp: looked_def)
  next
    case (run a b m)
    then show ?thesis using cold lt by (intro quiet) (auto simp: looked_def)
  qed
qed

text \<open>Steps that leave the CPUs and the scheduler alone.\<close>

lemma looks_frame:
  assumes "looks_ok s" "cpus t = cpus s" "waiting (sch t) = waiting (sch s)" "warm (sch t) = warm (sch s)"
    and "\<And>k. k < length (cpus s) \<Longrightarrow> in_slot t k \<Longrightarrow> in_slot s k" "nothing_left s \<Longrightarrow> nothing_left t"
  shows "looks_ok t"
  using assms by (auto simp: looks_ok_def looked_def)

lemma looks_admitted:
  assumes "looks_ok s" "cpus t = cpus s" "warm (sch t) = warm (sch s)" "admitted_now t"
  shows "looks_ok t"
  using assms by (auto simp: looks_ok_def nothing_left_def)

lemma looks_loader:
  assumes calm: "calm C s" and look: "looks_ok s" and st: "ld_step env s a = Some (Inr t)"
  shows "looks_ok t"
proof -
  let ?n = "length (cpus s)"
  have own: "own_slot (tmr s) ?n (tmr t)" using ld_step_rank [OF calmD(2) [OF calm] st] by blast
  have ct: "cpus t = cpus s" using ld_step_frame [OF st] by simp
  have sl: "in_slot t k = in_slot s k" if "k < ?n" for k
    using own that by (simp add: own_slot_def in_slot_def)
  have "l_pc (ldr s) \<noteq> L_Stopped" using st by (auto simp: ld_step_def Let_def)
  then have "m_pc s = M_Join" using clock_join [OF calmD(2) [OF calm]] by simp
  then have dev: "device_ok (tmr s) ?n" using clock_device [OF calmD(2) [OF calm], of ?n] by simp
  have l: "l_timer (ldr s) = ?n" "dpc (tmr s) ?n = ld_dev (l_pc (ldr s))" using clock_ldr [OF calmD(2) [OF calm]] by simp_all
  have now: "in_slot s ?n" if "ld_dev (l_pc (ldr s)) = Working"
    using device_now(1) [OF dev] l(2) that by (simp add: in_slot_def)
  have plain: ?thesis if "sch t = sch s" "\<not> admitted_now s"
    using that by (intro looks_frame [OF look ct]) (auto simp: sl nothing_left_def)
  have adm: "admitted_now s = (l_pc (ldr s) \<in> {L_Slot, L_Wait} \<and> in_slot s ?n)" by (simp add: admitted_now_def)
  show ?thesis
  proof (cases "l_pc (ldr s)")
    case L_Loop
    then have "ld_load env s a = Inr t \<or> t = set_ldr (s\<lparr>os_done := 1\<rparr>) ((ldr s)\<lparr>l_pc := L_Detach\<rparr>)"
      using st by (auto simp: ld_step_def Let_def split: if_splits)
    then have "sch t = sch s" by (auto simp: ld_load_def Let_def result_simps set_store_def)
    then show ?thesis using L_Loop adm by (intro plain) simp_all
  next
    case L_Start
    then consider "ld_admit env s = Inr t" | "t = set_ldr s ((ldr s)\<lparr>l_pc := L_Sleep\<rparr>)"
      using st by (auto simp: ld_step_def Let_def result_simps split: if_splits)
    then show ?thesis
    proof cases
      case 1
      obtain x b st' sc where x: "l_proc (ldr s) = Some x" "store s x = Some b"
        and put: "put_proc ((store s)(x \<mapsto> give_memory env (l_i (ldr s)) b)) (sch s) (Some x) = Inr (st', sc)"
        and t: "t = set_ldr (set_sch (set_store s st') sc) ((ldr s)\<lparr>l_i := Suc (l_i (ldr s)), l_pc := L_Slot\<rparr>)"
        using 1 by (auto simp: ld_admit_def result_simps add_proc_eq)
      have sim: "similar (store s) ((store s)(x \<mapsto> give_memory env (l_i (ldr s)) b))"
        by (rule similar_update, rule x(2)) (simp add: kept_def on_devices_def give_memory_def)
      note ok = pool_similar [OF calmD(5) [OF calm] sim]
      have "warm (sch t) = warm (sch s)" using put_warm [OF ok put_proc_level [OF ok put] put] by (simp add: t)
      moreover have "admitted_now t" using now L_Start by (simp add: t admitted_now_def in_slot_def)
      ultimately show ?thesis using look ct by (rule looks_admitted [rotated 2])
    next
      case 2
      then show ?thesis using L_Start adm by (intro plain) simp_all
    qed
  next
    case L_Slot
    then have "t = set_ldr (set_tmr s (next_slot_begin (tmr s) ?n)) ((ldr s)\<lparr>l_pc := L_Wait\<rparr>)"
      using st l(1) by (simp add: ld_step_def Let_def)
    then have "sch t = sch s" "admitted_now t" using now L_Slot by (simp_all add: admitted_now_def in_slot_def next_slot_begin_def)
    then show ?thesis by (intro looks_admitted [OF look ct]) simp_all
  next
    case L_Wait
    then obtain u where u: "next_slot_end (tmr s) ?n = Some u" "t = set_ldr (set_tmr s u) ((ldr s)\<lparr>l_pc := L_Loop\<rparr>)"
      using st l(1) by (auto simp: ld_step_def Let_def split: option.splits)
    have "\<not> in_slot s ?n" using device_now(2) [OF dev _ u(1)] l(2) L_Wait by (simp add: in_slot_def)
    then show ?thesis using adm u(2) by (intro plain) simp_all
  next
    case L_Asleep
    then obtain u where "t = set_ldr (set_tmr s u) ((ldr s)\<lparr>l_pc := L_Start\<rparr>)"
      using st by (auto simp: ld_step_def Let_def split: option.splits)
    then show ?thesis using L_Asleep adm by (intro plain) simp_all
  qed (rule plain; use st adm in \<open>auto simp: ld_step_def Let_def\<close>)+
qed

lemma tick_device:
  assumes "timer_step u = Some v" "ticks v \<noteq> ticks u" "device_ok u d"
  shows "dpc u d \<noteq> Working \<and> (dpc u d = In_Next_Slot \<longrightarrow> slots u d = ticks u)"
proof -
  obtain f e where "tpc u = Tick f e"
    using assms(1,2) by (auto simp: timer_step_def split: timer_pc.splits list.splits if_splits)
  then show ?thesis using assms(3)
    by (cases "dpc u d") (auto simp: device_ok_def awaited_def behind_def split: if_splits)
qed

text \<open>When the time advances every CPU and the loader is in \<open>next_slot\<close> or has stopped.\<close>

lemma tick_threads:
  assumes inv: "clock_inv s" and st: "timer_step (tmr s) = Some u" "ticks u \<noteq> ticks (tmr s)"
  shows "k < length (cpus s) \<Longrightarrow> c_pc (cpus s ! k) = C_Stopped \<or> c_pc (cpus s ! k) = C_Wait \<and> in_slot s k"
    and "l_pc (ldr s) = L_Stopped \<or> l_pc (ldr s) \<in> {L_Wait, L_Asleep} \<and> in_slot s (length (cpus s))"
proof -
  have dev: "device_ok (tmr s) d" if "m_pc s = M_Join" "d \<le> length (cpus s)" for d
    using clock_device [OF inv that] by simp
  show "c_pc (cpus s ! k) = C_Stopped \<or> c_pc (cpus s ! k) = C_Wait \<and> in_slot s k" if k: "k < length (cpus s)"
  proof (cases "c_pc (cpus s ! k) = C_Stopped")
    case False
    then have "m_pc s = M_Join" using clock_join [OF inv, of k] k by simp
    from tick_device [OF st dev [OF this, of k]] show ?thesis
      using k clock_cpu [OF inv k] by (cases "c_pc (cpus s ! k)") (auto simp: in_slot_def)
  qed simp
  show "l_pc (ldr s) = L_Stopped \<or> l_pc (ldr s) \<in> {L_Wait, L_Asleep} \<and> in_slot s (length (cpus s))"
  proof (cases "l_pc (ldr s) = L_Stopped")
    case False
    then have "m_pc s = M_Join" using clock_join [OF inv] by simp
    from tick_device [OF st dev [OF this, of "length (cpus s)"]] show ?thesis
      using clock_ldr [OF inv] by (cases "l_pc (ldr s)") (auto simp: in_slot_def)
  qed simp
qed

lemma looks_timer:
  assumes inv: "clock_inv s" and look: "looks_ok s" and dn: "done_ok s" and ne: "cpus s \<noteq> []"
    and st: "timer_step (tmr s) = Some u"
  shows "looks_ok (set_tmr s u)"
proof (cases "ticks u = ticks (tmr s)")
  case True
  then have "in_slot (set_tmr s u) d = in_slot s d" for d using timer_step_rank [OF st] by (simp add: in_slot_def)
  then show ?thesis by (intro looks_frame [OF look]) (auto simp: nothing_left_def admitted_now_def)
next
  case False
  note pos = tick_threads(1) [OF inv st False]
  have late: "\<not> in_slot (set_tmr s u) d" if "in_slot s d" for d
    using that timer_step_rank [OF st] False by (auto simp: in_slot_def)
  have first: "c_pc (cpus s ! 0) \<noteq> C_Loop" using pos [of 0] ne by auto
  then have w: "warm (sch s)" using look ne by (auto simp: looks_ok_def)
  have "nothing_left (set_tmr s u)" if l: "\<forall>k < length (cpus s). looked (set_tmr s u) k"
  proof -
    have stop: "c_pc (cpus s ! k) = C_Stopped \<and> looked s k" if "k < length (cpus s)" for k
      using pos [OF that] late [of k] l that by (auto simp: looked_def)
    then have "nothing_left s" using look by (simp add: looks_ok_def)
    moreover have "os_done s \<noteq> 0" using stop [of 0] ne dn by (auto simp: done_ok_def)
    then have "\<not> admitted_now s" using dn by (auto simp: done_ok_def admitted_now_def)
    ultimately show ?thesis by (simp add: nothing_left_def)
  qed
  then show ?thesis using w by (simp add: looks_ok_def)
qed

lemma done_step:
  assumes calm: "calm C s" and dn: "done_ok s" and st: "os_step env s t"
  shows "done_ok t"
  using st
proof cases
  case (cpu k)
  obtain c where c: "cpus t = (cpus s)[k := c]" "cpu_move s k t c"
    using cpu_step_move [OF calmD(1) [OF calm] cpu(1) calmD(3) [OF calm] cpu(2)] by blast
  have k: "c_pc (cpus s ! k) \<in> {C_Detach, C_Stopped} \<Longrightarrow> os_done s \<noteq> 0"
    using dn nth_mem [OF cpu(1)] unfolding done_ok_def by blast
  have "c_pc c \<in> {C_Detach, C_Stopped} \<Longrightarrow> os_done s \<noteq> 0"
    using c(2) k by cases (auto simp: local_move_def split: if_splits)
  then show ?thesis
    using dn cpu_step_frame [OF cpu(2)] c(1) set_update_subset_insert [of "cpus s" k c] by (auto simp: done_ok_def)
next
  case (loader a)
  then show ?thesis using dn
    by (auto simp: ld_step_def Let_def ld_load_def ld_admit_def result_simps done_ok_def
        split: ld_pc.splits option.splits if_splits)
next
  case (timer u)
  then show ?thesis using dn by (simp add: done_ok_def)
next
  case main
  then show ?thesis using dn main_step_frame [OF main]
    by (auto simp: done_ok_def main_step_def set_tmr_def split: main_pc.splits option.splits if_splits)
qed

lemma looks_step:
  assumes calm: "calm C s" and look: "looks_ok s" "done_ok s" and ne: "cpus s \<noteq> []" and st: "os_step env s t"
  shows "looks_ok t"
  using st
proof cases
  case (cpu k)
  then show ?thesis using looks_cpu [OF calm look(1)] by blast
next
  case (loader a)
  then show ?thesis using looks_loader [OF calm look(1)] by blast
next
  case (timer u)
  then show ?thesis using looks_timer [OF calmD(2) [OF calm] look ne] by blast
next
  case main
  have "slots (tmr t) = slots (tmr s) \<and> ticks (tmr t) = ticks (tmr s)"
    using main by (auto simp: main_step_def stop_request_def stop_join_def split: main_pc.splits option.splits if_splits)
  then have "in_slot t d = in_slot s d" for d by (simp add: in_slot_def)
  then show ?thesis
    using main_step_frame [OF main] by (intro looks_frame [OF look(1)]) (auto simp: nothing_left_def admitted_now_def)
qed

section \<open>Configurations whose processes all finish\<close>

definition good_config :: "env_t \<Rightarrow> config_t \<Rightarrow> bool" where
  "good_config env c \<longleftrightarrow> programs_ok env c \<and> num_processes c \<le> 10 \<and> 0 < num_cpus c \<and> (\<forall>(x, r) \<in> programs env c. r \<noteq> 0)"

lemma reachable_cpus: "os_reachable env argv s \<Longrightarrow> length (cpus s) = nat (num_cpus (conf s))"
proof (induction rule: os_reachable.induct)
  case (boot s)
  then show ?case by (elim bootE) simp
next
  case (more s t)
  have "length (cpus t) = length (cpus s)"
    using more.hyps(2) by cases (auto dest: cpu_step_frame ld_step_frame main_step_frame)
  then show ?case using more os_step_conf by simp
qed

lemma reachable_calm:
  assumes "os_reachable env argv s" "good_config env (conf s)"
  shows "calm (programs env (conf s)) s \<and> cpus s \<noteq> []"
proof -
  have inv: "os_inv (programs env (conf s)) s" using reachable_os [OF assms(1)] .
  have "prio_of (store s) p \<noteq> 0" if "p \<in># waiting (sch s)" for p
  proof -
    have "admissible (store s) p" using waiting_admissible [OF os_inv_pool [OF inv] that] .
    then obtain a b where "p = Some a" "store s a = Some b" by (auto simp: admissible_def live_def)
    moreover from this have "(code b, prio b) \<in> programs env (conf s)" using inv by (simp add: os_inv_def code_ok_def)
    then have "prio b \<noteq> 0" using assms(2) by (auto simp: good_config_def)
    ultimately show ?thesis by (simp add: prio_of_def pcb_at_def)
  qed
  moreover have "\<not> killing s" using no_killing [OF assms(1)] assms(2) by (simp add: good_config_def)
  moreover have "cpus s \<noteq> []" using reachable_cpus [OF assms(1)] assms(2) by (auto simp: good_config_def)
  ultimately show ?thesis using inv reachable_clock [OF assms(1)] by (simp add: calm_def)
qed

lemma reachable_looks:
  assumes "os_reachable env argv s" "good_config env (conf s)"
  shows "looks_ok s \<and> done_ok s"
  using assms
proof (induction rule: os_reachable.induct)
  case (boot s)
  then have "cpus s \<noteq> []" using reachable_calm os_reachable.boot by blast
  from boot.hyps show ?case
  proof (rule bootE)
    fix n assume b: "sch s = init_scheduler static_sched" "cpus s = map idle_cpu [0..<n]" "l_pc (ldr s) = L_Loop" "os_done s = 0"
    have "nothing_left s" by (simp add: nothing_left_def b(1) waiting_init)
    moreover have "\<forall>c \<in> set (cpus s). c_pc c = C_Loop \<and> c_proc c = None" by (auto simp: b(2) idle_cpu_def)
    ultimately show ?thesis using b(3,4) by (auto simp: looks_ok_def done_ok_def)
  qed
next
  case (more s t)
  then have good: "good_config env (conf s)" using os_step_conf by metis
  then show ?case
    using looks_step done_step reachable_calm [OF more.hyps(1) good] more.IH [OF good] more.hyps(2) by blast
qed

lemma all_stopped_done:
  assumes r: "os_reachable env argv s" and good: "good_config env (conf s)" and stop: "all_stopped s"
  shows "store s = Map.empty \<and> num_processes (conf s) \<le> int (l_i (ldr s))"
proof -
  have look: "looks_ok s" "done_ok s" using reachable_looks [OF r good] by simp_all
  have inv: "os_inv (programs env (conf s)) s" using reachable_os [OF r] .
  have l: "l_pc (ldr s) = L_Stopped" and c: "\<And>c. c \<in> set (cpus s) \<Longrightarrow> c_pc c = C_Stopped" using stop by (simp_all add: all_stopped_def)
  have none: "c_proc c = None" if "c \<in> set (cpus s)" for c
    using inv c [OF that] that by (auto simp: os_inv_def cpu_ok_def)
  have "\<forall>k < length (cpus s). looked s k" using c none by (simp add: looked_def)
  then have "waiting (sch s) = {#}" using look(1) l by (auto simp: looks_ok_def nothing_left_def admitted_now_def)
  moreover have "concat (map holding (cpus s)) = []" using none by (auto simp: holding_def)
  ultimately have "places s = {#}" using l by (simp add: places_def preparing_def)
  moreover have "loaded s \<le> 10" using reachable_bound [OF r] good unfolding ld_bound_def good_config_def by linarith
  then have "finite (dom (store s))" "places s = mset_set (Some ` dom (store s))"
    using reachable_places [OF r] good by (simp_all add: good_config_def place_inv_def place_of_def)
  ultimately have "mset_set (Some ` dom (store s)) = {#}" "finite (Some ` dom (store s))" by simp_all
  then have "dom (store s) = {}" by (simp only: mset_set_empty_iff image_is_empty) simp
  then show ?thesis using look(2) l by (simp add: done_ok_def)
qed

section \<open>Priority 0\<close>

text \<open>A round gives level 0 its 140 slots. When they are used up and nothing else waits, the
  scheduler returns NULL although a process waits.\<close>

lemma exhausted_null:
  assumes "pool_ok st s" "waiting s = {#p#}" "prio_of st p = 0" "MarkedPrior s = 0" "count s = 0" "slot s ! 0 = 140"
  shows "\<exists>s'. get_proc st s = Inr (None, s') \<and> waiting s' = {#p#}"
proof -
  have ok: "sched_ok st s" and lv: "levels_ok st s" using assms(1) by (simp_all add: pool_ok_def sched_ok_def)
  have no: "\<not> eligible s i" if "i < 140" for i
  proof
    assume e: "eligible s i"
    then obtain q where q: "q \<in> set (level s i)" by (cases "level s i") (auto simp: eligible_def)
    then have "q = p" using in_waiting [OF lv, of q] that assms(2) by auto
    then have "uint (prio_of st p) = int i" using lv q that by (simp add: levels_ok_def)
    then have "i = 0" using assms(3) by simp
    then show False using e assms(6) by (simp add: eligible_def)
  qed
  then have "first_choice s = None" using assms(4) by (auto simp: first_choice_def find_None_iff)
  then have "gives_up s" using assms(4,5) by (simp add: gives_up_def)
  then have "get_spec st s r \<Longrightarrow> r = (None, (new_round s)\<lparr>count := 140\<rparr>)" for r
    using \<open>first_choice s = None\<close> by (simp add: get_spec_def)
  then have "get_proc st s = Inr (None, (new_round s)\<lparr>count := 140\<rparr>)"
    using get_mlq_proc_spec [OF ok] by (auto simp: get_proc_def)
  moreover have "waiting ((new_round s)\<lparr>count := 140\<rparr>) = {#p#}" using assms(2) by (simp add: waiting_def new_round_def)
  ultimately show ?thesis by blast
qed

text \<open>C24. Without the condition on priority 0 a CPU can leave a process behind: when the last
  unfinished process has priority 0, its slice is over and level 0 has used up the slots of the
  round, the CPU puts the process back, gets NULL, takes that for the end of all work and
  stops, while the process waits. If no other CPU is left, \<open>main\<close> returns without it.\<close>

theorem exhausted_round_stops_cpu:
  assumes "k < length (cpus s)" "c_pc (cpus s ! k) = C_Loop" "c_proc (cpus s ! k) = Some a" "time_left (cpus s ! k) = 0"
    and "pool_ok (store s) (sch s)" "waiting (sch s) = {#}" "MarkedPrior (sch s) = 0" "count (sch s) = 0" "slot (sch s) ! 0 = 140"
    and "store s a = Some b" "prio b = 0" "pc b \<noteq> code_size (code b)" "os_done s \<noteq> 0"
  shows "\<exists>t. os_steps env s t \<and> c_pc (cpus t ! k) = C_Stopped \<and> store t a = Some (link_queues b) \<and>
     waiting (sch t) = {#Some a#}"
proof -
  let ?c = "cpus s ! k"
  have adm: "admissible (store s) (Some a)" using assms(10,11) by (simp add: admissible_def live_def prio_of_def pcb_at_def)
  obtain st sc where put: "put_proc (store s) (sch s) (Some a) = Inr (st, sc)"
    using pool.put_law [OF assms(5) adm] by blast
  have ok: "pool_ok st sc" "waiting sc = {#Some a#}" using pool.put_conserves [OF assms(5) adm put] assms(6) by auto
  have st: "st = (store s)(a \<mapsto> link_queues b)" using put assms(10) by (elim put_proc_store) simp
  obtain i r where app: "appended ((sch s)\<lparr>running_list := r\<rparr>) i (Some a) sc"
    using put_proc_spec [of "store s" "sch s" a b 0] put assms(5,10,11) by (auto simp: pool_ok_def)
  have same: "MarkedPrior sc = 0" "count sc = 0" "slot sc ! 0 = 140" using app assms(7-9) by (auto simp: appended_def)
  have "prio_of st (Some a) = 0" using assms(11) by (simp add: st prio_of_def pcb_at_def link_queues_def)
  from exhausted_null [OF ok this same] obtain sc' where
    get: "get_proc st sc = Inr (None, sc')" and w: "waiting sc' = {#Some a#}" by blast
  let ?s1 = "set_cpu (set_sch (set_store s st) sc) k (?c\<lparr>c_pc := C_Fetch\<rparr>)"
  let ?s2 = "set_cpu (set_sch ?s1 sc') k (?c\<lparr>c_proc := None, c_pc := C_Recheck\<rparr>)"
  let ?s3 = "set_cpu ?s2 k (?c\<lparr>c_proc := None, c_pc := C_Detach\<rparr>)"
  let ?s4 = "set_cpu (set_tmr ?s3 (detach_event (tmr s) (c_timer ?c))) k (?c\<lparr>c_proc := None, c_pc := C_Stopped\<rparr>)"
  have "cpu_step env s k = Some (Inr ?s1)"
    using assms(1-4,10,12) put by (simp add: cpu_step_def cpu_loop_def pcb_at_def)
  moreover have "cpu_step env ?s1 k = Some (Inr ?s2)"
    using assms(1) get by (simp add: cpu_step_def fetch_def)
  moreover have "cpu_step env ?s2 k = Some (Inr ?s3)"
    using assms(1,13) by (simp add: cpu_step_def cpu_recheck_def)
  moreover have "cpu_step env ?s3 k = Some (Inr ?s4)"
    using assms(1) by (simp add: cpu_step_def Let_def)
  ultimately have "os_steps env s ?s4"
    by (intro os_steps.step [OF os_steps.step [OF os_steps.step [OF os_steps.step [OF os_steps.refl]]]] os_step.cpu)
      (use assms(1) in simp_all)
  then show ?thesis using assms(1) w st by (intro exI [of _ ?s4]) simp
qed

text \<open>One CPU with an unfinished process of priority 0, and the scheduler as it is after the start,
  when no level has slots left.\<close>

theorem exhausted_round_stops_cpu_witness:
  "\<exists>s t. cpus s = [\<lparr>c_pc = C_Loop, c_timer = 0, c_proc = Some 5, time_left = 0\<rparr>] \<and> os_steps tiny_env s t \<and>
     c_pc (cpus t ! 0) = C_Stopped \<and> waiting (sch t) = {#Some 5#}"
proof -
  obtain s0 where boot: "boot tiny_env [''os'', ''tiny''] = Inr s0" "sch s0 = init_scheduler static_sched"
    using tiny_run by (auto simp: start_run_def map_option_eq_Some split: sum.splits elim: bootE)
  let ?b = "(demo_pcb 1 0)\<lparr>code := \<lparr>code_text = [ins CALC 0 0 0], code_size = 1\<rparr>\<rparr>"
  let ?s = "(set_store s0 [5 \<mapsto> ?b])\<lparr>os_done := 1, cpus := [\<lparr>c_pc = C_Loop, c_timer = 0, c_proc = Some 5, time_left = 0\<rparr>]\<rparr>"
  have sc: "sch ?s = init_scheduler static_sched" using boot(2) by simp
  have "pool_ok (store ?s) (sch ?s)" unfolding sc pool_ok_def using init_scheduler_ok by blast
  moreover have "waiting (sch ?s) = {#}" unfolding sc by (rule waiting_init)
  moreover have "MarkedPrior (sch ?s) = 0" "count (sch ?s) = 0" "slot (sch ?s) ! 0 = 140"
    unfolding sc by (simp_all add: init_scheduler_def static_sched_def MAX_PRIO_def upto_rec1)
  ultimately have "\<exists>t. os_steps tiny_env ?s t \<and> c_pc (cpus t ! 0) = C_Stopped \<and> store t 5 = Some (link_queues ?b) \<and>
      waiting (sch t) = {#Some 5#}"
    by (intro exhausted_round_stops_cpu) (simp_all add: demo_pcb_def set_store_def)
  then obtain t where "os_steps tiny_env ?s t" "c_pc (cpus t ! 0) = C_Stopped" "waiting (sch t) = {#Some 5#}" by blast
  moreover have "cpus ?s = [\<lparr>c_pc = C_Loop, c_timer = 0, c_proc = Some 5, time_left = 0\<rparr>]" by simp
  ultimately show ?thesis by blast
qed

end
