(* ===== verification/Completion.thy ===== *)
theory Completion
  imports Stopping
begin

text \<open>
  The simulator does its work: under the condition of the theory \<open>Stopping\<close> every process the
  configuration names is loaded, run to its end and freed within a time that depends on the
  start times and the sizes of the programs, whatever the interleaving. The work left is
  counted in instructions; in every slot in which a process is unfinished after the loader
  has ended, at least one CPU executes an instruction.
\<close>

section \<open>The work that is left\<close>

text \<open>A process counts as many units as it has instructions left, and one more until it has been
  given a CPU for the last time.\<close>

definition cpu_work :: "pcb_store \<Rightarrow> cpu_t \<Rightarrow> nat" where
  "cpu_work st c = (case holding c of [] \<Rightarrow> 0 | p # _ \<Rightarrow>
     rem st p + (if c_pc c \<in> {C_Slot, C_Wait, C_Loop} \<and> rem st p = 0 then 0 else 1))"

definition ready_work :: "pcb_store \<Rightarrow> pcb_ptr multiset \<Rightarrow> nat" where
  "ready_work st W = (\<Sum>p \<in># W. Suc (rem st p))"

definition work :: "os_t \<Rightarrow> nat" where
  "work s = ready_work (store s) (waiting (sch s)) + (\<Sum>k < length (cpus s). cpu_work (store s) (cpus s ! k)) +
     (if preparing (ldr s) then Suc (rem (store s) (l_proc (ldr s))) else 0)"

text \<open>CPU \<open>k\<close> has executed an instruction in this slot.\<close>

definition ran :: "os_t \<Rightarrow> nat \<Rightarrow> bool" where
  "ran s k \<longleftrightarrow> c_proc (cpus s ! k) \<noteq> None \<and> (c_pc (cpus s ! k) = C_Slot \<or> c_pc (cpus s ! k) = C_Wait \<and> in_slot s k)"

definition ran_now :: "os_t \<Rightarrow> bool" where
  "ran_now s \<longleftrightarrow> (\<exists>k < length (cpus s). ran s k)"

definition budget :: "os_t \<Rightarrow> nat" where
  "budget s = work s + (if ran_now s then 1 else 0)"

lemma sum_cpu_change:
  assumes "k < (n :: nat)" "\<And>j. j < n \<Longrightarrow> j \<noteq> k \<Longrightarrow> f j = g j"
  shows "(\<Sum>j < n. f j) + g k = (\<Sum>j < n. g j) + (f k :: nat)"
proof -
  have "(\<Sum>j < n. h j) = h k + (\<Sum>j \<in> {..<n} - {k}. h j)" for h :: "nat \<Rightarrow> nat"
    using assms(1) by (intro sum.remove) simp_all
  moreover have "(\<Sum>j \<in> {..<n} - {k}. f j) = (\<Sum>j \<in> {..<n} - {k}. g j)"
    using assms(2) by (intro sum.cong) auto
  ultimately show ?thesis by simp
qed

lemma ready_work_cong: "(\<And>p. p \<in># W \<Longrightarrow> rem st' p = rem st p) \<Longrightarrow> ready_work st' W = ready_work st W"
  unfolding ready_work_def by (metis (no_types, lifting) image_mset_cong)

lemma cpu_work_cong: "(\<And>p. p \<in> set (holding c) \<Longrightarrow> rem st' p = rem st p) \<Longrightarrow> cpu_work st' c = cpu_work st c"
  by (cases "holding c") (simp_all add: cpu_work_def)

text \<open>A step of CPU \<open>k\<close>: what its part of the work and the waiting part become.\<close>

lemma work_change:
  assumes k: "k < length (cpus s)" and t: "cpus t = (cpus s)[k := c]" "ldr t = ldr s"
    and same: "\<And>p. p \<notin> set (holding (cpus s ! k)) \<Longrightarrow> rem (store t) p = rem (store s) p"
    and inv: "os_inv C s"
  shows "work t + ready_work (store s) (waiting (sch s)) + cpu_work (store s) (cpus s ! k) =
     work s + ready_work (store t) (waiting (sch t)) + cpu_work (store t) c"
proof -
  let ?n = "length (cpus s)"
  have hold: "length (holding (cpus s ! k)) \<le> 1" by (simp add: holding_def)
  have "cpu_work (store t) (cpus s ! j) = cpu_work (store s) (cpus s ! j)" if "j < ?n" "j \<noteq> k" for j
  proof (rule cpu_work_cong)
    fix p assume p: "p \<in> set (holding (cpus s ! j))"
    have "p \<notin> set (holding (cpus s ! k))"
    proof
      assume "p \<in> set (holding (cpus s ! k))"
      then have "holding (cpus s ! k) = [p]" using hold by (cases "holding (cpus s ! k)") auto
      then show False using places_others [OF inv k _ that] p by blast
    qed
    then show "rem (store t) p = rem (store s) p" by (rule same)
  qed
  then have "(\<Sum>j < ?n. cpu_work (store t) (cpus t ! j)) + cpu_work (store s) (cpus s ! k) =
      (\<Sum>j < ?n. cpu_work (store s) (cpus s ! j)) + cpu_work (store t) (cpus t ! k)"
    by (intro sum_cpu_change [OF k]) (simp add: t(1))
  moreover have "rem (store t) (l_proc (ldr s)) = rem (store s) (l_proc (ldr s))" if "preparing (ldr s)"
  proof (rule same)
    show "l_proc (ldr s) \<notin> set (holding (cpus s ! k))"
    proof
      assume "l_proc (ldr s) \<in> set (holding (cpus s ! k))"
      then have "holding (cpus s ! k) = [l_proc (ldr s)]" using hold by (cases "holding (cpus s ! k)") auto
      then show False using held_apart(2) [OF inv k _ that] by blast
    qed
  qed
  ultimately show ?thesis using k t by (simp add: work_def)
qed

lemma rem_free: "p \<noteq> Some a \<Longrightarrow> rem (st(a := None)) p = rem st p"
  by (auto simp: rem_def split: option.splits)

lemma rem_zero: "st a = Some b \<Longrightarrow> pcs_ok st \<Longrightarrow> rem st (Some a) = 0 \<longleftrightarrow> pc b = code_size (code b)"
  by (auto simp: rem_def pcs_ok_def word_le_nat_alt) (metis le_antisym word_unat_eq_iff)

lemma cpu_budget:
  assumes calm: "calm C s" and pcs: "pcs_ok (store s)" and k: "k < length (cpus s)" and st: "cpu_step env s k = Some (Inr t)"
  shows "budget t \<le> budget s \<and> work t \<le> work s"
proof -
  let ?c = "cpus s ! k" and ?W = "\<lambda>s. ready_work (store s) (waiting (sch s))"
  note inv = calmD(1) [OF calm]
  obtain c where ct: "cpus t = (cpus s)[k := c]" and move: "cpu_move s k t c"
    using cpu_step_move [OF inv k calmD(3) [OF calm] st] by blast
  have own: "own_slot (tmr s) k (tmr t)" using cpu_step_rank [OF calmD(2) [OF calm] k st] by blast
  have lt: "cpus t ! k = c" "ldr t = ldr s" using ct k cpu_step_frame [OF st] by simp_all
  have others: "ran t j = ran s j" if "j \<noteq> k" for j
    using that own ct by (simp add: ran_def own_slot_def in_slot_def)
  have stays: "ran_now t \<Longrightarrow> ran_now s" if "ran t k \<Longrightarrow> ran s k"
    using that others ct unfolding ran_now_def by (metis length_list_update)
  have keep: ?thesis if "ran t k \<Longrightarrow> ran s k" "work t \<le> work s"
    using that stays by (auto simp: budget_def)
  have wc: "work t + ?W s + cpu_work (store s) ?c = work s + ?W t + cpu_work (store t) c"
    if "\<And>p. p \<notin> set (holding ?c) \<Longrightarrow> rem (store t) p = rem (store s) p"
    using work_change [OF k ct lt(2) that inv] .
  from move show ?thesis
  proof cases
    case local
    have "cpu_work (store s) c \<le> cpu_work (store s) ?c"
      using local rem_zero [OF _ pcs]
      by (auto simp: local_move_def cpu_work_def holding_def split: if_splits)
    moreover have "work t + ?W s + cpu_work (store s) ?c = work s + ?W t + cpu_work (store t) c"
      by (rule wc) (simp add: local)
    moreover have "ran t k \<Longrightarrow> ran s k"
      using local lt own by (auto simp: ran_def local_move_def split: if_splits)
    ultimately show ?thesis using local by (intro keep) simp_all
  next
    case get
    have "work t + ?W s + cpu_work (store s) ?c = work s + ?W t + cpu_work (store t) c"
      by (rule wc) (simp add: get)
    moreover have "cpu_work (store s) ?c = 0" using get by (auto simp: cpu_work_def holding_def)
    moreover have "?W s = ?W t + cpu_work (store s) c"
      using pool.get_admissible [OF calmD(5) [OF calm] get(2)] get(3,4)
      by (auto simp: ready_work_def cpu_work_def holding_def admissible_def live_def)
    ultimately show ?thesis using get lt by (intro keep) (auto simp: ran_def)
  next
    case (free a b)
    have h: "holding ?c = [Some a]" using free by (simp add: holding_def)
    have "work t + ?W s + cpu_work (store s) ?c = work s + ?W t + cpu_work (store t) c"
      by (rule wc) (simp add: h free rem_free)
    moreover have "cpu_work (store s) ?c = 0" using free h rem_zero [of "store s" a b, OF free(3) pcs] by (simp add: cpu_work_def)
    moreover have "cpu_work (store t) c = 0" using free by (simp add: cpu_work_def holding_def)
    moreover have "?W t = ?W s" using held_apart(1) [OF inv k h] unfolding free(5,6) by (intro ready_work_cong rem_free) metis
    ultimately show ?thesis using free lt by (intro keep) (auto simp: ran_def)
  next
    case (put a b)
    have h: "holding ?c = [Some a]" using put by (simp add: holding_def)
    have same: "rem (store t) = rem (store s)" using put_proc_rem [OF put(5)] .
    have adm: "admissible (store s) (Some a)" using os_inv_cpu [OF inv k] h by (simp add: cpu_ok_def)
    have "work t + ?W s + cpu_work (store s) ?c = work s + ?W t + cpu_work (store t) c"
      by (rule wc) (simp add: same)
    moreover have "cpu_work (store s) ?c = Suc (rem (store s) (Some a))"
      using put h rem_zero [of "store s" a b, OF put(3) pcs] by (simp add: cpu_work_def)
    moreover have "cpu_work (store t) c = 0" using put by (simp add: cpu_work_def holding_def)
    moreover have "?W t \<le> ?W s + Suc (rem (store s) (Some a))"
      using pool.put_conserves [OF calmD(5) [OF calm] adm put(5)] by (auto simp: ready_work_def same)
    ultimately show ?thesis using put lt by (intro keep) (auto simp: ran_def)
  next
    case (run a b m)
    have h: "holding ?c = [Some a]" "holding c = [Some a]" using run by (simp_all add: holding_def)
    note r = run_rem [OF run(4,3)]
    have "work t + ?W s + cpu_work (store s) ?c = work s + ?W t + cpu_work (store t) c"
      by (rule wc) (simp add: h r(2))
    moreover have "?W t = ?W s" using held_apart(1) [OF inv k h(1)] r(2) unfolding run(5) by (intro ready_work_cong) metis
    moreover have "cpu_work (store t) c < cpu_work (store s) ?c"
      using run h r(1) by (simp add: cpu_work_def)
    ultimately show ?thesis by (simp add: budget_def)
  qed
qed

text \<open>The loader adds the work of the process it loads; the other threads add nothing.\<close>

lemma work_frame:
  assumes "store t = store s" "sch t = sch s" "cpus t = cpus s" "preparing (ldr t) = preparing (ldr s)"
    "l_proc (ldr t) = l_proc (ldr s)"
  shows "work t = work s"
  using assms by (simp add: work_def)

lemma ran_frame:
  assumes "cpus t = cpus s" "\<And>k. k < length (cpus s) \<Longrightarrow> in_slot t k = in_slot s k"
  shows "ran_now t = ran_now s"
  using assms by (auto simp: ran_now_def ran_def)

lemma load_work:
  assumes inv: "os_inv C s" and a: "store s a = None" and np: "\<not> preparing (ldr s)"
    and t: "cpus t = cpus s" "sch t = sch s" "store t = (store s)(a \<mapsto> b)" "preparing (ldr t)" "l_proc (ldr t) = Some a"
  shows "work t \<le> work s + Suc (unat (code_size (code b)))"
proof -
  have other: "rem (store t) p = rem (store s) p" if "live (store s) p" for p
  proof -
    have "p \<noteq> Some a" using that a by (auto simp: live_def)
    then show ?thesis using t(3) by (auto simp: rem_def split: option.splits)
  qed
  have "ready_work (store t) (waiting (sch t)) = ready_work (store s) (waiting (sch s))"
    unfolding t(2) using waiting_admissible [OF os_inv_pool [OF inv]]
    by (intro ready_work_cong other) (simp add: admissible_def)
  moreover have "cpu_work (store t) (cpus s ! k) = cpu_work (store s) (cpus s ! k)" if "k < length (cpus s)" for k
    using os_inv_cpu [OF inv that] by (intro cpu_work_cong other) (auto simp: cpu_ok_def admissible_def)
  moreover have "rem (store t) (Some a) \<le> unat (code_size (code b))" using t(3) by (simp add: rem_def)
  ultimately show ?thesis using np t(1,4,5) by (simp add: work_def)
qed

lemma ld_budget:
  assumes calm: "calm C s" and M: "\<forall>(x, r) \<in> C. unat (code_size x) \<le> M" and C: "programs env (conf s) \<subseteq> C"
    and len: "length (ld_processes (conf s)) = nat (num_processes (conf s))"
    and a: "store s a = None" and st: "ld_step env s a = Some (Inr t)"
  shows "work t + Suc M * loaded s \<le> work s + Suc M * loaded t \<and> ran_now t = ran_now s"
proof
  let ?n = "length (cpus s)"
  have own: "own_slot (tmr s) ?n (tmr t)" using ld_step_rank [OF calmD(2) [OF calm] st] by blast
  have ct: "cpus t = cpus s" using ld_step_frame [OF st] by simp
  show "ran_now t = ran_now s"
    using own by (intro ran_frame [OF ct]) (simp add: own_slot_def in_slot_def)
  note inv = calmD(1) [OF calm]
  show "work t + Suc M * loaded s \<le> work s + Suc M * loaded t"
  proof (cases "l_pc (ldr s)")
    case L_Loop
    then have np: "\<not> preparing (ldr s)" by (simp add: preparing_def)
    show ?thesis
    proof (cases "int (l_i (ldr s)) < num_processes (conf s)")
      case True
      let ?e = "ld_processes (conf s) ! l_i (ldr s)"
      have ld: "ld_load env s a = Inr t" using st L_Loop True by (simp add: ld_step_def)
      then obtain b n where b: "load (env_heap env (l_i (ldr s))) (env_fs env) (avail_pid s) (ld_path ?e) = Inr (b, n)"
        by (auto simp: ld_load_def Let_def result_simps)
      with ld obtain pr where pr: "ld_prio ?e = Some pr" by (cases "ld_prio ?e") (auto simp: ld_load_def Let_def)
      have t: "t = set_ldr (set_store (s\<lparr>avail_pid := n\<rparr>) ((store s)(a \<mapsto> b\<lparr>prio := ucast pr\<rparr>)))
                ((ldr s)\<lparr>l_proc := Some a, l_pc := L_Start\<rparr>)"
        using ld b pr by (simp add: ld_load_def Let_def)
      have "l_i (ldr s) < length (ld_processes (conf s))" using True len by linarith
      then have "(code b, ucast pr) \<in> C" using C b pr unfolding programs_def by blast
      then have "unat (code_size (code b)) \<le> M" using M by blast
      moreover have "work t \<le> work s + Suc (unat (code_size (code (b\<lparr>prio := ucast pr\<rparr>))))"
        using np by (intro load_work [OF inv a]) (simp_all add: t preparing_def set_store_def)
      moreover have "loaded t = Suc (loaded s)" using np by (simp add: t loaded_def preparing_def)
      ultimately show ?thesis by simp
    next
      case False
      then have "t = set_ldr (s\<lparr>os_done := 1\<rparr>) ((ldr s)\<lparr>l_pc := L_Detach\<rparr>)"
        using st L_Loop by (simp add: ld_step_def Let_def)
      then have "work t = work s" "loaded t = loaded s"
        using L_Loop by (simp_all add: work_def loaded_def preparing_def)
      then show ?thesis by simp
    qed
  next
    case L_Start
    then consider "ld_admit env s = Inr t" | "t = set_ldr s ((ldr s)\<lparr>l_pc := L_Sleep\<rparr>)"
      using st by (auto simp: ld_step_def Let_def result_simps split: if_splits)
    then show ?thesis
    proof cases
      case 1
      let ?l = "(ldr s)\<lparr>l_i := Suc (l_i (ldr s)), l_pc := L_Slot\<rparr>"
      obtain x b st' sc where x: "l_proc (ldr s) = Some x" "store s x = Some b"
        and put: "put_proc ((store s)(x \<mapsto> give_memory env (l_i (ldr s)) b)) (sch s) (Some x) = Inr (st', sc)"
        and t: "t = set_ldr (set_sch (set_store s st') sc) ?l"
        using 1 by (auto simp: ld_admit_def result_simps add_proc_eq)
      let ?st = "(store s)(x \<mapsto> give_memory env (l_i (ldr s)) b)"
      have sim: "similar (store s) ?st" by (rule similar_update, rule x(2)) (simp add: kept_def on_devices_def give_memory_def)
      note ok = pool_similar [OF calmD(5) [OF calm] sim]
      have "rem ?st = rem (store s)" using x(2) by (auto simp: rem_def fun_eq_iff give_memory_def split: option.splits)
      moreover have "rem st' = rem ?st" using put_proc_rem [OF put] .
      ultimately have r: "rem st' = rem (store s)" by simp
      have "ready_work st' (waiting sc) \<le> ready_work (store s) (waiting (sch s)) + Suc (rem (store s) (Some x))"
        using pool.put_conserves [OF ok put_proc_level [OF ok put] put] by (auto simp: ready_work_def r)
      moreover have "cpu_work st' c = cpu_work (store s) c" for c by (rule cpu_work_cong) (simp add: r)
      ultimately have "work t \<le> work s" using L_Start x(1) by (simp add: t work_def preparing_def)
      moreover have "loaded t = loaded s" using L_Start by (simp add: t loaded_def preparing_def)
      ultimately show ?thesis by simp
    next
      case 2
      then have "work t = work s" "loaded t = loaded s"
        using L_Start by (simp_all add: work_def loaded_def preparing_def)
      then show ?thesis by simp
    qed
  next
    case L_Sleep
    then have "work t = work s" "loaded t = loaded s"
      using st by (auto simp: ld_step_def Let_def work_def loaded_def preparing_def)
    then show ?thesis by simp
  next
    case L_Asleep
    then have "work t = work s" "loaded t = loaded s"
      using st by (auto simp: ld_step_def Let_def work_def loaded_def preparing_def split: option.splits)
    then show ?thesis by simp
  next
    case L_Wait
    then have "work t = work s" "loaded t = loaded s"
      using st by (auto simp: ld_step_def Let_def work_def loaded_def preparing_def split: option.splits)
    then show ?thesis by simp
  next
    case L_Slot
    then have "work t = work s" "loaded t = loaded s"
      using st by (auto simp: ld_step_def Let_def work_def loaded_def preparing_def)
    then show ?thesis by simp
  next
    case L_Detach
    then have "work t = work s" "loaded t = loaded s"
      using st by (auto simp: ld_step_def Let_def work_def loaded_def preparing_def)
    then show ?thesis by simp
  next
    case L_Stopped
    then show ?thesis using st by (simp add: ld_step_def)
  qed
qed

section \<open>The time the loader needs\<close>

definition start_of :: "config_t \<Rightarrow> nat \<Rightarrow> nat" where
  "start_of c i = (case start_time (ld_processes c ! i) of None \<Rightarrow> 0 | Some t \<Rightarrow> unat t)"

definition due :: "config_t \<Rightarrow> nat \<Rightarrow> nat" where
  "due c i = (\<Sum>j < i. Suc (start_of c j))"

lemma due_Suc [simp]: "due c (Suc i) = due c i + Suc (start_of c i)" "due c 0 = 0"
  by (simp_all add: due_def)

lemma due_mono: "i \<le> j \<Longrightarrow> due c i \<le> due c j"
  by (induction j) (auto simp: le_Suc_eq)

text \<open>The time at each position of the loop, for the process in hand: \<open>d\<close> is when its turn comes at
  the latest, \<open>w\<close> its start time.\<close>

fun on_time :: "ld_pc \<Rightarrow> bool \<Rightarrow> nat \<Rightarrow> nat \<Rightarrow> nat \<Rightarrow> bool" where
  "on_time L_Loop now T d w = (T \<le> d)"
| "on_time L_Start now T d w = (T \<le> d + w)"
| "on_time L_Sleep now T d w = (T < d + w)"
| "on_time L_Asleep now T d w = (if now then T < d + w else T \<le> d + w)"
| "on_time L_Slot now T d w = (T < d)"
| "on_time L_Wait now T d w = (if now then T < d else T \<le> d)"
| "on_time _ now T d w = True"

definition ld_time :: "os_t \<Rightarrow> bool" where
  "ld_time s = on_time (l_pc (ldr s)) (in_slot s (length (cpus s))) (ticks (tmr s))
     (due (conf s) (l_i (ldr s))) (start_of (conf s) (l_i (ldr s)))"

lemma ld_time_frame:
  assumes "ld_time s" "ldr t = ldr s" "conf t = conf s" "cpus t = (cpus s)[k := c]" "k < length (cpus s)"
    "own_slot (tmr s) k (tmr t)"
  shows "ld_time t"
proof -
  have "in_slot t (length (cpus s)) = in_slot s (length (cpus s))"
    using assms(5,6) by (simp add: own_slot_def in_slot_def)
  then show ?thesis using assms by (simp add: ld_time_def own_slot_def)
qed

lemma ld_time_loader:
  assumes inv: "clock_inv s" and T: "ld_time s" and lim: "due (conf s) (nat (num_processes (conf s))) < 2 ^ 64"
    and bd: "ld_bound s" and st: "ld_step env s a = Some (Inr t)"
  shows "ld_time t"
proof -
  let ?n = "length (cpus s)" and ?c = "conf s" and ?i = "l_i (ldr s)"
  have fr: "cpus t = cpus s" "conf t = conf s" using ld_step_frame [OF st] by simp_all
  have tk: "ticks (tmr t) = ticks (tmr s)" using ld_step_rank [OF inv st] by (simp add: own_slot_def)
  have "l_pc (ldr s) \<noteq> L_Stopped" using st by (auto simp: ld_step_def Let_def)
  then have "m_pc s = M_Join" using clock_join [OF inv] by simp
  then have dev: "device_ok (tmr s) ?n" using clock_device [OF inv, of ?n] by simp
  have l: "l_timer (ldr s) = ?n" "dpc (tmr s) ?n = ld_dev (l_pc (ldr s))" using clock_ldr [OF inv] by simp_all
  have goes: "\<not> in_slot s ?n" if "ld_dev (l_pc (ldr s)) = In_Next_Slot" "next_slot_end (tmr s) ?n = Some u" for u
    using device_now(2) [OF dev _ that(2)] l(2) that(1) by (auto simp: in_slot_def)
  show ?thesis
  proof (cases "l_pc (ldr s)")
    case L_Loop
    then have "ld_load env s a = Inr t \<or> t = set_ldr (s\<lparr>os_done := 1\<rparr>) ((ldr s)\<lparr>l_pc := L_Detach\<rparr>)"
      using st by (auto simp: ld_step_def Let_def split: if_splits)
    then have "l_pc (ldr t) = L_Start \<and> l_i (ldr t) = ?i \<or> l_pc (ldr t) = L_Detach"
      by (auto simp: ld_load_def Let_def result_simps)
    then show ?thesis using L_Loop T fr tk by (auto simp: ld_time_def)
  next
    case L_Start
    then obtain b where b: "start_time (ld_processes ?c ! ?i) = Some b"
      and step: "if current_time (tmr s) < b then t = set_ldr s ((ldr s)\<lparr>l_pc := L_Sleep\<rparr>) else ld_admit env s = Inr t"
      using st by (auto simp: ld_step_def Let_def result_simps split: if_splits)
    have i: "Suc ?i \<le> nat (num_processes ?c)" using bd L_Start by (simp add: ld_bound_def loaded_def preparing_def)
    have T': "ticks (tmr s) \<le> due ?c ?i + start_of ?c ?i" using T L_Start by (simp add: ld_time_def)
    show ?thesis
    proof (cases "current_time (tmr s) < b")
      case True
      have "ticks (tmr s) < 2 ^ 64" using T' due_mono [OF i, of ?c] lim by simp
      then have "unat (word_of_nat (ticks (tmr s)) :: 64 word) = ticks (tmr s)"
        by (simp add: unsigned_of_nat take_bit_nat_eq_self)
      moreover have "current_time (tmr s) = word_of_nat (ticks (tmr s))"
        using clock_timer [OF inv] by (simp add: timer_inv_def current_time_def)
      ultimately have "ticks (tmr s) < start_of ?c ?i" using True b by (simp add: start_of_def word_less_nat_alt)
      then show ?thesis using True step by (simp add: ld_time_def)
    next
      case False
      then have "l_pc (ldr t) = L_Slot" "l_i (ldr t) = Suc ?i" using step by (auto simp: ld_admit_def result_simps)
      then show ?thesis using T' fr tk by (simp add: ld_time_def)
    qed
  next
    case L_Asleep
    then obtain u where u: "next_slot_end (tmr s) ?n = Some u" "t = set_ldr (set_tmr s u) ((ldr s)\<lparr>l_pc := L_Start\<rparr>)"
      using st l(1) by (auto simp: ld_step_def Let_def split: option.splits)
    then show ?thesis using goes [OF _ u(1)] L_Asleep T tk by (simp add: ld_time_def)
  next
    case L_Wait
    then obtain u where u: "next_slot_end (tmr s) ?n = Some u" "t = set_ldr (set_tmr s u) ((ldr s)\<lparr>l_pc := L_Loop\<rparr>)"
      using st l(1) by (auto simp: ld_step_def Let_def split: option.splits)
    then show ?thesis using goes [OF _ u(1)] L_Wait T tk by (simp add: ld_time_def)
  next
    case L_Sleep
    then have "t = set_ldr (set_tmr s (next_slot_begin (tmr s) (l_timer (ldr s)))) ((ldr s)\<lparr>l_pc := L_Asleep\<rparr>)"
      using st by (simp add: ld_step_def Let_def)
    then show ?thesis using L_Sleep T tk by (simp add: ld_time_def)
  next
    case L_Slot
    then have "t = set_ldr (set_tmr s (next_slot_begin (tmr s) (l_timer (ldr s)))) ((ldr s)\<lparr>l_pc := L_Wait\<rparr>)"
      using st by (simp add: ld_step_def Let_def)
    then show ?thesis using L_Slot T tk by (simp add: ld_time_def)
  qed (use st in \<open>auto simp: ld_step_def Let_def ld_time_def\<close>)
qed

lemma ld_time_timer:
  assumes inv: "clock_inv s" and T: "ld_time s" and st: "timer_step (tmr s) = Some u"
  shows "ld_time (set_tmr s u)"
proof (cases "ticks u = ticks (tmr s)")
  case True
  then show ?thesis using T timer_step_rank [OF st] by (simp add: ld_time_def in_slot_def)
next
  case False
  then have "\<not> in_slot (set_tmr s u) d" if "in_slot s d" for d
    using that timer_step_rank [OF st] by (auto simp: in_slot_def)
  then show ?thesis
    using tick_threads(2) [OF inv st False] T timer_step_rank [OF st] False by (auto simp: ld_time_def)
qed

section \<open>The bound\<close>

definition loader_done :: "os_t \<Rightarrow> bool" where
  "loader_done s \<longleftrightarrow> l_pc (ldr s) \<in> {L_Detach, L_Stopped}"

text \<open>The last slot that can see an unfinished process, for programs of at most \<open>M\<close> instructions.\<close>

definition last_tick :: "config_t \<Rightarrow> nat \<Rightarrow> nat" where
  "last_tick c M = due c (nat (num_processes c)) + Suc M * nat (num_processes c) + 1"

definition small_programs :: "env_t \<Rightarrow> config_t \<Rightarrow> nat \<Rightarrow> bool" where
  "small_programs env c M \<longleftrightarrow> (\<forall>(x, r) \<in> programs env c. unat (code_size x) \<le> M) \<and>
     due c (nat (num_processes c)) < 2 ^ 64"

definition time_inv :: "nat \<Rightarrow> os_t \<Rightarrow> bool" where
  "time_inv M s \<longleftrightarrow> pcs_ok (store s) \<and> ld_time s \<and> work s \<le> Suc M * loaded s \<and>
     (loader_done s \<longrightarrow> store s = Map.empty \<or> ticks (tmr s) + budget s \<le> last_tick (conf s) M)"

lemma ld_step_pcs:
  assumes "ld_step env s a = Some (Inr t)" "pcs_ok (store s)"
  shows "pcs_ok (store t)"
proof -
  have load: "pcs_ok (store u)" if "ld_load env s a = Inr u" for u
  proof -
    obtain b n pr where "load (env_heap env (l_i (ldr s))) (env_fs env) (avail_pid s) (ld_path (ld_processes (conf s) ! l_i (ldr s))) = Inr (b, n)"
      "store u = (store s)(a \<mapsto> b\<lparr>prio := ucast (pr :: ulong)\<rparr>)"
      using \<open>ld_load env s a = Inr u\<close> by (auto simp: ld_load_def Let_def result_simps)
    then show ?thesis using load_fields assms(2) by (auto simp: pcs_ok_def)
  qed
  have admit: "pcs_ok (store u)" if "ld_admit env s = Inr u" for u
  proof -
    obtain x b st' sc where "store s x = Some b" "store u = st'"
      and put: "put_proc ((store s)(x \<mapsto> give_memory env (l_i (ldr s)) b)) (sch s) (Some x) = Inr (st', sc)"
      using \<open>ld_admit env s = Inr u\<close> by (auto simp: ld_admit_def result_simps add_proc_eq)
    then show ?thesis using assms(2)
      by (elim put_proc_store) (auto simp: pcs_ok_def link_queues_def give_memory_def)
  qed
  show ?thesis
    using assms load admit
    by (auto simp: ld_step_def Let_def result_simps split: ld_pc.splits option.splits if_splits)
qed

lemma pc_step_empty: "pc_step st st' \<Longrightarrow> st = Map.empty \<Longrightarrow> st' = Map.empty"
  unfolding pc_step_def by (metis not_None_eq option.distinct(1))

lemma tick_budget:
  assumes calm: "calm C s" and look: "looks_ok s" and dn: "loader_done s" and ne: "cpus s \<noteq> []"
    and pl: "places s = mset_set (Some ` dom (store s))" "finite (dom (store s))"
    and st: "timer_step (tmr s) = Some u" "ticks u \<noteq> ticks (tmr s)"
  shows "store s = Map.empty \<or> budget (set_tmr s u) < budget s"
proof -
  note inv = calmD(2) [OF calm]
  note pos = tick_threads(1) [OF inv st]
  have stop: "c_proc (cpus s ! k) = None" if "k < length (cpus s)" "c_pc (cpus s ! k) = C_Stopped" for k
    using os_inv_cpu [OF calmD(1) [OF calm] that(1)] that(2) by (simp add: cpu_ok_def)
  have late: "\<not> in_slot (set_tmr s u) d" if "in_slot s d" for d
    using that timer_step_rank [OF st(1)] st(2) by (auto simp: in_slot_def)
  have "\<not> ran_now (set_tmr s u)" using pos late by (fastforce simp: ran_now_def ran_def)
  then have b: "budget (set_tmr s u) = work s" by (simp add: budget_def work_def)
  show ?thesis
  proof (cases "ran_now s")
    case True
    then show ?thesis using b by (simp add: budget_def)
  next
    case False
    have none: "c_proc (cpus s ! k) = None" if "k < length (cpus s)" for k
      using False pos [OF that] stop [OF that] that by (auto simp: ran_now_def ran_def)
    then have "\<forall>k < length (cpus s). looked s k" using pos by (auto simp: looked_def)
    then have "waiting (sch s) = {#}"
      using look dn by (auto simp: looks_ok_def nothing_left_def admitted_now_def loader_done_def)
    moreover have "holding c = []" if "c \<in> set (cpus s)" for c
      using that none by (auto simp: holding_def in_set_conv_nth)
    then have "concat (map holding (cpus s)) = []" by simp
    moreover have "\<not> preparing (ldr s)" using dn by (auto simp: loader_done_def preparing_def)
    ultimately have "places s = {#}" by (simp add: places_def)
    then have "mset_set (Some ` dom (store s)) = {#}" "finite (Some ` dom (store s))" using pl by simp_all
    then show ?thesis by (simp only: mset_set_empty_iff image_is_empty) simp
  qed
qed

lemma reachable_pl:
  assumes "os_reachable env argv s" "good_config env (conf s)"
  shows "places s = mset_set (Some ` dom (store s)) \<and> finite (dom (store s)) \<and> loaded s \<le> nat (num_processes (conf s))"
proof -
  have l: "loaded s \<le> nat (num_processes (conf s))" using reachable_bound [OF assms(1)] by (simp add: ld_bound_def)
  then have "loaded s \<le> 10" using assms(2) unfolding good_config_def by linarith
  then show ?thesis
    using l reachable_places [OF assms(1)] assms(2) by (simp add: good_config_def place_inv_def place_of_def)
qed

lemma budget_frame: "work t = work s \<Longrightarrow> ran_now t = ran_now s \<Longrightarrow> budget t = budget s"
  by (simp add: budget_def)

lemma time_step:
  assumes r: "os_reachable env argv s" and good: "good_config env (conf s)" "small_programs env (conf s) M"
    and T: "time_inv M s" and st: "os_step env s t"
  shows "time_inv M t"
proof -
  let ?C = "programs env (conf s)"
  have calm: "calm ?C s" and ne: "cpus s \<noteq> []" using reachable_calm [OF r good(1)] by simp_all
  have pcs: "pcs_ok (store s)" and ldt: "ld_time s" and wk: "work s \<le> Suc M * loaded s"
    and fin: "loader_done s \<Longrightarrow> store s = Map.empty \<or> ticks (tmr s) + budget s \<le> last_tick (conf s) M"
    using T by (auto simp: time_inv_def)
  from st show ?thesis
  proof cases
    case (cpu k)
    obtain c where c: "cpus t = (cpus s)[k := c]" "cpu_move s k t c"
      using cpu_step_move [OF calmD(1) [OF calm] cpu(1) calmD(3) [OF calm] cpu(2)] by blast
    note pst = cpu_move_pcs [OF c(2)]
    have own: "own_slot (tmr s) k (tmr t)" using cpu_step_rank [OF calmD(2) [OF calm] cpu] by blast
    have fr: "conf t = conf s" "ldr t = ldr s" using cpu_step_frame [OF cpu(2)] by simp_all
    have b: "budget t \<le> budget s" "work t \<le> work s" using cpu_budget [OF calm pcs cpu] by simp_all
    have "loader_done t = loader_done s" "loaded t = loaded s" "ticks (tmr t) = ticks (tmr s)"
      using fr own by (simp_all add: loader_done_def loaded_def own_slot_def)
    then show ?thesis
      using pcs_ok_step [OF pst pcs] ld_time_frame [OF ldt fr(2,1) c(1) cpu(1) own] b wk fin fr(1) pc_step_empty [OF pst]
      by (fastforce simp: time_inv_def)
  next
    case (loader a)
    have fr: "conf t = conf s" using ld_step_frame [OF loader(2)] by simp
    have bd: "ld_bound s" using reachable_bound [OF r] .
    have M: "\<forall>(x, r) \<in> ?C. unat (code_size x) \<le> M" and lim: "due (conf s) (nat (num_processes (conf s))) < 2 ^ 64"
      using good(2) by (simp_all add: small_programs_def)
    note b = ld_budget [OF calm M order_refl reachable_length [OF r] loader]
    have ldt': "ld_time t" using ld_time_loader [OF calmD(2) [OF calm] ldt lim bd loader(2)] .
    have w: "work t \<le> Suc M * loaded t" using b wk by linarith
    have tk: "ticks (tmr t) = ticks (tmr s)"
      using ld_step_rank [OF calmD(2) [OF calm] loader(2)] by (simp add: own_slot_def)
    have "store t = Map.empty \<or> ticks (tmr t) + budget t \<le> last_tick (conf t) M" if dn: "loader_done t"
    proof (cases "l_pc (ldr s) = L_Loop")
      case True
      then have "\<not> int (l_i (ldr s)) < num_processes (conf s)"
        using loader(2) dn by (auto simp: ld_step_def ld_load_def Let_def result_simps loader_done_def split: if_splits)
      then have t: "t = set_ldr (s\<lparr>os_done := 1\<rparr>) ((ldr s)\<lparr>l_pc := L_Detach\<rparr>)"
        using loader(2) True by (simp add: ld_step_def Let_def)
      have i: "l_i (ldr s) \<le> nat (num_processes (conf s))" using bd by (simp add: ld_bound_def loaded_def split: if_splits)
      have "ticks (tmr t) \<le> due (conf s) (nat (num_processes (conf s)))"
        using ldt True due_mono [OF i, of "conf s"] tk by (simp add: ld_time_def)
      moreover have "loaded t \<le> nat (num_processes (conf s))" using i by (simp add: t loaded_def preparing_def)
      then have "work t \<le> Suc M * nat (num_processes (conf s))" using w by (meson le_trans mult_le_mono2)
      ultimately show ?thesis unfolding budget_def last_tick_def fr by simp
    next
      case False
      then have l: "l_pc (ldr s) = L_Detach"
        using loader(2) dn by (auto simp: ld_step_def ld_admit_def Let_def result_simps loader_done_def
            split: ld_pc.splits option.splits if_splits)
      then have t: "t = set_ldr (set_tmr s (detach_event (tmr s) (l_timer (ldr s)))) ((ldr s)\<lparr>l_pc := L_Stopped\<rparr>)"
        using loader(2) by (simp add: ld_step_def Let_def)
      have "work t = work s" using l by (intro work_frame) (simp_all add: t preparing_def)
      then have "budget t = budget s" using b by (intro budget_frame) simp_all
      then show ?thesis using fin l tk fr by (simp add: loader_done_def t)
    qed
    then show ?thesis using ld_step_pcs [OF loader(2) pcs] ldt' w by (simp add: time_inv_def)
  next
    case (timer u)
    have same: "work t = work s" "loaded t = loaded s" "loader_done t = loader_done s" "conf t = conf s" "store t = store s"
      using timer(1) by (simp_all add: work_def loaded_def loader_done_def)
    have ldt': "ld_time t" using ld_time_timer [OF calmD(2) [OF calm] ldt timer(2)] timer(1) by simp
    have "store s = Map.empty \<or> ticks (tmr t) + budget t \<le> ticks (tmr s) + budget s" if dn: "loader_done s"
    proof (cases "ticks u = ticks (tmr s)")
      case True
      have "ran_now t = ran_now s"
        using timer True timer_step_rank [OF timer(2)] by (intro ran_frame) (simp_all add: in_slot_def)
      then show ?thesis using True timer(1) budget_frame [OF same(1)] by simp
    next
      case False
      then have "ticks u = Suc (ticks (tmr s))" using timer_step_rank [OF timer(2)] by auto
      then show ?thesis
        using tick_budget [OF calm _ dn ne _ _ timer(2) False] reachable_looks [OF r good(1)] reachable_pl [OF r good(1)] timer(1)
        by auto
    qed
    then show ?thesis using pcs ldt' wk fin same by (fastforce simp: time_inv_def)
  next
    case main
    have fr: "conf t = conf s" "ldr t = ldr s" "cpus t = cpus s" "mach t = mach s" using main_step_frame [OF main] by simp_all
    have tm: "slots (tmr t) = slots (tmr s)" "ticks (tmr t) = ticks (tmr s)"
      using main by (auto simp: main_step_def stop_request_def stop_join_def split: main_pc.splits option.splits if_splits)
    then have sl: "in_slot t d = in_slot s d" for d by (simp add: in_slot_def)
    have "budget t = budget s" using fr sl by (intro budget_frame work_frame ran_frame) simp_all
    moreover have "work t = work s" using fr by (intro work_frame) simp_all
    ultimately show ?thesis
      using T fr tm sl by (simp add: time_inv_def ld_time_def loader_done_def loaded_def)
  qed
qed

lemma reachable_time:
  assumes "os_reachable env argv s" "good_config env (conf s)" "small_programs env (conf s) M"
  shows "time_inv M s"
  using assms
proof (induction rule: os_reachable.induct)
  case (boot s)
  from boot.hyps show ?case
  proof (rule bootE)
    fix n assume b: "store s = Map.empty" "sch s = init_scheduler static_sched" "cpus s = map idle_cpu [0..<n]"
      "l_pc (ldr s) = L_Loop" "l_i (ldr s) = 0" "ticks (tmr s) = 0"
    have "cpu_work (store s) (cpus s ! k) = 0" if "k < length (cpus s)" for k
      using that by (simp add: b(3) cpu_work_def holding_def idle_cpu_def)
    then have "work s = 0" using b by (simp add: work_def ready_work_def waiting_init preparing_def)
    then show ?thesis using b by (simp add: time_inv_def pcs_ok_def ld_time_def loader_done_def)
  qed
next
  case (more s t)
  then have good: "good_config env (conf s)" "small_programs env (conf s) M" using os_step_conf by metis+
  show ?case using time_step [OF more.hyps(1) good more.IH [OF good] more.hyps(2)] .
qed

lemma unfinished_early:
  assumes r: "os_reachable env argv s" and good: "good_config env (conf s)" "small_programs env (conf s) M"
    and un: "store s \<noteq> Map.empty \<or> int (l_i (ldr s)) < num_processes (conf s)"
  shows "ticks (tmr s) \<le> last_tick (conf s) M"
proof (cases "loader_done s")
  case True
  then have "num_processes (conf s) \<le> int (l_i (ldr s))"
    using reachable_looks [OF r good(1)] by (auto simp: loader_done_def done_ok_def)
  then show ?thesis using reachable_time [OF r good] un True by (simp add: time_inv_def)
next
  case False
  let ?i = "l_i (ldr s)" and ?n = "nat (num_processes (conf s))"
  have bd: "loaded s \<le> ?n" using reachable_pl [OF r good(1)] by simp
  then have "due (conf s) ?i \<le> due (conf s) ?n" by (intro due_mono) (simp add: loaded_def split: if_splits)
  moreover have "due (conf s) ?i + start_of (conf s) ?i \<le> due (conf s) ?n" if "preparing (ldr s)"
    using bd that due_mono [of "Suc ?i" ?n "conf s"] by (simp add: loaded_def)
  ultimately have "ticks (tmr s) \<le> due (conf s) ?n"
    using reachable_time [OF r good] False
    by (cases "l_pc (ldr s)") (auto simp: time_inv_def ld_time_def loader_done_def preparing_def split: if_splits)
  then show ?thesis by (simp add: last_tick_def)
qed

lemma reachable_run: "(os_step env ^^ m) s t \<Longrightarrow> os_reachable env argv s \<Longrightarrow> os_reachable env argv t \<and> conf t = conf s"
proof (induction m arbitrary: t)
  case (Suc m)
  then obtain u where "(os_step env ^^ m) s u" "os_step env u t" by auto
  with Suc show ?case using os_reachable.more os_step_conf by metis
qed simp

section \<open>Properties\<close>

text \<open>C4. Every process finishes in time. With at most ten processes, at least one CPU, no
  process of priority 0 and no \<open>killall\<close>, for programs of at most \<open>M\<close> instructions: in every
  reachable state of any interleaving, as long as a process has not been loaded or has not
  been freed after its last instruction, the time is at most the sum of the start times plus
  \<open>M + 2\<close> slots per process (and one). So no process starves, whatever the priorities.\<close>

theorem processes_finish_in_time:
  assumes "os_reachable env argv s" "good_config env (conf s)" "small_programs env (conf s) M"
    and "store s \<noteq> Map.empty \<or> int (l_i (ldr s)) < num_processes (conf s)"
  shows "ticks (tmr s) \<le> (\<Sum>i < nat (num_processes (conf s)). start_of (conf s) i) +
     (M + 2) * nat (num_processes (conf s)) + 1"
proof -
  have "due c n = (\<Sum>i < n. start_of c i) + n" for c n by (induction n) simp_all
  then show ?thesis using unfinished_early [OF assms] by (simp add: last_tick_def algebra_simps)
qed

text \<open>C26. The work of the simulator ends: a run from any reachable state that has not finished
  every process has a bounded number of steps. As some thread can always go on until \<open>main\<close>
  has returned, every run without a fault that goes on long enough finishes all processes;
  no fairness of the thread scheduler is assumed.\<close>

theorem unfinished_runs_are_short:
  assumes "os_reachable env argv s" "good_config env (conf s)" "small_programs env (conf s) M"
    and "(os_step env ^^ m) s t" "store t \<noteq> Map.empty \<or> int (l_i (ldr t)) < num_processes (conf t)"
  shows "m < (last_tick (conf s) M + 1) * (9 * length (cpus s) + 16)"
proof -
  have r: "os_reachable env argv t" "conf t = conf s" using reachable_run [OF assms(4,1)] by simp_all
  have t: "ticks (tmr t) \<le> last_tick (conf s) M" using unfinished_early [OF r(1) _ _ assms(5)] assms(2,3) r(2) by simp
  have "m \<le> (9 * length (cpus s) + 15) + (ticks (tmr t) - ticks (tmr s)) * (9 * length (cpus s) + 16)"
    using run_limit [OF assms(1,4)] by blast
  also have "\<dots> \<le> (9 * length (cpus s) + 15) + last_tick (conf s) M * (9 * length (cpus s) + 16)"
    using t by (intro add_left_mono mult_le_mono1) simp
  finally show ?thesis by simp
qed

text \<open>C6. \<open>main\<close> leaves no process behind: under the same conditions on the configuration, when
  all threads have been joined every process of the configuration has been loaded, has run
  to its end and has been freed.\<close>

theorem main_joins_after_all_finished:
  assumes "os_reachable env argv s" "good_config env (conf s)" "m_pc s \<noteq> M_Join"
  shows "store s = Map.empty \<and> waiting (sch s) = {#} \<and> num_processes (conf s) \<le> int (l_i (ldr s))"
proof -
  have "all_stopped s" using reachable_clock [OF assms(1)] assms(3) by (auto simp: clock_inv_def)
  from all_stopped_done [OF assms(1,2) this] have fin: "store s = Map.empty" "num_processes (conf s) \<le> int (l_i (ldr s))"
    by simp_all
  moreover have "p \<notin># waiting (sch s)" for p
    using fin(1) waiting_admissible [OF os_inv_pool [OF reachable_os [OF assms(1)]], of p]
    by (auto simp: admissible_def live_def)
  then have "waiting (sch s) = {#}" by (metis multiset_nonemptyE)
  ultimately show ?thesis by blast
qed

section \<open>Witnesses\<close>

text \<open>The configuration of the run of the theory \<open>Run\<close>.\<close>

lemma tiny_config: "read_config tiny_files ''input/tiny'' = Inr
    \<lparr>time_slot = 6, num_cpus = 1, num_processes = 1, memramsz = 512, memswpsz = [256, 0, 0, 0],
     ld_processes = [\<lparr>ld_path = ''input/proc/p'', start_time = Some 0, ld_prio = Some 3\<rparr>]\<rparr>"
  by code_simp

lemma tiny_good:
  assumes "os_reachable tiny_env [''os'', ''tiny''] s"
  shows "good_config tiny_env (conf s)" "small_programs tiny_env (conf s) 1" "num_processes (conf s) = 1"
    "last_tick (conf s) 1 = 4" "start_of (conf s) 0 = 0"
proof -
  have c: "conf s = \<lparr>time_slot = 6, num_cpus = 1, num_processes = 1, memramsz = 512, memswpsz = [256, 0, 0, 0],
     ld_processes = [\<lparr>ld_path = ''input/proc/p'', start_time = Some 0, ld_prio = Some 3\<rparr>]\<rparr>"
    using reachable_conf [OF assms] tiny_config by (simp add: tiny_env_def)
  have p: "map ld_path (ld_processes (conf s)) = [''input/proc/p'']" by (simp add: c)
  have "r = 3" if "(x, r) \<in> programs tiny_env (conf s)" for x r
    using that by (auto simp: programs_def c)
  then show "good_config tiny_env (conf s)" using serial_programs_ok [OF tiny_programs(1) [OF p]] by (fastforce simp: good_config_def c)
  have "unat (code_size x) \<le> 1" if "(x, r) \<in> programs tiny_env (conf s)" for x r
    using tiny_programs(2) [OF p that] that load_fields by (fastforce simp: programs_def)
  moreover have "due (conf s) 1 = 1" by (simp add: due_def start_of_def c)
  ultimately show "small_programs tiny_env (conf s) 1" "last_tick (conf s) 1 = 4"
    by (auto simp: small_programs_def last_tick_def c)
  show "num_processes (conf s) = 1" "start_of (conf s) 0 = 0" by (simp_all add: c start_of_def)
qed

lemma held_store:
  assumes "os_reachable env argv s" "k < length (cpus s)" "c_proc (cpus s ! k) = Some a" "c_pc (cpus s ! k) \<noteq> C_Fetch"
  shows "store s \<noteq> Map.empty"
  using os_inv_cpu [OF reachable_os [OF assms(1)] assms(2)] assms(3,4)
  by (auto simp: cpu_ok_def holding_def admissible_def live_def)

theorem processes_finish_in_time_witness:
  "\<exists>s. os_reachable tiny_env [''os'', ''tiny''] s \<and> store s \<noteq> Map.empty \<and> ticks (tmr s) \<le> 4"
proof -
  obtain s t where s: "os_step tiny_env s t" "os_reachable tiny_env [''os'', ''tiny''] s"
    "cpus s = [\<lparr>c_pc = C_Run, c_timer = 0, c_proc = Some 5, time_left = 6\<rparr>]" by (rule tiny_state)
  have un: "store s \<noteq> Map.empty" using held_store [OF s(2), of 0 5] s(3) by simp
  note g = tiny_good [OF s(2)]
  from processes_finish_in_time [OF s(2) g(1,2)] un have "ticks (tmr s) \<le> 4" by (simp add: g(3,5))
  with s(2) un show ?thesis by blast
qed

theorem unfinished_runs_are_short_witness:
  "\<exists>s t. os_reachable tiny_env [''os'', ''tiny''] s \<and> (os_step tiny_env ^^ Suc 0) s t \<and> store t \<noteq> Map.empty \<and>
     Suc 0 < (last_tick (conf s) 1 + 1) * (9 * length (cpus s) + 16)"
proof -
  obtain s t where s: "os_step tiny_env s t" "os_reachable tiny_env [''os'', ''tiny''] s"
    "cpus t = [\<lparr>c_pc = C_Slot, c_timer = 0, c_proc = Some 5, time_left = 5\<rparr>]" by (rule tiny_state)
  have "os_reachable tiny_env [''os'', ''tiny''] t" using s(1,2) by (metis os_reachable.more)
  then have un: "store t \<noteq> Map.empty" using held_store [of _ _ t 0 5] s(3) by simp
  have run: "(os_step tiny_env ^^ Suc 0) s t" using s(1) by (simp add: eq_OO)
  from unfinished_runs_are_short [OF s(2) tiny_good(1,2) [OF s(2)] run] un s(2) run show ?thesis by blast
qed

text \<open>The rest of the run: the process executes its instruction, the loader and the CPU stop.\<close>

definition final_schedule :: "action list" where
  "final_schedule = tiny_schedule @ [Cpu 0, Cpu 0, Ld 6, Ld 6, Ld 6] @ replicate 9 Tick_Timer @
     [Cpu 0, Cpu 0, Cpu 0, Cpu 0, Cpu 0, Main_Thread]"

lemma final_run: "map_option (\<lambda>s. (m_pc s, ticks (tmr s))) (start_run tiny_env [''os'', ''tiny''] final_schedule) =
    Some (M_Stop, 2)"
  by code_simp

theorem main_joins_after_all_finished_witness:
  "\<exists>s. os_reachable tiny_env [''os'', ''tiny''] s \<and> m_pc s = M_Stop \<and> l_i (ldr s) \<noteq> 0 \<and> store s = Map.empty"
proof -
  obtain s where s: "start_run tiny_env [''os'', ''tiny''] final_schedule = Some s" "m_pc s = M_Stop"
    using final_run by (auto simp: map_option_eq_Some)
  have r: "os_reachable tiny_env [''os'', ''tiny''] s" using start_run_reachable [OF s(1)] .
  from main_joins_after_all_finished [OF r tiny_good(1) [OF r]] s(2) tiny_good(3) [OF r] r show ?thesis by auto
qed

end
