(* ===== verification/Frames.thy ===== *)
theory Frames
  imports Admitted Completion
begin

text \<open>
  The free frames of RAM over the whole run of the simulator. \<open>ALLOC\<close> and the system call
  \<open>memmap\<close> take frames from the head of the free list; nothing ever puts one back: \<open>FREE\<close>,
  \<open>killall\<close> and the end of a process leave the list alone, and a page fault exchanges frames
  of the swap device only. The lemmas take every instruction for one step; the property is about
  programs for which that is what the code does.
\<close>

section \<open>The memory functions\<close>

text \<open>\<open>returns P r\<close>: if the computation \<open>r\<close> returns, the result satisfies \<open>P\<close>.\<close>

definition returns :: "('a \<Rightarrow> bool) \<Rightarrow> 'a result \<Rightarrow> bool" where
  "returns P r \<longleftrightarrow> (case r of Inl _ \<Rightarrow> True | Inr x \<Rightarrow> P x)"

lemma returns_simps [simp]: "returns P (Inr x) = P x" "returns P (Inl e)"
  by (simp_all add: returns_def)

lemma returnsD: "returns P r \<Longrightarrow> r = Inr x \<Longrightarrow> P x"
  by simp

lemma returns_and_then:
  assumes "returns Q m" "\<And>x. m = Inr x \<Longrightarrow> Q x \<Longrightarrow> returns P (f x)"
  shows "returns P (and_then m f)"
  using assms by (cases m) auto

lemma returns_bind: "(\<And>x. m = Inr x \<Longrightarrow> returns P (f x)) \<Longrightarrow> returns P (and_then m f)"
  by (cases m) auto

text \<open>The free frames of a device that a pointer refers to.\<close>

definition frames :: "memphy_struct option \<Rightarrow> int list" where
  "frames mp = (case mp of None \<Rightarrow> [] | Some d \<Rightarrow> free_frames d)"

lemma frames_simps [simp]: "frames None = []" "frames (Some d) = free_frames d"
  by (simp_all add: frames_def)

lemma cell_frames:
  "returns (\<lambda>d'. free_fp_list d' = free_fp_list d) (store_cell d i b)"
  "free_fp_list (snd (MEMPHY_mv_csr d i)) = free_fp_list d"
  by (auto simp: store_cell_def MEMPHY_mv_csr_def)

lemma read_frames: "returns (\<lambda>(_, mp', _). frames mp' = frames mp) (MEMPHY_read mp a)"
  by (auto simp: MEMPHY_read_def MEMPHY_seq_read_def Let_def cell_frames split: option.splits intro!: returns_bind)

lemma write_frames: "returns (\<lambda>(_, mp'). frames mp' = frames mp) (MEMPHY_write mp a b)"
  by (auto simp: MEMPHY_write_def MEMPHY_seq_write_def Let_def cell_frames(2) split: option.splits
      intro!: returns_and_then [OF cell_frames(1)])

lemma swap_cp_frames:
  "returns (\<lambda>(_, s', d'). frames s' = frames s \<and> frames d' = frames d) (swap_cp_page s sf d df)"
proof -
  have "returns (\<lambda>(s', d'). frames s' = frames s \<and> frames d' = frames d) (swap_cp_loop s sf d df n)" for n
  proof (induction n arbitrary: s d)
    case (Suc n)
    have "returns (\<lambda>(s', d'). frames s' = frames s \<and> frames d' = frames d) (swap_cp_loop s1 sf d1 df n)"
      if "frames s1 = frames s" "frames d1 = frames d" for s1 d1
      using Suc.IH [of s1 d1] that by simp
    then show ?case
      by (auto simp: Let_def intro!: returns_bind dest!: returnsD [OF read_frames] returnsD [OF write_frames])
  qed simp
  then show ?thesis by (auto simp: swap_cp_page_def intro!: returns_and_then)
qed

text \<open>Functions that take frames, and those that do not.\<close>

abbreviation takes :: "caller_t \<Rightarrow> caller_t \<Rightarrow> bool" where
  "takes c c' \<equiv> \<exists>n. frames (mram c') = drop n (frames (mram c))"

abbreviation keeps :: "caller_t \<Rightarrow> caller_t \<Rightarrow> bool" where
  "keeps c c' \<equiv> frames (mram c') = frames (mram c)"

lemma alloc_takes: "returns (\<lambda>(_, c'). takes c c') (alloc_pages_loop junk c n)"
proof (induction n arbitrary: c)
  case 0
  show ?case by (auto intro: exI [of _ 0])
next
  case (Suc n)
  show ?case
  proof (cases "mram c")
    case (Some ram)
    show ?thesis
    proof (cases "free_fp_list ram")
      case (Node f nxt)
      let ?c = "c\<lparr>mram := Some (ram\<lparr>free_fp_list := nxt\<rparr>)\<rparr>"
      have "takes c c'" if "takes ?c c'" for c'
        using that Some Node by (auto intro: exI [of _ "Suc _"])
      then show ?thesis using Suc.IH [of ?c] Some Node by (auto simp: MEMPHY_get_freefp_def returns_def split: sum.splits)
    qed (use Some in \<open>auto simp: MEMPHY_get_freefp_def split: chain.splits intro: exI [of _ 0]\<close>)
  qed simp
qed

lemma vmap_keeps: "returns (\<lambda>(c', _). mram c' = mram c) (vmap_loop c a p n i fs rg)"
proof (induction c a p n i fs rg rule: vmap_loop.induct)
  case (3 c addr pgn pgnum pgit fpn nxt ret_rg)
  then show ?case by (auto simp: Let_def intro!: returns_bind)
qed auto

lemma vm_map_ram_takes: "returns (\<lambda>(_, c', _). takes c c') (vm_map_ram junk c s e p n rg)"
  unfolding vm_map_ram_def alloc_pages_range_def and_then_assoc
  by (auto simp: vmap_page_range_def Let_def and_then_assoc
      intro!: returns_and_then [OF alloc_takes] returns_and_then [OF vmap_keeps])

lemma takes_refl [simp]: "takes c c"
  by (auto intro: exI [of _ 0])

lemma inc_vma_takes: "returns (\<lambda>(_, c'). takes c c') (inc_vma_limit junk c i sz)"
proof -
  have "takes c c'" if "vm_map_ram junk (c\<lparr>mm := m\<rparr>) s e p n rg = Inr (x, c', rg')" for m s e p n rg x c' rg'
    using returnsD [OF vm_map_ram_takes that] by simp
  then show ?thesis unfolding inc_vma_limit_def Let_def by (auto intro!: returns_bind)
qed

lemma lock_Inr: "pthread_mutex_lock c = Inr c' \<longleftrightarrow> \<not> mmvm_lock c \<and> c' = c\<lparr>mmvm_lock := True\<rparr>"
  by (auto simp: pthread_mutex_lock_def)

lemma mm_alloc_takes: "returns (\<lambda>(_, c', _). takes c c') (mm_alloc junk c i r sz)"
proof -
  have "takes c c'" if "inc_vma_limit junk (c\<lparr>mmvm_lock := True\<rparr>) i n = Inr (x, c')" for n x c'
    using returnsD [OF inc_vma_takes that] by simp
  then show ?thesis unfolding mm_alloc_def Let_def
    by (auto simp: pthread_mutex_unlock_def lock_Inr split: option.splits intro!: returns_bind)
qed

text \<open>\<open>__free\<close> leaves both devices alone.\<close>

lemma mm_free_devices: "returns (\<lambda>(_, c'). mram c' = mram c \<and> active_mswp c' = active_mswp c) (mm_free h c i r)"
  unfolding mm_free_def pthread_mutex_unlock_def by (auto simp: lock_Inr intro!: returns_bind)

lemma find_victim_keeps: "returns (\<lambda>(_, c', _). keeps c c') (find_victim_page c)"
  unfolding find_victim_page_def pthread_mutex_unlock_def
  by (auto simp: lock_Inr split: option.splits intro!: returns_bind)

lemma pg_swap_in_keeps: "returns (\<lambda>(_, c', _). keeps c c') (pg_swap_in c m pgn pte vp vpte)"
  unfolding pg_swap_in_def Let_def
  by (auto split: option.splits intro!: returns_bind dest!: returnsD [OF swap_cp_frames])

lemma pg_getpage_keeps: "returns (\<lambda>(_, c', _). keeps c c') (pg_getpage c pgn)"
proof -
  have "returns (\<lambda>(_, c', _). keeps c c') (pg_swap_in c1 m pgn pte vp vpte)" if "keeps c c1" for c1 m pte vp vpte
    using pg_swap_in_keeps [of c1] that by simp
  then show ?thesis unfolding pg_getpage_def
    by (auto split: option.splits intro!: returns_bind dest!: returnsD [OF find_victim_keeps])
qed

lemma pg_access_keeps:
  "returns (\<lambda>(_, c', _). keeps c c') (pg_getval c a)" "returns (\<lambda>(_, c'). keeps c c') (pg_setval c a b)"
  unfolding pg_getval_def pg_setval_def Let_def
  by (auto intro!: returns_bind dest!: returnsD [OF pg_getpage_keeps] returnsD [OF read_frames] returnsD [OF write_frames])

lemma lib_takes:
  "returns (\<lambda>(_, c'). takes c c') (liballoc h c w r)"
  "returns (\<lambda>(_, c'). mram c' = mram c \<and> active_mswp c' = active_mswp c) (libfree h c r)"
  "returns (\<lambda>(_, c', _). keeps c c') (libread c r w d)"
  "returns (\<lambda>(_, c'). keeps c c') (libwrite c b r w)"
proof -
  show "returns (\<lambda>(_, c'). takes c c') (liballoc h c w r)"
    unfolding liballoc_def by (rule returns_and_then [OF mm_alloc_takes]) auto
  show "returns (\<lambda>(_, c'). mram c' = mram c \<and> active_mswp c' = active_mswp c) (libfree h c r)"
    unfolding libfree_def by (rule mm_free_devices)
  have "returns (\<lambda>(_, c', _). keeps c c') (mm_read c 0 i j)" for i j
    unfolding mm_read_def by (auto split: option.splits intro!: returns_bind pg_access_keeps)
  then show "returns (\<lambda>(_, c', _). keeps c c') (libread c r w d)"
    unfolding libread_def by (rule returns_and_then) (auto intro!: returns_bind)
  show "returns (\<lambda>(_, c'). keeps c c') (libwrite c b r w)"
    unfolding libwrite_def mm_write_def by (auto split: option.splits intro!: returns_bind pg_access_keeps)
qed

section \<open>Instructions\<close>

definition frames_go :: "machine \<Rightarrow> machine \<Rightarrow> bool" where
  "frames_go mc mc' \<longleftrightarrow> (\<exists>n. free_frames (dev_ram mc') = drop n (free_frames (dev_ram mc)))"

lemma frames_go_same [intro]: "dev_ram mc' = dev_ram mc \<Longrightarrow> frames_go mc mc'"
  by (auto simp: frames_go_def intro: exI [of _ 0])

lemma frames_go_trans: "frames_go mc mc' \<Longrightarrow> frames_go mc' mc'' \<Longrightarrow> frames_go mc mc''"
  by (auto simp: frames_go_def)

text \<open>A memory call of a process that has its devices.\<close>

lemma on_caller_frames:
  assumes "on_caller mc (Some a) f = Inr (r, mc')" "pcbs mc a = Some b" "on_devices b"
    and "returns (\<lambda>(_, c'). takes (view mc b) c') (f (view mc b))"
  shows "frames_go mc mc'"
  using assms(1)
proof (rule on_caller_InrE)
  fix b' c assume f: "pcbs mc a = Some b'" "f (view mc b') = Inr (r, c)" and mc': "mc' = unview mc a b' c"
  then have "takes (view mc b) c" using assms(2,4) by simp
  moreover have "dev_ram mc' = (case mram c of None \<Rightarrow> dev_ram mc | Some d \<Rightarrow> d)"
    using assms(2,3) f(1) by (auto simp: mc' unview_def on_devices_def store_at_def Let_def split: option.splits)
  ultimately show ?thesis
    using assms(3) by (cases "mram c") (auto simp: frames_go_def view_def on_devices_def intro: exI [of _ 0])
qed

text \<open>A call that leaves the devices alone, whatever the pointers of the process.\<close>

lemma on_caller_same:
  assumes "on_caller mc p f = Inr (r, mc')" "\<And>c. returns (\<lambda>(_, c'). mram c' = mram c \<and> active_mswp c' = active_mswp c) (f c)"
  shows "dev_ram mc' = dev_ram mc"
proof -
  obtain a where p: "p = Some a" using assms(1) by (auto simp: on_caller_def result_simps)
  obtain b c where b: "f (view mc b) = Inr (r, c)" "mc' = unview mc a b c"
    using assms(1) unfolding p by (rule on_caller_InrE)
  have "mram c = mram (view mc b) \<and> active_mswp c = active_mswp (view mc b)" using returnsD [OF assms(2) b(1)] by simp
  then show ?thesis by (simp add: b(2) unview_def view_def Let_def)
qed

lemma memmap_frames:
  assumes "memmap_call h mc (Some a) rs = Inr (r, mc', rs')" "pcbs mc a = Some b" "on_devices b"
  shows "frames_go mc mc'"
proof -
  have go: "frames_go mc mc'" if "on_caller mc (Some a) f = Inr (x, mc')" "\<And>c. returns (\<lambda>(_, c'). takes c c') (f c)"
    for f and x :: 'x
    by (rule on_caller_frames [OF that(1) assms(2,3) that(2)])
  have "returns (\<lambda>(_, c'). takes c c') (mm_swap_page c i j)" for c i j
    unfolding mm_swap_page_def by (auto intro!: returns_bind dest!: returnsD [OF swap_cp_frames] intro: exI [of _ 0])
  moreover have "returns (\<lambda>(_, c'). takes c c') (and_then (MEMPHY_read (mram c) i) (\<lambda>(_, ram, val). Inr (val, c\<lparr>mram := ram\<rparr>)))" for c i
    by (auto intro!: returns_bind dest!: returnsD [OF read_frames] intro: exI [of _ 0])
  moreover have "returns (\<lambda>(_, c'). takes c c') (and_then (MEMPHY_write (mram c) i v) (\<lambda>(code, ram). Inr (code, c\<lparr>mram := ram\<rparr>)))" for c i v
    by (auto intro!: returns_bind dest!: returnsD [OF write_frames] intro: exI [of _ 0])
  ultimately show ?thesis
    using assms(1) by (auto simp: memmap_call_def Let_def result_simps split: if_splits intro: go inc_vma_takes)
qed

lemma on_caller_on:
  assumes "on_caller mc (Some a) f = Inr (r, mc')" "pcbs mc a = Some b" "on_devices b"
  shows "\<exists>b'. pcbs mc' a = Some b' \<and> on_devices b'"
  using assms(1) by (rule on_caller_InrE) (use assms(2,3) in \<open>auto simp: on_devices_def\<close>)

lemma read_name_frames:
  assumes "read_name mc (Some a) r i name = Inr (name', mc')" "pcbs mc a = Some b" "on_devices b"
  shows "frames_go mc mc'"
  using assms
proof (induction mc "Some a" r i name arbitrary: b name' mc' rule: read_name.induct)
  case (1 mc r i name)
  let ?f = "\<lambda>c. and_then (libread c r (word_of_nat i) True) (\<lambda>(_, c, data). Inr (data, c))"
  obtain d mc1 where o: "on_caller mc (Some a) ?f = Inr (d, mc1)" and i: "\<not> 100 \<le> i"
    and rest: "if d = -1 then mc' = mc1 else read_name mc1 (Some a) r (Suc i) (name @ [byte_of_u32 d]) = Inr (name', mc')"
    using 1(2) by (subst (asm) read_name.simps) (auto simp: result_simps split: if_splits)
  have "frames_go mc mc1"
    by (rule on_caller_frames [OF o 1(3,4)])
      (auto intro!: returns_bind dest!: returnsD [OF lib_takes(3)] intro: exI [of _ 0])
  moreover have "frames_go mc1 mc'"
    using rest on_caller_on [OF o 1(3,4)] 1(1) [OF o HOL.refl i] by (auto split: if_splits)
  ultimately show ?case by (rule frames_go_trans)
qed

lemma free_allocs_frames: "free_allocs h mc p j n = Inr mc' \<Longrightarrow> dev_ram mc' = dev_ram mc"
proof (induction n arbitrary: mc j)
  case (Suc n)
  obtain b x where b: "pcb_at (pcbs mc) p = Inr b" "arr_get (code_text (code b)) j = Inr x"
    using Suc.prems by (auto simp: result_simps)
  show ?case
  proof (cases "opcode x = ALLOC")
    case True
    note call = Suc.prems b True
    obtain m where m: "p_mm b = Some m" using call by (cases "p_mm b") simp_all
    obtain v where v: "chain_nth (mmap m) 0 = Inr v" using call m by (cases "chain_nth (mmap m) 0") simp_all
    let ?o = "on_caller mc p (\<lambda>c. mm_free h c (int_of_ulong (vm_id v)) (int_of_u32 (arg_0 x)))"
    obtain d mc1 where o: "?o = Inr (d, mc1)" using call m v by (cases ?o) auto
    with call m v have "free_allocs h mc1 p (j + 1) n = Inr mc'" by simp
    then show ?thesis using Suc.IH on_caller_same [OF o mm_free_devices] by simp
  qed (use Suc b in simp)
qed simp

lemma free_killed_frames: "free_killed h mc ps = Inr mc' \<Longrightarrow> dev_ram mc' = dev_ram mc"
  by (induction ps arbitrary: mc) (auto simp: result_simps dest!: free_allocs_frames)

lemma killall_frames:
  assumes "killall_call h mc (Some a) rs = Inr (r, mc')" "pcbs mc a = Some b" "on_devices b"
  shows "frames_go mc mc'"
proof -
  obtain name mc1 st sc ks where n: "read_name mc (Some a) (a1 rs) 0 [] = Inr (name, mc1)"
    and f: "free_killed h (mc1\<lparr>pcbs := st, sched := sc\<rparr>) ks = Inr mc'"
    using assms(1) by (auto simp: killall_call_def Let_def result_simps)
  have "frames_go mc mc1" by (rule read_name_frames [OF n assms(2,3)])
  moreover have "frames_go mc1 mc'" using free_killed_frames [OF f] by auto
  ultimately show ?thesis by (rule frames_go_trans)
qed

lemma exec_ins_frames:
  assumes "exec_ins h mc (Some a) x = Inr (r, mc')" "pcbs mc a = Some b" "on_devices b"
  shows "frames_go mc mc'"
proof -
  have go: "frames_go mc mc'" if "on_caller mc (Some a) f = Inr (r, mc')" "returns (\<lambda>(_, c'). takes (view mc b) c') (f (view mc b))" for f
    by (rule on_caller_frames [OF that(1) assms(2,3) that(2)])
  show ?thesis
  proof (cases "opcode x")
    case SYSCALL
    then show ?thesis
      using assms by (auto simp: exec_ins_def libsyscall_def syscall_def syscalltbl_def list_syscall_def result_simps
          split: if_splits option.splits handler.splits dest: memmap_frames killall_frames)
  next
    case ALLOC
    then show ?thesis using assms(1) by (auto simp: exec_ins_def intro: go lib_takes(1))
  next
    case FREE
    then show ?thesis using assms(1) on_caller_same lib_takes(2) by (fastforce simp: exec_ins_def)
  next
    case READ
    have "returns (\<lambda>(_, c'). takes c c') (and_then (libread c i j True) (\<lambda>(stat, c, _). Inr (stat, c)))" for c i j
      by (auto intro!: returns_bind dest!: returnsD [OF lib_takes(3)] intro: exI [of _ 0])
    then show ?thesis using assms(1) READ by (auto simp: exec_ins_def intro: go)
  next
    case WRITE
    have "returns (\<lambda>(_, c'). takes c c') (libwrite c v i j)" for c v i j
      using lib_takes(4) [of c v i j] by (cases "libwrite c v i j") (auto intro: exI [of _ 0])
    then show ?thesis using assms(1) WRITE by (auto simp: exec_ins_def intro: go)
  qed (use assms(1) in \<open>auto simp: exec_ins_def\<close>)
qed

lemma run_frames:
  assumes "run h mc (Some a) = Inr (r, mc')" "pcbs mc a = Some b" "on_devices b"
  shows "frames_go mc mc'"
proof (cases "pc b < code_size (code b)")
  case True
  let ?mc = "mc\<lparr>pcbs := (pcbs mc)(a \<mapsto> b\<lparr>pc := pc b + 1\<rparr>)\<rparr>"
  obtain x where "exec_ins h ?mc (Some a) x = Inr (r, mc')"
    using assms(1,2) True by (auto simp: run_def pcb_at_def result_simps split: if_splits)
  then have "frames_go ?mc mc'"
    by (rule exec_ins_frames [where b = "b\<lparr>pc := pc b + 1\<rparr>"]) (use assms(3) in \<open>simp_all add: on_devices_def\<close>)
  moreover have "frames_go mc ?mc" by (rule frames_go_same) simp
  ultimately show ?thesis using frames_go_trans by blast
next
  case False
  then show ?thesis using assms(1,2) by (auto simp: run_def pcb_at_def split: if_splits)
qed

section \<open>The simulator\<close>

lemma cpu_step_frames:
  assumes "os_reachable env argv s" "k < length (cpus s)" "cpu_step env s k = Some (Inr t)"
  shows "frames_go (mach s) (mach t)"
  using reachable_os [OF assms(1)] assms(2,3)
proof (cases rule: cpu_step_cases)
  case (run a r)
  obtain b where "store s a = Some b" "on_devices b"
    by (rule dev.running_law [OF assms(1,2) _ run(2)]) (use run(1) in simp_all)
  then show ?thesis by (rule run_frames [OF run(3)])
qed auto

lemma ld_step_frames: "ld_step env s a = Some (Inr t) \<Longrightarrow> dev_ram (mach t) = dev_ram (mach s)"
  by (auto simp: ld_step_def Let_def ld_load_def ld_admit_def result_simps
      split: ld_pc.splits option.splits if_splits)

lemma os_step_frames:
  assumes "os_reachable env argv s" "os_step env s t"
  shows "frames_go (mach s) (mach t)"
  using assms(2)
proof cases
  case (cpu k)
  then show ?thesis using cpu_step_frames [OF assms(1)] by blast
next
  case (loader a)
  then show ?thesis using ld_step_frames by blast
next
  case main
  then show ?thesis using main_step_frame by auto
qed auto

lemma run_frames_go:
  assumes "os_steps env s t" "os_reachable env argv s"
  shows "frames_go (mach s) (mach t) \<and> os_reachable env argv t"
  using assms
proof induction
  case (refl s)
  then show ?case by auto
next
  case (step s t u)
  then have t: "frames_go (mach s) (mach t)" "os_reachable env argv t" by simp_all
  with step show ?case using os_step_frames [OF t(2)] frames_go_trans os_reachable.more by metis
qed

text \<open>A RAM of at least two frames starts with all its frames on the free list, in order.\<close>

lemma drop_upto: "drop n [i..j] = [i + int n..j]"
proof (induction n arbitrary: i)
  case (Suc n)
  show ?case
  proof (cases "i \<le> j")
    case True
    then show ?thesis using Suc.IH [of "i + 1"] by (simp add: upto_rec1 add.assoc)
  qed simp
qed simp

lemma boot_frames:
  assumes "boot env argv = Inr s" "512 \<le> memramsz (conf s)"
  shows "free_frames (dev_ram (mach s)) = [0..memramsz (conf s) div 256 - 1]"
proof -
  obtain r where "init_memphy (env_fp env 0) (env_dev env 0) (memramsz (conf s)) 1 = Inr (r, dev_ram (mach s))"
    using assms(1) by (auto simp: boot_def Let_def result_simps case_prod_unfold split: if_splits)
  then show ?thesis using init_memphy_frames [of "memramsz (conf s)" "env_fp env 0" "env_dev env 0" 1] assms(2) by auto
qed

lemma reachable_frames:
  assumes "os_reachable env argv s" "512 \<le> memramsz (conf s)"
  shows "\<exists>n. free_frames (dev_ram (mach s)) = [int n..memramsz (conf s) div 256 - 1]"
  using assms
proof (induction rule: os_reachable.induct)
  case (boot s)
  then show ?case using boot_frames by (intro exI [of _ 0]) simp
next
  case (more s t)
  then have c: "conf t = conf s" using os_step_conf by simp
  with more obtain n where "free_frames (dev_ram (mach s)) = [int n..memramsz (conf s) div 256 - 1]" by auto
  moreover obtain m where "free_frames (dev_ram (mach t)) = drop m (free_frames (dev_ram (mach s)))"
    using os_step_frames [OF more.hyps(1,2)] by (auto simp: frames_go_def)
  ultimately show ?case using c by (intro exI [of _ "n + m"]) (simp add: drop_upto)
qed

section \<open>Properties\<close>

text \<open>C15. Frames never come back, when the RAM has at least two frames and no program calls
  \<open>killall\<close> or \<open>memmap\<close> with \<open>SYSMEM_INC_OP\<close>: the free frames of RAM are always those from some
  number on, in order, and that number never goes down. So every frame is given out at most
  once in a run, whatever the processes do and however they end: \<open>FREE\<close>, the end of a process
  and a page fault return none, and all processes together get at most the frames of the RAM.
  (A RAM of one frame has a free list that ends in an uninitialised pointer; \<open>SYSMEM_INC_OP\<close>
  takes frames without the lock, so two CPUs can be given the same one.)\<close>

theorem frames_never_return:
  assumes "os_reachable env argv s" "serial_programs env (conf s)" "512 \<le> memramsz (conf s)" "os_steps env s t"
  shows "\<exists>m n. m \<le> n \<and> free_frames (dev_ram (mach s)) = [int m..memramsz (conf s) div 256 - 1] \<and>
     free_frames (dev_ram (mach t)) = [int n..memramsz (conf s) div 256 - 1]"
proof -
  obtain m where "free_frames (dev_ram (mach s)) = [int m..memramsz (conf s) div 256 - 1]"
    using reachable_frames [OF assms(1,3)] by blast
  moreover obtain n where "free_frames (dev_ram (mach t)) = drop n (free_frames (dev_ram (mach s)))"
    using run_frames_go [OF assms(4,1)] by (auto simp: frames_go_def)
  ultimately show ?thesis by (intro exI [of _ m] exI [of _ "m + n"]) (simp add: drop_upto)
qed

theorem frames_never_return_witness:
  "\<exists>s t m n. os_reachable tiny_env [''os'', ''tiny''] s \<and> os_step tiny_env s t \<and> m \<le> n \<and>
     free_frames (dev_ram (mach s)) = [int m..1] \<and> free_frames (dev_ram (mach t)) = [int n..1]"
proof -
  obtain s t where s: "os_step tiny_env s t" "os_reachable tiny_env [''os'', ''tiny''] s"
    "map ld_path (ld_processes (conf s)) = [''input/proc/p'']" by (rule tiny_state)
  have run: "os_steps tiny_env s t" using s(1) os_steps.refl os_steps.step by metis
  have "Inr (conf s) = read_config tiny_files ''input/tiny''" using reachable_conf [OF s(2)] by (simp add: tiny_env_def)
  then have "memramsz (conf s) = 512" unfolding tiny_config by simp
  with frames_never_return [OF s(2) tiny_programs(1) [OF s(3)] _ run] s show ?thesis by auto
qed

end
