(* ===== verification/Unpaged.thy ===== *)
theory Unpaged
  imports Frames
begin

text \<open>
  Paging never becomes usable. No function that the running program reaches ever marks a page
  present: \<open>alloc_pages_range\<close> does not hand out the frames it takes, so \<open>vmap_page_range\<close> maps none,
  and a page fault needs a victim that is present. Where the memory descriptors and page tables
  that \<open>malloc\<close> returns happen to be zero, every page table therefore stays as it is, and every
  \<open>READ\<close> and \<open>WRITE\<close> of every process fails.
\<close>

section \<open>Memory calls\<close>

text \<open>A descriptor with no present page and nothing on the FIFO list.\<close>

definition blank :: "mm_struct option \<Rightarrow> bool" where
  "blank mo \<longleftrightarrow> (\<exists>m tbl. mo = Some m \<and> pgd m = Some tbl \<and> fifo_pgn m = NULL \<and> (\<forall>p. \<not> PAGING_PAGE_PRESENT (tbl p)))"

text \<open>The page table and the FIFO list.\<close>

definition tables :: "mm_struct option \<Rightarrow> ((nat \<Rightarrow> u32) option \<times> int chain) option" where
  "tables mo = map_option (\<lambda>m. (pgd m, fifo_pgn m)) mo"

lemma tables_Some [simp]: "tables (Some m) = Some (pgd m, fifo_pgn m)"
  by (simp add: tables_def)

lemma blank_tables: "tables mo' = tables mo \<Longrightarrow> blank mo' = blank mo"
  by (cases mo; cases mo') (auto simp: tables_def blank_def)

lemma blank_no_pages: "blank (mm c) \<Longrightarrow> \<not> mmvm_lock c \<Longrightarrow> no_pages c"
  by (auto simp: blank_def no_pages_def)

lemma set_vma_tables [simp]: "pgd (set_vma m k f) = pgd m" "fifo_pgn (set_vma m k f) = fifo_pgn m"
  by (simp_all add: set_vma_def)

lemma region_tables:
  "enlist_vm_freerg_list m rg = Inr (r, m') \<Longrightarrow> pgd m' = pgd m \<and> fifo_pgn m' = fifo_pgn m"
  "set_symrg m i s e = Inr m' \<Longrightarrow> pgd m' = pgd m \<and> fifo_pgn m' = fifo_pgn m"
  by (auto simp: enlist_vm_freerg_list_def set_symrg_def result_simps split: if_splits)

abbreviation same_tables :: "caller_t \<Rightarrow> caller_t \<Rightarrow> bool" where
  "same_tables c c' \<equiv> tables (mm c') = tables (mm c)"

lemma vm_map_ram_tables: "returns (\<lambda>(_, c', _). mm c' = mm c) (vm_map_ram junk c s e p n rg)"
  unfolding vm_map_ram_def alloc_pages_range_def
  by (auto simp: vmap_page_range_def Let_def result_simps split: if_splits intro!: returns_bind dest!: alloc_pages_loop_frame)

lemma inc_vma_tables: "returns (\<lambda>(_, c'). same_tables c c') (inc_vma_limit junk c i sz)"
  unfolding inc_vma_limit_def Let_def
  by (auto intro!: returns_bind dest!: returnsD [OF vm_map_ram_tables] simp: result_simps)

lemma mm_alloc_tables: "returns (\<lambda>(_, c', _). same_tables c c') (mm_alloc junk c i r sz)"
proof -
  have inc: "same_tables c c'" if "inc_vma_limit junk (c\<lparr>mmvm_lock := True\<rparr>) i n = Inr (x, c')" for n x c'
    using returnsD [OF inc_vma_tables that] by simp
  show ?thesis unfolding mm_alloc_def Let_def
    by (auto simp: pthread_mutex_unlock_def lock_Inr result_simps split: option.splits if_splits
        intro!: returns_bind dest!: inc region_tables)
qed

lemma mm_free_tables: "returns (\<lambda>(_, c'). same_tables c c') (mm_free h c i r)"
  unfolding mm_free_def
  by (auto simp: pthread_mutex_unlock_def lock_Inr result_simps intro!: returns_bind dest!: region_tables)

lemma alloc_free_tables:
  "returns (\<lambda>(_, c'). same_tables c c') (liballoc h c w r)" "returns (\<lambda>(_, c'). same_tables c c') (libfree h c r)"
proof -
  show "returns (\<lambda>(_, c'). same_tables c c') (liballoc h c w r)"
    unfolding liballoc_def by (rule returns_and_then [OF mm_alloc_tables]) auto
  show "returns (\<lambda>(_, c'). same_tables c c') (libfree h c r)"
    unfolding libfree_def by (rule mm_free_tables)
qed

text \<open>A process with a blank descriptor reads and writes nothing.\<close>

lemma blank_access:
  assumes "no_pages c"
  shows "returns (\<lambda>(code, c', _). code = -1 \<and> c' = c) (libread c r w d)"
    and "returns (\<lambda>(code, c'). code = -1 \<and> c' = c) (libwrite c v r w)"
proof -
  have "returns (\<lambda>(code, c', _). code = -1 \<and> c' = c) (mm_read c 0 i j)" for i j
    unfolding mm_read_def by (auto simp: no_pages_access [OF assms] split: option.splits intro!: returns_bind)
  then show "returns (\<lambda>(code, c', _). code = -1 \<and> c' = c) (libread c r w d)"
    unfolding libread_def by (rule returns_and_then) auto
  show "returns (\<lambda>(code, c'). code = -1 \<and> c' = c) (libwrite c v r w)"
    unfolding libwrite_def mm_write_def
    by (auto simp: no_pages_access [OF assms] split: option.splits intro!: returns_bind)
qed

section \<open>Instructions and system calls\<close>

definition blank_pcb :: "pcb_t \<Rightarrow> bool" where
  "blank_pcb b \<longleftrightarrow> blank (p_mm b)"

text \<open>Any call that leaves the tables alone.\<close>

lemma on_caller_tables:
  assumes "on_caller mc p f = Inr (r, mc')" "\<And>c. returns (\<lambda>(_, c'). same_tables c c') (f c)"
  shows "carries blank_pcb (pcbs mc) (pcbs mc')"
proof -
  obtain a where p: "p = Some a" using assms(1) by (auto simp: on_caller_def result_simps)
  obtain b c where b: "pcbs mc a = Some b" "f (view mc b) = Inr (r, c)" "mc' = unview mc a b c"
    using assms(1) unfolding p by (rule on_caller_InrE)
  have "tables (mm c) = tables (p_mm b)" using returnsD [OF assms(2) b(2)] by (simp add: view_def)
  then have keep: "blank_pcb b \<Longrightarrow> blank_pcb (b\<lparr>p_mm := mm c\<rparr>)" using blank_tables [of "mm c" "p_mm b"] by (simp add: blank_pcb_def)
  show ?thesis unfolding b(3) unview_frame by (rule carries_update, rule b(1)) (rule keep)
qed

text \<open>A read or write of a blank process changes nothing at all.\<close>

lemma on_caller_blank:
  assumes "on_caller mc (Some a) f = Inr (r, mc')" "pcbs mc a = Some b" "blank_pcb b" "\<not> vm_lock mc"
    and "\<And>c. no_pages c \<Longrightarrow> returns (\<lambda>(x, c'). P x \<and> c' = c) (f c)"
  shows "P r \<and> mc' = mc"
  using assms(1)
proof (rule on_caller_InrE)
  fix b' c assume c: "pcbs mc a = Some b'" "f (view mc b') = Inr (r, c)" "mc' = unview mc a b' c"
  have "no_pages (view mc b)" using assms(3,4) by (intro blank_no_pages) (simp_all add: view_def blank_pcb_def)
  then have "P r \<and> c = view mc b" using returnsD [OF assms(5), of "view mc b" "(r, c)"] c(1,2) assms(2) by simp
  then show ?thesis using c(1,3) assms(2) by simp
qed

lemma blank_reads:
  assumes "no_pages c"
  shows "returns (\<lambda>(x, c'). x = -1 \<and> c' = c) (and_then (libread c r w True) (\<lambda>(stat, c, _). Inr (stat, c)))"
    "returns (\<lambda>(x, c'). True \<and> c' = c) (and_then (libread c r w True) (\<lambda>(_, c, data). Inr (data, c)))"
  by (auto intro!: returns_bind dest!: returnsD [OF blank_access(1) [OF assms]])

lemma memmap_tables:
  assumes "memmap_call h mc p rs = Inr (r, mc', rs')"
  shows "carries blank_pcb (pcbs mc) (pcbs mc')"
proof -
  have "returns (\<lambda>(_, c'). same_tables c c') (mm_swap_page c i j)" for c i j
    unfolding mm_swap_page_def by (auto intro!: returns_bind)
  moreover have "returns (\<lambda>(_, c'). same_tables c c') (and_then (MEMPHY_read (mram c) i) (\<lambda>(_, ram, val). Inr (val, c\<lparr>mram := ram\<rparr>)))" for c i
    by (auto intro!: returns_bind)
  moreover have "returns (\<lambda>(_, c'). same_tables c c') (and_then (MEMPHY_write (mram c) i v) (\<lambda>(code, ram). Inr (code, c\<lparr>mram := ram\<rparr>)))" for c i v
    by (auto intro!: returns_bind)
  ultimately show ?thesis
    using assms by (auto simp: memmap_call_def Let_def result_simps split: if_splits intro: on_caller_tables inc_vma_tables)
qed

lemma read_name_blank:
  assumes "read_name mc (Some a) r i name = Inr (name', mc')" "pcbs mc a = Some b" "blank_pcb b" "\<not> vm_lock mc"
  shows "mc' = mc"
  using assms
proof (induction mc "Some a" r i name arbitrary: name' mc' rule: read_name.induct)
  case (1 mc r i name)
  let ?f = "\<lambda>c. and_then (libread c r (word_of_nat i) True) (\<lambda>(_, c, data). Inr (data, c))"
  obtain d mc1 where o: "on_caller mc (Some a) ?f = Inr (d, mc1)" and i: "\<not> 100 \<le> i"
    and rest: "if d = -1 then mc' = mc1 else read_name mc1 (Some a) r (Suc i) (name @ [byte_of_u32 d]) = Inr (name', mc')"
    using 1(2) by (subst (asm) read_name.simps) (auto simp: result_simps split: if_splits)
  have mc1: "mc1 = mc" using on_caller_blank [OF o 1(3-5), where P = "\<lambda>_. True"] blank_reads(2) by blast
  show ?case using rest 1(1) [OF o HOL.refl i] 1(3-5) by (auto simp: mc1 split: if_splits)
qed

lemma blank_finish: "blank_pcb (finish b) = blank_pcb b"
  by (simp add: blank_pcb_def finish_def)

lemma kill_running_carries:
  assumes "kill_running name st q i ks = Inr (st', q', ks')"
  shows "carries blank_pcb st st'"
  using assms
proof (induction name st q i ks arbitrary: st' q' ks' rule: kill_running.induct)
  case (1 name st q i ks)
  show ?case
  proof (cases "i < qsize q")
    case True
    obtain p a b where p: "arr_get (procs q) i = Inr p" "deref p = Inr a" "pcb_at st p = Inr b" and st: "st a = Some b"
      using 1(3) True by (subst (asm) kill_running.simps) (auto simp: result_simps)
    show ?thesis
    proof (cases "has_name name b")
      case nm: True
      obtain ks1 ps where s: "push_kill ks p = Inr ks1" "shift_down (procs q) i (nat (qsize q - 1 - i)) = Inr ps"
        "kill_running name (st(a \<mapsto> finish b)) (q\<lparr>procs := ps, qsize := qsize q - 1\<rparr>) i ks1 = Inr (st', q', ks')"
        using 1(3) True p nm by (subst (asm) kill_running.simps) (auto simp: result_simps)
      have "carries blank_pcb st (st(a \<mapsto> finish b))" by (rule carries_update, rule st) (simp add: blank_finish)
      then show ?thesis using 1(1) [OF True p nm s] by (rule carries_trans)
    next
      case False
      then show ?thesis using 1(2) [OF True p False] 1(3) True p by (subst (asm) kill_running.simps) simp
    qed
  next
    case False
    then show ?thesis using 1(3) by (subst (asm) kill_running.simps) simp
  qed
qed

lemma kill_ready_carries:
  assumes "kill_ready name st q j ks = Inr (st', q', ks')"
  shows "carries blank_pcb st st'"
  using assms
proof (induction name st q j ks arbitrary: st' q' ks' rule: kill_ready.induct)
  case (1 name st q j ks)
  show ?case
  proof (cases "j < qsize q")
    case True
    obtain p a b where p: "arr_get (procs q) j = Inr p" "deref p = Inr a" "pcb_at st p = Inr b" and st: "st a = Some b"
      using 1(3) True by (subst (asm) kill_ready.simps) (auto simp: result_simps)
    show ?thesis
    proof (cases "has_name name b")
      case nm: True
      obtain ks1 ps where s: "push_kill ks p = Inr ks1" "shift_down (procs q) 0 (nat (qsize q - 1)) = Inr ps"
        "kill_ready name (st(a \<mapsto> finish b)) (q\<lparr>procs := ps, qsize := qsize q - 1\<rparr>) j ks1 = Inr (st', q', ks')"
        using 1(3) True p nm by (subst (asm) kill_ready.simps) (auto simp: result_simps)
      have "carries blank_pcb st (st(a \<mapsto> finish b))" by (rule carries_update, rule st) (simp add: blank_finish)
      then show ?thesis using 1(1) [OF True p nm s] by (rule carries_trans)
    next
      case False
      then show ?thesis using 1(2) [OF True p False] 1(3) True p by (subst (asm) kill_ready.simps) simp
    qed
  next
    case False
    then show ?thesis using 1(3) by (subst (asm) kill_ready.simps) simp
  qed
qed

lemma kill_levels_carries:
  assumes "kill_levels name st qs ks = Inr (st', qs', ks')"
  shows "carries blank_pcb st st'"
  using assms
proof (induction qs arbitrary: st ks st' qs' ks')
  case (Cons q qs)
  then obtain st1 q1 ks1 qs1 where k: "kill_ready name st q 0 ks = Inr (st1, q1, ks1)"
    "kill_levels name st1 qs ks1 = Inr (st', qs1, ks')"
    by (auto simp: result_simps)
  show ?case using kill_ready_carries [OF k(1)] Cons.IH [OF k(2)] by (rule carries_trans)
qed simp

lemma free_allocs_tables: "free_allocs h mc p j n = Inr mc' \<Longrightarrow> carries blank_pcb (pcbs mc) (pcbs mc')"
proof (induction n arbitrary: mc j)
  case (Suc n)
  obtain b x where b: "pcb_at (pcbs mc) p = Inr b" "arr_get (code_text (code b)) j = Inr x"
    using Suc.prems by (auto simp: result_simps)
  show ?case
  proof (cases "opcode x = ALLOC")
    case True
    note call = Suc.prems b True
    obtain m where m: "p_mm b = Some m" using call by (cases "p_mm b") simp_all
    obtain v where v: "chain_nth (mmap m) 0 = Inr v" using call m by (cases "chain_nth (mmap m) 0") simp_all
    let ?o = "on_caller mc p (\<lambda>c. mm_free h c (int_of_ulong (vm_id v)) (int_of_u32 (arg_0 x)))"
    obtain d mc1 where o: "?o = Inr (d, mc1)" using call m v by (cases ?o) auto
    with call m v have "free_allocs h mc1 p (j + 1) n = Inr mc'" by simp
    from on_caller_tables [OF o mm_free_tables] Suc.IH [OF this] show ?thesis by (rule carries_trans)
  qed (use Suc b in simp)
qed simp

lemma free_killed_tables: "free_killed h mc ps = Inr mc' \<Longrightarrow> carries blank_pcb (pcbs mc) (pcbs mc')"
proof (induction ps arbitrary: mc)
  case (Cons p ps)
  then obtain b where "pcb_at (pcbs mc) p = Inr b" by (auto simp: result_simps)
  with Cons.prems obtain mc1 where "free_allocs h mc p 0 (unat (code_size (code b))) = Inr mc1" "free_killed h mc1 ps = Inr mc'"
    by (auto simp: result_simps)
  then show ?case using free_allocs_tables Cons.IH carries_trans by blast
qed simp

lemma killall_tables:
  assumes "killall_call h mc (Some a) rs = Inr (r, mc')" "pcbs mc a = Some b" "blank_pcb b" "\<not> vm_lock mc"
  shows "carries blank_pcb (pcbs mc) (pcbs mc')"
proof -
  obtain name mc1 st rl ks st' qs ks' where n: "read_name mc (Some a) (a1 rs) 0 [] = Inr (name, mc1)"
    and run: "kill_running name (pcbs mc1) (running_list (sched mc1)) 0 [] = Inr (st, rl, ks)"
    and lev: "kill_levels name st (mlq_ready_queue (sched mc1)) ks = Inr (st', qs, ks')"
    and fr: "free_killed h (mc1\<lparr>pcbs := st', sched := (sched mc1)\<lparr>running_list := rl, mlq_ready_queue := qs\<rparr>\<rparr>) ks' = Inr mc'"
    using assms(1) by (auto simp: killall_call_def Let_def result_simps)
  have "mc1 = mc" by (rule read_name_blank [OF n assms(2-4)])
  then have "carries blank_pcb (pcbs mc) st" using kill_running_carries [OF run] by simp
  moreover have "carries blank_pcb st st'" by (rule kill_levels_carries [OF lev])
  moreover have "carries blank_pcb st' (pcbs mc')" using free_killed_tables [OF fr] by simp
  ultimately show ?thesis using carries_trans by blast
qed

lemma exec_ins_access:
  assumes "exec_ins h mc (Some a) x = Inr (r, mc')" "opcode x = READ \<or> opcode x = WRITE"
    and "pcbs mc a = Some b" "blank_pcb b" "\<not> vm_lock mc"
  shows "r = -1 \<and> mc' = mc"
proof (cases "opcode x = READ")
  case True
  with assms(1) have o: "on_caller mc (Some a) (\<lambda>c. and_then (libread c (arg_0 x) (arg_1 x) True) (\<lambda>(stat, c, _). Inr (stat, c))) =
      Inr (r, mc')"
    by (simp add: exec_ins_def)
  show ?thesis by (rule on_caller_blank [OF o assms(3-5)]) (rule blank_reads(1))
next
  case False
  with assms(1,2) have o: "on_caller mc (Some a) (\<lambda>c. libwrite c (byte_of_u32 (arg_0 x)) (arg_1 x) (arg_2 x)) = Inr (r, mc')"
    by (auto simp: exec_ins_def)
  show ?thesis by (rule on_caller_blank [OF o assms(3-5)]) (rule blank_access(2))
qed

lemma exec_ins_tables:
  assumes "exec_ins h mc (Some a) x = Inr (r, mc')" "pcbs mc a = Some b" "blank_pcb b" "\<not> vm_lock mc"
  shows "carries blank_pcb (pcbs mc) (pcbs mc')"
proof (cases "opcode x")
  case SYSCALL
  then show ?thesis
    using assms by (auto simp: exec_ins_def libsyscall_def syscall_def syscalltbl_def list_syscall_def result_simps
        split: if_splits option.splits handler.splits dest: memmap_tables killall_tables)
next
  case ALLOC
  then show ?thesis using assms(1) on_caller_tables [OF _ alloc_free_tables(1)] by (auto simp: exec_ins_def)
next
  case FREE
  then show ?thesis using assms(1) on_caller_tables [OF _ alloc_free_tables(2)] by (auto simp: exec_ins_def)
next
  case CALC
  then show ?thesis using assms(1) by (simp add: exec_ins_def)
qed (use exec_ins_access [OF assms(1) _ assms(2-4)] in auto)

lemma run_exec:
  assumes "run h mc (Some a) = Inr (r, mc')" "pcbs mc a = Some b" "pc b < code_size (code b)"
  obtains x where "arr_get (code_text (code b)) (uint (pc b)) = Inr x"
    "exec_ins h (mc\<lparr>pcbs := (pcbs mc)(a \<mapsto> b\<lparr>pc := pc b + 1\<rparr>)\<rparr>) (Some a) x = Inr (r, mc')"
proof -
  have "\<not> code_size (code b) \<le> pc b" using assms(3) by simp
  then show thesis using assms(1,2) that
    by (cases "arr_get (code_text (code b)) (uint (pc b))") (auto simp: run_def pcb_at_def)
qed

lemma run_tables:
  assumes "run h mc (Some a) = Inr (r, mc')" "pcbs mc a = Some b" "blank_pcb b" "\<not> vm_lock mc"
  shows "carries blank_pcb (pcbs mc) (pcbs mc')"
proof (cases "pc b < code_size (code b)")
  case True
  let ?b = "b\<lparr>pc := pc b + 1\<rparr>"
  obtain x where x: "exec_ins h (mc\<lparr>pcbs := (pcbs mc)(a \<mapsto> ?b)\<rparr>) (Some a) x = Inr (r, mc')"
    by (rule run_exec [OF assms(1,2) True])
  have b: "blank_pcb ?b" using assms(3) by (simp add: blank_pcb_def)
  have "carries blank_pcb (pcbs mc) ((pcbs mc)(a \<mapsto> ?b))" by (rule carries_update, rule assms(2)) (rule b)
  moreover have "carries blank_pcb ((pcbs mc)(a \<mapsto> ?b)) (pcbs mc')" using exec_ins_tables [OF x _ b] assms(4) by simp
  ultimately show ?thesis by (rule carries_trans)
next
  case False
  then show ?thesis using assms(1,2) by (auto simp: run_def pcb_at_def split: if_splits)
qed

section \<open>The simulator\<close>

text \<open>What \<open>init_mm\<close> makes of the blocks that \<open>malloc\<close> delivers is blank, for every process.\<close>

definition zeroed :: "env_t \<Rightarrow> bool" where
  "zeroed env \<longleftrightarrow> (\<forall>i. blank (Some (snd (init_mm (env_blocks env i) (env_mm env i)))))"

interpretation unpaged: pcb_law env "\<lambda>b. zeroed env \<longrightarrow> blank_pcb b"
proof
  fix mc a r mc' b assume run: "run (env_host env) mc (Some a) = Inr (r, mc')" "pcbs mc a = Some b"
    and b: "zeroed env \<longrightarrow> blank_pcb b" and mc: "\<not> vm_lock mc" "pool_ok (pcbs mc) (sched mc)"
  show "carries (\<lambda>b. zeroed env \<longrightarrow> blank_pcb b) (pcbs mc) (pcbs mc')"
  proof (cases "zeroed env")
    case True
    then show ?thesis using run_tables [OF run _ mc(1)] b by simp
  next
    case False
    have sim: "similar (pcbs mc) (pcbs mc')" using run_pool [OF run mc(2)] by (simp add: pool_shrinks_def)
    have "\<exists>y. pcbs mc x = Some y" if "pcbs mc' x = Some b'" for x b'
      using similar_at [OF sim, of x] that by auto
    then show ?thesis using False by (simp add: carries_def)
  qed
qed (simp_all add: blank_pcb_def link_queues_def give_memory_def zeroed_def)

section \<open>Properties\<close>

text \<open>C7. Memory is never usable: if the descriptors and page tables that \<open>malloc\<close> returns are zero,
  then in any run, whatever was allocated before, every \<open>READ\<close> and every \<open>WRITE\<close> that a CPU
  executes returns -1 and changes nothing but the program counter of its process: no byte of a
  RAM or swap device is ever reached through a region.\<close>

theorem memory_is_never_usable:
  assumes "os_reachable env argv s" "zeroed env" "k < length (cpus s)" "c_pc (cpus s ! k) = C_Run"
    and "c_proc (cpus s ! k) = Some a" "store s a = Some b" "pc b < code_size (code b)"
    and "arr_get (code_text (code b)) (uint (pc b)) = Inr x" "opcode x = READ \<or> opcode x = WRITE"
    and "run (env_host env) (mach s) (Some a) = Inr (r, mc)"
  shows "r = -1 \<and> mc = (mach s)\<lparr>pcbs := (store s)(a \<mapsto> b\<lparr>pc := pc b + 1\<rparr>)\<rparr>"
proof -
  let ?b = "b\<lparr>pc := pc b + 1\<rparr>"
  let ?mc = "(mach s)\<lparr>pcbs := (store s)(a \<mapsto> ?b)\<rparr>"
  have pc: "c_pc (cpus s ! k) \<noteq> C_Fetch" using assms(4) by simp
  have "blank_pcb b" using unpaged.running_law [OF assms(1,3) pc assms(5)] assms(2,6) by auto
  then have b: "pcbs ?mc a = Some ?b" "blank_pcb ?b" "\<not> vm_lock ?mc"
    using reachable_unlocked [OF assms(1)] by (simp_all add: blank_pcb_def)
  obtain y where y: "arr_get (code_text (code b)) (uint (pc b)) = Inr y" "exec_ins (env_host env) ?mc (Some a) y = Inr (r, mc)"
    by (rule run_exec [OF assms(10,6,7)])
  then have "y = x" using assms(8) by simp
  then show ?thesis using exec_ins_access [OF y(2) _ b] assms(9) by blast
qed

text \<open>The run of the theory \<open>Run\<close>, with a program that reads region 1.\<close>

definition read_files :: "string \<Rightarrow> string option" where
  "read_files = tiny_files(''input/proc/p'' \<mapsto> ''1 1 read 1 0 2'')"

definition read_env :: env_t where
  "read_env = tiny_env\<lparr>env_fs := read_files\<rparr>"

definition next_op :: "pcb_t \<Rightarrow> ins_opcode_t option" where
  "next_op b = (if pc b < code_size (code b) then
     (case arr_get (code_text (code b)) (uint (pc b)) of Inl e \<Rightarrow> None | Inr x \<Rightarrow> Some (opcode x)) else None)"

lemma read_run: "map_option (\<lambda>s. (cpus s, map_option next_op (store s 5),
       case run (env_host read_env) (mach s) (Some 5) of Inl e \<Rightarrow> None | Inr (r, _) \<Rightarrow> Some r))
     (start_run read_env [''os'', ''tiny''] tiny_schedule) =
   Some ([\<lparr>c_pc = C_Run, c_timer = 0, c_proc = Some 5, time_left = 6\<rparr>], Some (Some READ), Some (-1))"
  by code_simp

lemma read_zeroed: "zeroed read_env"
proof -
  have "\<not> PAGING_PAGE_PRESENT 0" by code_simp
  then show ?thesis
    by (simp add: zeroed_def blank_def read_env_def tiny_env_def init_mm_def demo_mm_def Let_def)
qed

theorem memory_is_never_usable_witness:
  "\<exists>s b mc. os_reachable read_env [''os'', ''tiny''] s \<and> store s 5 = Some b \<and> next_op b = Some READ \<and>
     run (env_host read_env) (mach s) (Some 5) = Inr (-1, mc) \<and>
     mc = (mach s)\<lparr>pcbs := (store s)(5 \<mapsto> b\<lparr>pc := pc b + 1\<rparr>)\<rparr>"
proof -
  obtain s b where s: "start_run read_env [''os'', ''tiny''] tiny_schedule = Some s"
    "cpus s = [\<lparr>c_pc = C_Run, c_timer = 0, c_proc = Some 5, time_left = 6\<rparr>]" "store s 5 = Some b" "next_op b = Some READ"
    and r: "(case run (env_host read_env) (mach s) (Some 5) of Inl e \<Rightarrow> None | Inr (r, _) \<Rightarrow> Some r) = Some (-1)"
    using read_run by (auto simp: map_option_eq_Some)
  obtain mc where mc: "run (env_host read_env) (mach s) (Some 5) = Inr (-1, mc)" using r by (auto split: sum.splits)
  obtain x where x: "pc b < code_size (code b)" "arr_get (code_text (code b)) (uint (pc b)) = Inr x" "opcode x = READ"
    using s(4) by (auto simp: next_op_def split: if_splits sum.splits)
  have reach: "os_reachable read_env [''os'', ''tiny''] s" using start_run_reachable [OF s(1)] .
  have k: "0 < length (cpus s)" "c_pc (cpus s ! 0) = C_Run" "c_proc (cpus s ! 0) = Some 5" by (simp_all add: s(2))
  from memory_is_never_usable [OF reach read_zeroed k s(3) x(1,2) _ mc] x(3)
  show ?thesis using reach s(3,4) mc by blast
qed

end
