(* ===== verification/Spec2Isabelle.thy ===== *)
theory Spec2Isabelle
  imports Layout Flat Race Waits Unpaged Completion
begin

text \<open>
  \<^bold>\<open>A verification of the operating system simulator.\<close>

  The program (\<open>src/src\<close>, \<open>src/include\<close>) simulates an operating system: a loader thread brings
  processes in at their start times, CPU threads take them from a multi-level ready queue and
  execute their instructions, a timer thread keeps all threads in step, and processes allocate
  and access memory through paging with a RAM device and swap devices. The build that is
  modelled has \<open>MLQ_SCHED\<close> and \<open>MM_PAGING\<close> defined, as \<open>include/os-cfg.h\<close> has it.

  \<^bold>\<open>Conventions.\<close> \<open>Prelude\<close> has the result type \<open>fault + 'a\<close>: an \<open>Inl\<close> is undefined behaviour, a
  thread that blocks on its own mutex, or \<open>exit(1)\<close>; every value the C code returns, error codes
  included, is an \<open>Inr\<close>. Integers follow gcc on LP64: unsigned types are words, an \<open>int\<close> is an
  integer whose computations fault when they leave 32 bits, conversions wrap. Pointers are
  options, linked lists are chains that may end in NULL or in an uninitialised pointer, arrays
  are lists with checked bounds, PCBs live in a store because queues and CPUs share them. What
  \<open>malloc\<close> returns for data that is never freed is assumed to be memory, except where a
  parameter (\<open>host\<close>, \<open>mm_blocks\<close>) says that it may fail; what a fresh block holds is a parameter
  wherever the code reads it. Debug output is left out; functions whose purpose is printing
  return what they print.

  \<^bold>\<open>Memory.\<close>
  \<^item> \<open>Bitops\<close>: \<open>include/bitops.h\<close>, the macros of \<open>include/mm.h\<close>, and the page table entries of
    \<open>src/mm.c\<close>. Fields are read back as they were set; \<open>pte_set_swap\<close> leaves an entry present.
    \<open>Layout\<close>: the macros that document the layout of entries; the fields are disjoint and as wide
    as the largest devices need.
  \<^item> \<open>Memphy\<close>: \<open>src/mm-memphy.c\<close>. Cells and frames of a device; the locale of a random access
    memory is interpreted on \<open>MEMPHY_read\<close> and \<open>MEMPHY_write\<close>.
  \<^item> \<open>Mm\<close>, \<open>Vm\<close>: \<open>src/mm.c\<close> and \<open>src/mm-vm.c\<close>. Mapping pages, allocating frames, copying pages to
    swap, growing an area.
  \<^item> \<open>Libmem\<close>: \<open>src/libmem.c\<close>. Regions stay apart, bytes are read back, a page fault moves the
    right pages, every call releases the mutex; and what the code does where it fails its
    purpose (a fresh region is unusable, freed regions are never reused).
  \<^item> \<open>Mem\<close>: \<open>src/mem.c\<close>, the legacy memory, which never allocates.

  \<^bold>\<open>Processes.\<close>
  \<^item> \<open>Common\<close>: \<open>include/common.h\<close>. \<open>Queue\<close>: \<open>src/queue.c\<close>, with the contract of a priority queue
    as a locale. \<open>Sched\<close>: \<open>src/sched.c\<close>; the \<open>goto\<close> of \<open>get_mlq_proc\<close> is a recursion with a
    termination proof, and \<open>get_proc\<close> refines a specification of the level it serves. \<open>Flat\<close>: the
    functions of \<open>src/sched.c\<close> without \<open>MLQ_SCHED\<close>, which never dispatch a process.
  \<^item> \<open>Machine\<close>: what the threads share, and the view of it that a memory call has. \<open>Syscall\<close>:
    \<open>src/syscall.c\<close>, \<open>src/syscall.tbl\<close>, \<open>src/libstd.c\<close> and the handlers \<open>src/sys_listsyscall.c\<close>,
    \<open>src/sys_mem.c\<close>, \<open>src/sys_killall.c\<close>. \<open>Cpu\<close>: \<open>src/cpu.c\<close>; an instruction changes its own
    process only, and a write does not change what another process reads.

  \<^bold>\<open>The simulator.\<close>
  \<^item> \<open>Timer\<close>: \<open>src/timer.c\<close> as a step relation over all interleavings of the timer and its
    devices. The slots are a barrier, there is no deadlock, a slot is completed in a bounded
    number of steps.
  \<^item> \<open>Stdio\<close>: the \<open>scanf\<close> and \<open>fgets\<close> the program uses. \<open>Loader\<close>: \<open>src/loader.c\<close>. \<open>Config\<close>:
    \<open>read_config\<close> of \<open>src/os.c\<close>. Program files and configurations are read as they were written.
  \<^item> \<open>Os\<close>: \<open>main\<close>, \<open>cpu_routine\<close> and \<open>ld_routine\<close> of \<open>src/os.c\<close> as steps, and \<open>src/paging.c\<close>.
  \<^item> \<open>Run\<close>: executing a schedule, for reachable states by evaluation.
  \<^item> \<open>Killall\<close>: what an instruction, \<open>killall\<close> included, may change of the scheduler and of the
    processes: the other processes only lose their place, and the queues keep their order.
  \<^item> \<open>System\<close>: where every process is. The contract of the scheduler is the locale \<open>ready_pool\<close>,
    interpreted on \<open>get_proc\<close> and \<open>put_proc\<close>. Every step of the system refines a step of an
    abstract machine that moves processes between places; no process is on two CPUs, none is
    lost while there are at most ten, and a CPU fails only inside an instruction.
  \<^item> \<open>Slots\<close>: the threads against the timer: lock step, the bounds of the time slice, and the
    states the program never leaves.
  \<^item> \<open>Locks\<close>: both mutexes are free between steps, and no thread blocks on its own mutex.
  \<^item> \<open>Admitted\<close>: the locale \<open>pcb_law\<close> of what every admitted process keeps. \<open>Frames\<close> and \<open>Unpaged\<close>
    rest on its interpretations: no frame of RAM is ever given back, and where \<open>malloc\<close> returns
    zeroed blocks no \<open>READ\<close> or \<open>WRITE\<close> ever reaches a byte.
  \<^item> \<open>Progress\<close>: no deadlock of the whole program, and the bound \<open>9 n + 16\<close> on the steps that
    \<open>n\<close> CPUs, the loader, the timer and \<open>main\<close> take in one slot together. The rank that
    decreases with every step is an interpretation of the locale \<open>progress_measure\<close>.
  \<^item> \<open>Fair\<close>, \<open>Waits\<close>: no process starves in the ready queues. A potential of the queues and slots
    decreases with every \<open>get_proc\<close> and bounds the wait by 197420 calls (ten processes at a level,
    about twice the 9870 slots of a round for each). In the running simulator it bounds the slots
    of the timer that pass while a process waits and some CPU has not stopped.
  \<^item> \<open>Race\<close>: the loop of \<open>killall\<close> over a ready queue in single assignments. Uninterrupted it does
    what \<open>kill_ready\<close> of \<open>Syscall\<close> does; interrupted it lets two CPUs get the same process.
  \<^item> \<open>Stopping\<close>: when CPUs stop. A CPU that stops has seen the queues empty after the loader was
    done, if no process has priority 0; with one, it may leave a process behind.
  \<^item> \<open>Completion\<close>: every process finishes, by a time computed from the configuration
    (\<open>last_tick\<close>); \<open>main\<close> joins the threads only after that.

  \<^bold>\<open>Choices.\<close> Loops that end are recursive functions with termination proofs, so no fuel is
  used. A step of a thread in \<open>Os\<close> is one call of a shared component: \<open>put_proc\<close> and \<open>add_proc\<close>
  lock the queue twice and are one step, and so is a call of \<open>run\<close>. The loader's \<open>malloc\<close> may give a
  PCB any free address, also that of a freed one.

  \<^bold>\<open>What one step for an instruction means.\<close> \<open>ALLOC\<close>, \<open>FREE\<close> and the choice of a victim page hold
  \<open>mmvm_lock\<close>. \<open>READ\<close> and \<open>WRITE\<close> access the page table of their own process and single bytes of RAM
  without it, and so does a page fault with frames of the swap device, which by \<open>Unpaged\<close> no run
  with zeroed blocks reaches. Two system calls change shared data without any lock: \<open>killall\<close> the
  queues, and \<open>memmap\<close> with \<open>SYSMEM_INC_OP\<close> the free frames of RAM. While one CPU makes such a call,
  another one can act between its assignments, which a single step does not show. The
  properties of \<open>System\<close>, \<open>Waits\<close> and \<open>Frames\<close> about processes, queues and frames therefore assume
  \<open>serial_programs\<close>: no program makes either call. Where their proofs do not use the assumption
  it confines the claim to programs for which the steps are those of the code. The properties of
  \<open>Slots\<close>, \<open>Locks\<close>, \<open>Progress\<close> and \<open>Unpaged\<close>, which are about the timer, the mutexes and the page
  tables, are stated for all programs, a system call being one step. The properties of
  \<open>Completion\<close> are about configurations that \<open>good_config\<close> accepts: at most ten processes, at least
  one CPU, no priority 0 and no \<open>killall\<close>. \<open>Stopping\<close> shows why priority 0 is excluded: level 0 has as many slots
  as a round has levels, so the scheduler can answer NULL although a process waits there.
  Liveness needs no fairness: every step of every thread lowers a rank or advances the time, so
  an interleaving cannot starve a thread for ever. A CPU or loader that meets undefined
  behaviour takes no further step; the liveness properties speak of runs, so such a run ends.

  \<^bold>\<open>Not modelled.\<close> The code of the other build variant (\<open>cpu.c\<close> and \<open>os.c\<close> without \<open>MM_PAGING\<close>),
  which is not compiled; the script that turns \<open>syscall.tbl\<close> into \<open>syscalltbl.lst\<close>; \<open>BIT_ULL_MASK\<close> and
  \<open>BIT_ULL_WORD\<close> of \<open>bitops.h\<close>, which use an undefined macro; mutex and condition variable calls as
  such (a locked region is a step); what other threads see inside a system call, except in \<open>Race\<close>;
  weak memory effects of the unsynchronised reads of \<open>done\<close>, \<open>_time\<close> and \<open>timer_stop\<close>; console
  output.
\<close>

end
